(* ===== verification/GoPrelude.thy ===== *)
theory GoPrelude
  imports Main "HOL-Library.Word" "HOL-Library.Multiset"
begin

text \<open>
  The vocabulary the component theories share: Go's fixed-width integers, slices and
  \<open>sort.Search\<close>.

  Unsigned integers are words (\<open>u8\<close>, \<open>u16\<close>, \<open>u32\<close>, \<open>u64\<close>), whose arithmetic wraps as
  Go's does. Signed integers are \<open>int\<close>, and every addition, subtraction or multiplication
  of the source that could leave the type's range is wrapped explicitly by \<open>wrap32\<close> or
  \<open>wrap64\<close>; inside the range both are the identity (\<open>wrap32_id\<close>, \<open>wrap64_id\<close>).
  Division truncates towards zero (\<open>go_div\<close>).
\<close>

section \<open>Integer types\<close>

type_synonym u8 = "8 word"
type_synonym u16 = "16 word"
type_synonym u32 = "32 word"
type_synonym u64 = "64 word"

named_theorems go_int \<open>rewriting of wrapped signed arithmetic inside the range\<close>
named_theorems go_slice \<open>slice surgery\<close>

definition in_i32 :: "int \<Rightarrow> bool" where
  "in_i32 x \<longleftrightarrow> -(2^31) \<le> x \<and> x < 2^31"

definition in_i64 :: "int \<Rightarrow> bool" where
  "in_i64 x \<longleftrightarrow> -(2^63) \<le> x \<and> x < 2^63"

definition wrap32 :: "int \<Rightarrow> int" where
  "wrap32 x = (x + 2^31) mod 2^32 - 2^31"

definition wrap64 :: "int \<Rightarrow> int" where
  "wrap64 x = (x + 2^63) mod 2^64 - 2^63"

text \<open>Go's \<open>/\<close> on signed integers: truncation towards zero.\<close>

definition go_div :: "int \<Rightarrow> int \<Rightarrow> int" where
  "go_div a b = sgn a * sgn b * (\<bar>a\<bar> div \<bar>b\<bar>)"

lemma wrap32_id [go_int]: "in_i32 x \<Longrightarrow> wrap32 x = x"
  by (simp add: in_i32_def wrap32_def)

lemma wrap64_id [go_int]: "in_i64 x \<Longrightarrow> wrap64 x = x"
  by (simp add: in_i64_def wrap64_def)

lemma wrap32_nonneg: "0 \<le> x \<Longrightarrow> x < 2^31 \<Longrightarrow> wrap32 x = x"
  by (simp add: wrap32_id in_i32_def)

lemma wrap64_nonneg: "0 \<le> x \<Longrightarrow> x < 2^63 \<Longrightarrow> wrap64 x = x"
  by (simp add: wrap64_id in_i64_def)

lemma wrap_0 [simp]: "wrap32 0 = 0" "wrap64 0 = 0"
  by (simp_all add: wrap32_def wrap64_def)

lemma wrap32_in: "in_i32 (wrap32 x)"
proof -
  have "0 \<le> (x + 2^31) mod 2^32" and "(x + 2^31) mod 2^32 < (2^32 :: int)"
    by (simp_all del: power_numeral)
  then show ?thesis by (simp add: in_i32_def wrap32_def)
qed

lemma wrap64_in: "in_i64 (wrap64 x)"
proof -
  have "0 \<le> (x + 2^63) mod 2^64" and "(x + 2^63) mod 2^64 < (2^64 :: int)"
    by (simp_all del: power_numeral)
  then show ?thesis by (simp add: in_i64_def wrap64_def)
qed

lemma in_i32_between: "0 \<le> x \<Longrightarrow> x \<le> y \<Longrightarrow> in_i32 y \<Longrightarrow> in_i32 x"
  by (simp add: in_i32_def)

lemma in_i64_between: "0 \<le> x \<Longrightarrow> x \<le> y \<Longrightarrow> in_i64 y \<Longrightarrow> in_i64 x"
  by (simp add: in_i64_def)

lemma go_div_nonneg [simp]: "0 \<le> a \<Longrightarrow> 0 < b \<Longrightarrow> go_div a b = a div b"
  by (cases "a = 0") (auto simp: go_div_def)

lemma go_div_mult_le: "0 \<le> a \<Longrightarrow> 0 < b \<Longrightarrow> b * go_div a b \<le> a"
  by (simp add: minus_mod_eq_mult_div [symmetric])

text \<open>An unsigned counter that does not wrap grows.\<close>

lemma word_less_inc: "x + 1 \<noteq> 0 \<Longrightarrow> x < x + (1 :: 'a::len word)"
  using unatSuc [of x] by (simp add: word_less_nat_alt add.commute)

section \<open>Slices\<close>

text \<open>
  \<open>append(xs[:i], xs[i+1:]...)\<close> and the append/copy/assign idiom that opens a gap at \<open>i\<close>.
\<close>

definition remove_at :: "nat \<Rightarrow> 'a list \<Rightarrow> 'a list" where
  "remove_at i xs = take i xs @ drop (Suc i) xs"

definition insert_at :: "nat \<Rightarrow> 'a \<Rightarrow> 'a list \<Rightarrow> 'a list" where
  "insert_at i x xs = take i xs @ x # drop i xs"

lemma length_remove_at [go_slice]: "i < length xs \<Longrightarrow> length (remove_at i xs) = length xs - 1"
  by (simp add: remove_at_def)

lemma remove_at_0 [go_slice]: "remove_at 0 (x # xs) = xs"
  by (simp add: remove_at_def)

lemma mset_insert_at [go_slice]: "mset (insert_at i x xs) = add_mset x (mset xs)"
  by (simp add: insert_at_def) (metis append_take_drop_id mset_append)

lemma set_insert_at [go_slice]: "set (insert_at i x xs) = insert x (set xs)"
  by (metis mset_insert_at set_mset_add_mset_insert set_mset_mset)

lemma distinct_insert_at [go_slice]:
  "distinct (insert_at i x xs) \<longleftrightarrow> x \<notin> set xs \<and> distinct xs"
  by (metis distinct.simps(2) mset_eq_imp_distinct_iff mset.simps(2) mset_insert_at)

lemma map_insert_at [go_slice]: "map f (insert_at i x xs) = insert_at i (f x) (map f xs)"
  by (simp add: insert_at_def take_map drop_map)

section \<open>Binary search\<close>

text \<open>
  \<open>sort.Search(n, f)\<close> of the standard library: the loop over \<open>[i, j)\<close> with
  \<open>h = (i + j) / 2\<close>.
\<close>

function sort_search_from :: "(nat \<Rightarrow> bool) \<Rightarrow> nat \<Rightarrow> nat \<Rightarrow> nat" where
  "sort_search_from f i j =
     (if i < j then
        (let h = (i + j) div 2 in
         if \<not> f h then sort_search_from f (h + 1) j else sort_search_from f i h)
      else i)"
  by pat_completeness auto
termination
  by (relation "measure (\<lambda>(f, i, j). j - i)") auto

declare sort_search_from.simps [simp del]

definition sort_search :: "nat \<Rightarrow> (nat \<Rightarrow> bool) \<Rightarrow> nat" where
  "sort_search n f = sort_search_from f 0 n"

lemma sort_search_from_cong:
  "(\<And>k. k < j \<Longrightarrow> f k = g k) \<Longrightarrow> sort_search_from f i j = sort_search_from g i j"
proof (induction f i j rule: sort_search_from.induct)
  case (1 f i j)
  let ?h = "(i + j) div 2"
  show ?case
  proof (cases "i < j")
    case True
    then have "f ?h = g ?h" by (intro "1.prems") simp
    moreover have "\<not> f ?h \<Longrightarrow> sort_search_from f (?h + 1) j = sort_search_from g (?h + 1) j"
      using "1.IH"(1) [OF True refl] "1.prems" by blast
    moreover have "f ?h \<Longrightarrow> sort_search_from f i ?h = sort_search_from g i ?h"
      using "1.IH"(2) [OF True refl] "1.prems" True by simp
    ultimately show ?thesis
      by (simp add: sort_search_from.simps [of f i j] sort_search_from.simps [of g i j] Let_def)
  qed (simp add: sort_search_from.simps)
qed

lemma sort_search_cong: "(\<And>k. k < n \<Longrightarrow> f k = g k) \<Longrightarrow> sort_search n f = sort_search n g"
  unfolding sort_search_def by (rule sort_search_from_cong)

text \<open>
  On a predicate that stays true once it is true, the result splits the range: false
  before it, true from it on.
\<close>

definition upward_closed :: "nat \<Rightarrow> (nat \<Rightarrow> bool) \<Rightarrow> bool" where
  "upward_closed n f \<longleftrightarrow> (\<forall>a b. a \<le> b \<and> b < n \<and> f a \<longrightarrow> f b)"

lemma upward_closedD: "upward_closed n f \<Longrightarrow> f a \<Longrightarrow> a \<le> b \<Longrightarrow> b < n \<Longrightarrow> f b"
  unfolding upward_closed_def by blast

definition splits_range :: "nat \<Rightarrow> (nat \<Rightarrow> bool) \<Rightarrow> nat \<Rightarrow> bool" where
  "splits_range n f r \<longleftrightarrow> r \<le> n \<and> (\<forall>k < r. \<not> f k) \<and> (\<forall>k. r \<le> k \<and> k < n \<longrightarrow> f k)"

lemma sort_search_from_spec:
  assumes "upward_closed n f"
    and "i \<le> j" and "j \<le> n" and "\<forall>k < i. \<not> f k" and "\<forall>k. j \<le> k \<and> k < n \<longrightarrow> f k"
  shows "splits_range n f (sort_search_from f i j)"
  using assms
proof (induction f i j rule: sort_search_from.induct)
  case (1 f i j)
  let ?h = "(i + j) div 2"
  consider (stop) "\<not> i < j" | (left) "i < j" "f ?h" | (right) "i < j" "\<not> f ?h"
    by blast
  then show ?case
  proof cases
    case stop
    then have "sort_search_from f i j = i" by (simp add: sort_search_from.simps [of f i j])
    with stop "1.prems" show ?thesis by (simp add: splits_range_def)
  next
    case left
    have "\<forall>k. ?h \<le> k \<and> k < n \<longrightarrow> f k" using upward_closedD [OF "1.prems"(1) left(2)] by blast
    with left "1.prems" have "splits_range n f (sort_search_from f i ?h)"
      by (intro "1.IH"(2)) simp_all
    with left show ?thesis by (simp add: sort_search_from.simps [of f i j] Let_def)
  next
    case right
    have "?h < n" using right "1.prems"(3) by linarith
    then have "\<forall>k < ?h + 1. \<not> f k"
      using upward_closedD [OF "1.prems"(1), of _ ?h] right(2) by fastforce
    with right "1.prems" have "splits_range n f (sort_search_from f (?h + 1) j)"
      by (intro "1.IH"(1)) simp_all
    with right show ?thesis by (simp add: sort_search_from.simps [of f i j] Let_def)
  qed
qed

lemma sort_search_spec:
  assumes "upward_closed n f"
  shows "splits_range n f (sort_search n f)"
  unfolding sort_search_def by (rule sort_search_from_spec [OF assms]) auto

end
