(* ===== verification/OrderBook.thy ===== *)
theory OrderBook
  imports GoPrelude
begin

text \<open>
  The order book of \<open>pkg/orderbook\<close> (\<open>types.go\<close>, \<open>book.go\<close>): the order record, the two
  sides of a book kept in price-time order by \<open>sort.Search\<close> insertion, removal by id and
  the aggregated price levels.

  The Go book holds \<open>[]*Order\<close>: the service's index and the book share each order object,
  and matching writes through the pointer. Orders therefore live in a heap from pointers
  to order values, and a book side is a list of pointers.
\<close>

section \<open>Types\<close>

type_synonym ptr = nat

record order =
  o_ID :: u64
  o_Side :: u8
  o_Owner :: string
  o_LocationID :: u32
  o_ItemID :: u32
  o_Price :: int
  o_Quantity :: int
  o_OrigQty :: int
  o_CreatedAt :: int
  o_ExpiresAt :: int

definition SideSell :: u8 where "SideSell = 1"

definition SideBuy :: u8 where "SideBuy = 2"

type_synonym heap = "ptr \<Rightarrow> order"

record order_book =
  Sells :: "ptr list"
  Buys :: "ptr list"

definition empty_book :: order_book where
  "empty_book = \<lparr>Sells = [], Buys = []\<rparr>"

record price_level =
  pl_Price :: int
  pl_Quantity :: int
  pl_Count :: int

section \<open>Operations\<close>

text \<open>The predicates \<open>InsertSell\<close> and \<open>InsertBuy\<close> give to \<open>sort.Search\<close>.\<close>

definition sell_after :: "order \<Rightarrow> order \<Rightarrow> bool" where
  "sell_after o' x =
     (if o_Price x = o_Price o' then o_CreatedAt x > o_CreatedAt o' else o_Price x > o_Price o')"

definition buy_after :: "order \<Rightarrow> order \<Rightarrow> bool" where
  "buy_after o' x =
     (if o_Price x = o_Price o' then o_CreatedAt x > o_CreatedAt o' else o_Price x < o_Price o')"

definition InsertSell :: "heap \<Rightarrow> ptr \<Rightarrow> order_book \<Rightarrow> order_book" where
  "InsertSell h p ob =
     (let i = sort_search (length (Sells ob)) (\<lambda>i. sell_after (h p) (h (Sells ob ! i)))
      in ob\<lparr>Sells := insert_at i p (Sells ob)\<rparr>)"

definition InsertBuy :: "heap \<Rightarrow> ptr \<Rightarrow> order_book \<Rightarrow> order_book" where
  "InsertBuy h p ob =
     (let i = sort_search (length (Buys ob)) (\<lambda>i. buy_after (h p) (h (Buys ob ! i)))
      in ob\<lparr>Buys := insert_at i p (Buys ob)\<rparr>)"

text \<open>The two loops of \<open>RemoveOrder\<close>: drop the first pointer whose order has the id.\<close>

fun remove_first :: "heap \<Rightarrow> u64 \<Rightarrow> ptr list \<Rightarrow> (ptr list \<times> ptr) option" where
  "remove_first h oid [] = None"
| "remove_first h oid (p # ps) =
     (if o_ID (h p) = oid then Some (ps, p)
      else (case remove_first h oid ps of
              None \<Rightarrow> None
            | Some (qs, q) \<Rightarrow> Some (p # qs, q)))"

definition RemoveOrder :: "heap \<Rightarrow> u64 \<Rightarrow> order_book \<Rightarrow> order_book \<times> ptr option" where
  "RemoveOrder h oid ob =
     (case remove_first h oid (Sells ob) of
        Some (ps, p) \<Rightarrow> (ob\<lparr>Sells := ps\<rparr>, Some p)
      | None \<Rightarrow>
          (case remove_first h oid (Buys ob) of
             Some (ps, p) \<Rightarrow> (ob\<lparr>Buys := ps\<rparr>, Some p)
           | None \<Rightarrow> (ob, None)))"

text \<open>
  \<open>aggregateLevels\<close>: a running level is closed when the price changes; the loop returns as
  soon as \<open>maxLevels\<close> levels are closed.
\<close>

fun aggregate_loop :: "int \<Rightarrow> price_level list \<Rightarrow> price_level \<Rightarrow> order list \<Rightarrow> price_level list" where
  "aggregate_loop maxLevels levels cur [] = levels @ [cur]"
| "aggregate_loop maxLevels levels cur (x # xs) =
     (if o_Price x \<noteq> pl_Price cur then
        (let levels' = levels @ [cur] in
         if maxLevels > 0 \<and> int (length levels') \<ge> maxLevels then levels'
         else aggregate_loop maxLevels levels'
                \<lparr>pl_Price = o_Price x, pl_Quantity = wrap32 (0 + o_Quantity x), pl_Count = 1\<rparr> xs)
      else aggregate_loop maxLevels levels
             (cur\<lparr>pl_Quantity := wrap32 (pl_Quantity cur + o_Quantity x),
                 pl_Count := pl_Count cur + 1\<rparr>) xs)"

definition aggregateLevels :: "order list \<Rightarrow> int \<Rightarrow> price_level list" where
  "aggregateLevels orders maxLevels =
     (case orders of
        [] \<Rightarrow> []
      | x # _ \<Rightarrow> aggregate_loop maxLevels []
                  \<lparr>pl_Price = o_Price x, pl_Quantity = 0, pl_Count = 0\<rparr> orders)"

definition AggregateSells :: "heap \<Rightarrow> order_book \<Rightarrow> int \<Rightarrow> price_level list" where
  "AggregateSells h ob maxLevels = aggregateLevels (map h (Sells ob)) maxLevels"

definition AggregateBuys :: "heap \<Rightarrow> order_book \<Rightarrow> int \<Rightarrow> price_level list" where
  "AggregateBuys h ob maxLevels = aggregateLevels (map h (Buys ob)) maxLevels"

section \<open>Price-time order\<close>

definition sell_le :: "order \<Rightarrow> order \<Rightarrow> bool" where
  "sell_le x y \<longleftrightarrow> o_Price x < o_Price y \<or> o_Price x = o_Price y \<and> o_CreatedAt x \<le> o_CreatedAt y"

definition buy_le :: "order \<Rightarrow> order \<Rightarrow> bool" where
  "buy_le x y \<longleftrightarrow> o_Price x > o_Price y \<or> o_Price x = o_Price y \<and> o_CreatedAt x \<le> o_CreatedAt y"

text \<open>
  What both sides of a book rely on: an order relation and the search predicate that is its
  strict part. Insertion at the searched index keeps the side sorted and puts the new order
  behind every order that ranks equal.
\<close>

locale priority_side =
  fixes le :: "order \<Rightarrow> order \<Rightarrow> bool"
    and after :: "order \<Rightarrow> order \<Rightarrow> bool"
  assumes le_trans: "le x y \<Longrightarrow> le y z \<Longrightarrow> le x z"
    and after_iff: "after x y \<longleftrightarrow> \<not> le y x"
    and le_total: "le x y \<or> le y x"
begin

lemma after_upward:
  assumes "sorted_wrt le xs"
  shows "upward_closed (length xs) (\<lambda>i. after x (xs ! i))"
  unfolding upward_closed_def
proof (intro allI impI)
  fix a b assume ab: "a \<le> b \<and> b < length xs \<and> after x (xs ! a)"
  have "a = b \<or> le (xs ! a) (xs ! b)"
    using assms ab by (auto simp: sorted_wrt_iff_nth_less order_le_less)
  then show "after x (xs ! b)"
    using ab le_trans [of "xs ! a" "xs ! b" x] by (auto simp: after_iff)
qed

lemma insert_sorted:
  assumes "sorted_wrt le xs" and i_def: "i = sort_search (length xs) (\<lambda>i. after x (xs ! i))"
  shows "sorted_wrt le (insert_at i x xs)"
    and "\<forall>y \<in> set (take i xs). le y x" and "\<forall>y \<in> set (drop i xs). \<not> le y x"
proof -
  have sp: "splits_range (length xs) (\<lambda>i. after x (xs ! i)) i"
    unfolding i_def by (rule sort_search_spec [OF after_upward [OF assms(1)]])
  show t: "\<forall>y \<in> set (take i xs). le y x"
    using sp by (auto simp: splits_range_def after_iff in_set_conv_nth)
  show d: "\<forall>y \<in> set (drop i xs). \<not> le y x"
  proof
    fix y assume "y \<in> set (drop i xs)"
    then obtain k where "k < length xs - i" "y = xs ! (i + k)"
      by (auto simp: in_set_conv_nth)
    with sp show "\<not> le y x" by (auto simp: splits_range_def after_iff)
  qed
  have "\<forall>y \<in> set (drop i xs). le x y" using d le_total by blast
  moreover have "sorted_wrt le (take i xs @ drop i xs)" using assms(1) by simp
  ultimately show "sorted_wrt le (insert_at i x xs)"
    using t unfolding insert_at_def sorted_wrt_append by auto
qed

lemma insert_ptr:
  assumes "sorted_wrt le (map h ps)" and "i = sort_search (length ps) (\<lambda>i. after (h p) (h (ps ! i)))"
  obtains xs ys where "ps = xs @ ys" and "insert_at i p ps = xs @ p # ys"
    and "\<forall>x \<in> set xs. le (h x) (h p)" and "\<forall>y \<in> set ys. \<not> le (h y) (h p)"
    and "sorted_wrt le (map h (xs @ p # ys))"
proof
  have i: "i = sort_search (length (map h ps)) (\<lambda>i. after (h p) (map h ps ! i))"
    unfolding assms(2) length_map by (rule sort_search_cong) simp
  note ins = insert_sorted [OF assms(1) i]
  show "ps = take i ps @ drop i ps" and "insert_at i p ps = take i ps @ p # drop i ps"
    by (simp_all add: insert_at_def)
  show "\<forall>x \<in> set (take i ps). le (h x) (h p)" using ins(2) by (simp add: take_map)
  show "\<forall>y \<in> set (drop i ps). \<not> le (h y) (h p)" using ins(3) by (simp add: drop_map)
  show "sorted_wrt le (map h (take i ps @ p # drop i ps))"
    using ins(1) by (simp add: insert_at_def take_map drop_map)
qed

end

interpretation sells: priority_side sell_le sell_after
  by unfold_locales (auto simp: sell_le_def sell_after_def)

interpretation buys: priority_side buy_le buy_after
  by unfold_locales (auto simp: buy_le_def buy_after_def)

definition book_sorted :: "heap \<Rightarrow> order_book \<Rightarrow> bool" where
  "book_sorted h ob \<longleftrightarrow> sorted_wrt sell_le (map h (Sells ob)) \<and> sorted_wrt buy_le (map h (Buys ob))"

section \<open>Insertion and removal\<close>

lemma insert_sell_splits:
  assumes "sorted_wrt sell_le (map h (Sells ob))"
  obtains xs ys where "Sells ob = xs @ ys" and "InsertSell h p ob = ob\<lparr>Sells := xs @ p # ys\<rparr>"
    and "\<forall>x \<in> set xs. sell_le (h x) (h p)" and "\<forall>y \<in> set ys. \<not> sell_le (h y) (h p)"
    and "sorted_wrt sell_le (map h (xs @ p # ys))"
  by (rule sells.insert_ptr [OF assms refl, of p]) (simp add: InsertSell_def Let_def that)

lemma insert_buy_splits:
  assumes "sorted_wrt buy_le (map h (Buys ob))"
  obtains xs ys where "Buys ob = xs @ ys" and "InsertBuy h p ob = ob\<lparr>Buys := xs @ p # ys\<rparr>"
    and "\<forall>x \<in> set xs. buy_le (h x) (h p)" and "\<forall>y \<in> set ys. \<not> buy_le (h y) (h p)"
    and "sorted_wrt buy_le (map h (xs @ p # ys))"
  by (rule buys.insert_ptr [OF assms refl, of p]) (simp add: InsertBuy_def Let_def that)

lemma remove_first_None: "remove_first h oid ps = None \<longleftrightarrow> (\<forall>p \<in> set ps. o_ID (h p) \<noteq> oid)"
  by (induction ps) (auto split: option.splits)

lemma remove_first_Some:
  "remove_first h oid ps = Some (qs, p) \<Longrightarrow>
    \<exists>xs ys. ps = xs @ p # ys \<and> qs = xs @ ys \<and> o_ID (h p) = oid \<and> (\<forall>x \<in> set xs. o_ID (h x) \<noteq> oid)"
proof (induction ps arbitrary: qs)
  case (Cons q ps)
  show ?case
  proof (cases "o_ID (h q) = oid")
    case True
    then show ?thesis using Cons.prems by (intro exI [of _ "[]"] exI [of _ ps]) auto
  next
    case False
    then obtain qs' where r: "remove_first h oid ps = Some (qs', p)" "qs = q # qs'"
      using Cons.prems by (auto split: option.splits)
    from Cons.IH [OF r(1)] obtain xs ys where
      "ps = xs @ p # ys" "qs' = xs @ ys" "o_ID (h p) = oid" "\<forall>x \<in> set xs. o_ID (h x) \<noteq> oid" by blast
    with False r(2) show ?thesis by (intro exI [of _ "q # xs"] exI [of _ ys]) auto
  qed
qed simp

text \<open>
  Where an inserted order goes: behind every order that ranks at least as well, before all
  others.
\<close>

definition placed :: "(order \<Rightarrow> order \<Rightarrow> bool) \<Rightarrow> heap \<Rightarrow> ptr \<Rightarrow> ptr list \<Rightarrow> ptr list \<Rightarrow> bool" where
  "placed le h p old new \<longleftrightarrow>
     (\<exists>xs ys. old = xs @ ys \<and> new = xs @ p # ys \<and>
        (\<forall>x \<in> set xs. le (h x) (h p)) \<and> (\<forall>y \<in> set ys. \<not> le (h y) (h p)))"

text \<open>
  C24. Inserting an order keeps both sides of the book in price-time priority, and puts
  the order behind every resting order of the same or a better rank and before every
  other one, so orders of equal price and time are served first come, first served; the
  opposite side is untouched.
\<close>

theorem insert_price_time_priority:
  assumes "book_sorted h ob"
  shows "placed sell_le h p (Sells ob) (Sells (InsertSell h p ob)) \<and> Buys (InsertSell h p ob) = Buys ob \<and>
    book_sorted h (InsertSell h p ob) \<and>
    placed buy_le h p (Buys ob) (Buys (InsertBuy h p ob)) \<and> Sells (InsertBuy h p ob) = Sells ob \<and>
    book_sorted h (InsertBuy h p ob)"
proof -
  have s: "sorted_wrt sell_le (map h (Sells ob))" "sorted_wrt buy_le (map h (Buys ob))"
    using assms by (simp_all add: book_sorted_def)
  have "placed sell_le h p (Sells ob) (Sells (InsertSell h p ob)) \<and> Buys (InsertSell h p ob) = Buys ob \<and>
      book_sorted h (InsertSell h p ob)"
    by (rule insert_sell_splits [OF s(1), of p]) (use s(2) in \<open>auto simp: placed_def book_sorted_def\<close>)
  moreover have "placed buy_le h p (Buys ob) (Buys (InsertBuy h p ob)) \<and> Sells (InsertBuy h p ob) = Sells ob \<and>
      book_sorted h (InsertBuy h p ob)"
    by (rule insert_buy_splits [OF s(2), of p]) (use s(1) in \<open>auto simp: placed_def book_sorted_def\<close>)
  ultimately show ?thesis by blast
qed

section \<open>Price levels\<close>

text \<open>
  What the level view means: one level per price of the side, in the side's order, with the
  total quantity and the number of the orders at that price.
\<close>

definition level_at :: "order list \<Rightarrow> int \<Rightarrow> price_level" where
  "level_at xs c =
     \<lparr>pl_Price = c, pl_Quantity = (\<Sum>x \<leftarrow> filter (\<lambda>x. o_Price x = c) xs. o_Quantity x),
      pl_Count = int (length (filter (\<lambda>x. o_Price x = c) xs))\<rparr>"

definition levels_spec :: "order list \<Rightarrow> price_level list" where
  "levels_spec xs = map (level_at xs) (remdups_adj (map o_Price xs))"

definition cut_levels :: "int \<Rightarrow> 'a list \<Rightarrow> 'a list" where
  "cut_levels maxLevels xs = (if maxLevels > 0 then take (nat maxLevels) xs else xs)"

text \<open>The levels the loop would close without a bound, from the running level on.\<close>

fun groups :: "price_level \<Rightarrow> order list \<Rightarrow> price_level list" where
  "groups cur [] = [cur]"
| "groups cur (x # xs) =
     (if o_Price x \<noteq> pl_Price cur
      then cur # groups \<lparr>pl_Price = o_Price x, pl_Quantity = wrap32 (0 + o_Quantity x), pl_Count = 1\<rparr> xs
      else groups (cur\<lparr>pl_Quantity := wrap32 (pl_Quantity cur + o_Quantity x), pl_Count := pl_Count cur + 1\<rparr>) xs)"

lemma aggregate_loop_groups:
  "maxLevels > 0 \<longrightarrow> int (length levels) < maxLevels \<Longrightarrow>
    aggregate_loop maxLevels levels cur xs = cut_levels maxLevels (levels @ groups cur xs)"
proof (induction maxLevels levels cur xs rule: aggregate_loop.induct)
  case (1 maxLevels levels cur)
  then show ?case by (auto simp: cut_levels_def)
next
  case (2 maxLevels levels cur x xs)
  have "nat maxLevels - length levels = 1" if "maxLevels \<le> 1 + int (length levels)" "int (length levels) < maxLevels"
    using that by linarith
  with 2 show ?case by (auto simp: Let_def cut_levels_def)
qed

text \<open>Adding a running level to the level of its price.\<close>

definition plus_level :: "price_level \<Rightarrow> price_level \<Rightarrow> price_level" where
  "plus_level cur l =
     (if pl_Price l = pl_Price cur
      then l\<lparr>pl_Quantity := pl_Quantity cur + pl_Quantity l, pl_Count := pl_Count cur + pl_Count l\<rparr> else l)"

lemma level_at_Cons:
  "level_at (x # xs) c =
    (if o_Price x = c
     then (level_at xs c)\<lparr>pl_Quantity := o_Quantity x + pl_Quantity (level_at xs c), pl_Count := pl_Count (level_at xs c) + 1\<rparr>
     else level_at xs c)"
  by (simp add: level_at_def)

lemma groups_levels:
  assumes "sorted_wrt R (pl_Price cur # map o_Price xs)" and "\<And>a b. R a b \<Longrightarrow> R b a \<Longrightarrow> a = b"
    and "0 \<le> pl_Quantity cur" and "\<forall>x \<in> set xs. 0 \<le> o_Quantity x"
    and "in_i32 (pl_Quantity cur + (\<Sum>x \<leftarrow> xs. o_Quantity x))"
  shows "groups cur xs = map (\<lambda>c. plus_level cur (level_at xs c)) (remdups_adj (pl_Price cur # map o_Price xs))"
  using assms
proof (induction xs arbitrary: cur)
  case Nil
  then show ?case by (simp add: plus_level_def level_at_def)
next
  case (Cons x xs)
  have sum: "0 \<le> (\<Sum>x \<leftarrow> xs. o_Quantity x)" using Cons.prems(4) by (intro sum_list_nonneg) auto
  have q: "0 \<le> o_Quantity x" using Cons.prems(4) by simp
  show ?case
  proof (cases "o_Price x = pl_Price cur")
    case True
    let ?cur = "cur\<lparr>pl_Quantity := pl_Quantity cur + o_Quantity x, pl_Count := pl_Count cur + 1\<rparr>"
    have w: "wrap32 (pl_Quantity cur + o_Quantity x) = pl_Quantity cur + o_Quantity x"
      using Cons.prems(3,5) sum q by (auto simp: in_i32_def intro: wrap32_nonneg)
    have "groups ?cur xs = map (\<lambda>c. plus_level ?cur (level_at xs c)) (remdups_adj (pl_Price ?cur # map o_Price xs))"
      using Cons.prems True q by (intro Cons.IH) (simp_all add: add.assoc)
    moreover have "plus_level ?cur (level_at xs c) = plus_level cur (level_at (x # xs) c)" for c
      using True by (simp add: plus_level_def level_at_def)
    ultimately show ?thesis using True w by simp
  next
    case False
    let ?cur = "\<lparr>pl_Price = o_Price x, pl_Quantity = o_Quantity x, pl_Count = 1\<rparr>"
    have w: "wrap32 (o_Quantity x) = o_Quantity x"
      using Cons.prems(3,5) sum q by (auto simp: in_i32_def intro: wrap32_nonneg)
    have "in_i32 (o_Quantity x + (\<Sum>x \<leftarrow> xs. o_Quantity x))"
      using Cons.prems(3,5) sum q by (auto simp: in_i32_def)
    then have IH: "groups ?cur xs = map (\<lambda>c. plus_level ?cur (level_at xs c)) (remdups_adj (o_Price x # map o_Price xs))"
      using Cons.IH [of ?cur] Cons.prems q by simp
    have notin: "pl_Price cur \<notin> set (o_Price x # map o_Price xs)"
      using Cons.prems(1,2) False by auto
    then have "plus_level ?cur (level_at xs c) = plus_level cur (level_at (x # xs) c)"
      if "c \<in> set (remdups_adj (o_Price x # map o_Price xs))" for c
      using that by (auto simp: plus_level_def level_at_def)
    moreover have "plus_level cur (level_at (x # xs) (pl_Price cur)) = cur"
    proof -
      have "filter (\<lambda>y. o_Price y = pl_Price cur) (x # xs) = []" using notin by (auto simp: filter_empty_conv) (metis imageI)
      then show ?thesis by (simp add: plus_level_def level_at_def)
    qed
    ultimately show ?thesis using False w IH by simp
  qed
qed

lemma aggregateLevels_spec:
  assumes "sorted_wrt R (map o_Price xs)" and "\<And>a b. R a b \<Longrightarrow> R b a \<Longrightarrow> a = b" and "\<And>a. R a a"
    and "\<forall>x \<in> set xs. 0 \<le> o_Quantity x" and "in_i32 (\<Sum>x \<leftarrow> xs. o_Quantity x)"
  shows "aggregateLevels xs maxLevels = cut_levels maxLevels (levels_spec xs)"
proof (cases xs)
  case Nil
  then show ?thesis by (simp add: aggregateLevels_def cut_levels_def levels_spec_def)
next
  case (Cons x ys)
  let ?cur = "\<lparr>pl_Price = o_Price x, pl_Quantity = 0, pl_Count = 0\<rparr>"
  have "groups ?cur xs = map (\<lambda>c. plus_level ?cur (level_at xs c)) (remdups_adj (pl_Price ?cur # map o_Price xs))"
    using assms Cons by (intro groups_levels [of R]) auto
  moreover have "plus_level ?cur (level_at xs c) = level_at xs c" for c
    by (simp add: plus_level_def level_at_def)
  ultimately have "groups ?cur xs = levels_spec xs" using Cons by (simp add: levels_spec_def)
  then show ?thesis using Cons by (simp add: aggregateLevels_def aggregate_loop_groups)
qed

text \<open>
  The aggregated views of a sorted book are exactly its price levels, best price first: one
  level per distinct price, with the total quantity and the count of the orders at it,
  cut to \<open>maxLevels\<close> levels when the bound is positive; as long as the quantity of a side
  fits an \<open>int32\<close>.
\<close>

theorem aggregate_views_are_price_levels:
  assumes "book_sorted h ob"
    and "\<forall>p \<in> set (Sells ob) \<union> set (Buys ob). 0 \<le> o_Quantity (h p)"
    and "in_i32 (\<Sum>p \<leftarrow> Sells ob. o_Quantity (h p))" and "in_i32 (\<Sum>p \<leftarrow> Buys ob. o_Quantity (h p))"
  shows "AggregateSells h ob maxLevels = cut_levels maxLevels (levels_spec (map h (Sells ob))) \<and>
    AggregateBuys h ob maxLevels = cut_levels maxLevels (levels_spec (map h (Buys ob)))"
proof
  have "sorted_wrt (\<le>) (map o_Price (map h (Sells ob)))"
    unfolding sorted_wrt_map using assms(1)
    by (auto simp: book_sorted_def sorted_wrt_map sell_le_def elim!: sorted_wrt_mono_rel [rotated])
  then show "AggregateSells h ob maxLevels = cut_levels maxLevels (levels_spec (map h (Sells ob)))"
    unfolding AggregateSells_def using assms(2,3)
    by (intro aggregateLevels_spec [of "(\<le>)"]) (auto simp: comp_def)
  have "sorted_wrt (\<ge>) (map o_Price (map h (Buys ob)))"
    unfolding sorted_wrt_map using assms(1)
    by (auto simp: book_sorted_def sorted_wrt_map buy_le_def elim!: sorted_wrt_mono_rel [rotated])
  then show "AggregateBuys h ob maxLevels = cut_levels maxLevels (levels_spec (map h (Buys ob)))"
    unfolding AggregateBuys_def using assms(2,4)
    by (intro aggregateLevels_spec [of "(\<ge>)"]) (auto simp: comp_def)
qed

section \<open>A concrete book\<close>

text \<open>Two sells at 10 and one at 12, two buys; pointer 5 is an order not yet in the book.\<close>

definition demo_order :: "u64 \<Rightarrow> u8 \<Rightarrow> int \<Rightarrow> int \<Rightarrow> int \<Rightarrow> order" where
  "demo_order i sd price qty created =
     \<lparr>o_ID = i, o_Side = sd, o_Owner = ''ann'', o_LocationID = 7, o_ItemID = 3, o_Price = price,
      o_Quantity = qty, o_OrigQty = qty, o_CreatedAt = created, o_ExpiresAt = 1000\<rparr>"

definition demo_heap :: heap where
  "demo_heap = (\<lambda>_. demo_order 0 0 0 0 0)
     (0 := demo_order 1 SideSell 10 5 100, 1 := demo_order 2 SideSell 10 4 101,
      2 := demo_order 3 SideSell 12 8 90, 3 := demo_order 4 SideBuy 9 6 100,
      4 := demo_order 5 SideBuy 8 2 100, 5 := demo_order 6 SideSell 10 1 101)"

definition demo_book :: order_book where
  "demo_book = \<lparr>Sells = [0, 1, 2], Buys = [3, 4]\<rparr>"

lemma demo_sorted: "book_sorted demo_heap demo_book"
  by (simp add: book_sorted_def demo_book_def demo_heap_def demo_order_def sell_le_def buy_le_def)

theorem insert_price_time_priority_witness:
  "book_sorted demo_heap demo_book \<and> Sells (InsertSell demo_heap 5 demo_book) = [0, 1, 5, 2] \<and>
    placed sell_le demo_heap 5 (Sells demo_book) (Sells (InsertSell demo_heap 5 demo_book))"
  using insert_price_time_priority [OF demo_sorted, of 5] demo_sorted
  by (simp add: InsertSell_def demo_book_def demo_heap_def demo_order_def sell_after_def
      sort_search_def sort_search_from.simps insert_at_def)

theorem aggregate_views_witness:
  "AggregateSells demo_heap demo_book 1 = [\<lparr>pl_Price = 10, pl_Quantity = 9, pl_Count = 2\<rparr>]"
proof -
  have "AggregateSells demo_heap demo_book 1 = cut_levels 1 (levels_spec (map demo_heap (Sells demo_book)))"
    using aggregate_views_are_price_levels [OF demo_sorted, of 1]
    by (simp add: demo_book_def demo_heap_def demo_order_def in_i32_def)
  then show ?thesis
    by (simp add: cut_levels_def levels_spec_def level_at_def demo_book_def demo_heap_def demo_order_def)
qed

end
