(* ===== verification/OrderMatching.thy ===== *)
theory OrderMatching
  imports OrderBook "HOL-Library.AList"
begin

text \<open>
  The matching loops of \<open>pkg/orderbook/service.go\<close>. An incoming order walks one side of a book
  from its best price, fills against each resting order through the shared pointer, and
  deletes consumed orders from the side and from the service's index while it iterates.
  Below the loops they are shown equal to a fill on plain lists of orders that
  has no index, pointer or deletion.
\<close>

section \<open>Events\<close>

record match_event =
  m_BuyOrderID :: u64
  m_SellOrderID :: u64
  m_BuyerID :: string
  m_SellerID :: string
  m_ItemID :: u32
  m_LocationID :: u32
  m_Quantity :: int
  m_Price :: int

section \<open>Matching loops\<close>

text \<open>
  The part of the state a matching loop changes: the side being walked, the index, the heap,
  the unfilled quantity, the events so far.
\<close>

record match_state =
  ms_side :: "ptr list"
  ms_orders :: "(u64 \<times> ptr) list"
  ms_heap :: heap
  ms_remaining :: int
  ms_matches :: "match_event list"

text \<open>
  One fill of \<open>q\<close> units against the order at index \<open>i\<close>: the shared order's quantity drops; a
  consumed order leaves the index and the side, otherwise the loop index moves on.
\<close>

definition fill_at :: "nat \<Rightarrow> int \<Rightarrow> match_event \<Rightarrow> match_state \<Rightarrow> nat \<times> match_state" where
  "fill_at i q ev st =
     (let p = ms_side st ! i;
          r = ms_heap st p;
          r' = r\<lparr>o_Quantity := wrap32 (o_Quantity r - q)\<rparr>;
          st' = st\<lparr>ms_matches := ms_matches st @ [ev],
                   ms_heap := (ms_heap st)(p := r'),
                   ms_remaining := wrap32 (ms_remaining st - q)\<rparr>
      in if o_Quantity r' \<le> 0
         then (i, st'\<lparr>ms_orders := AList.delete (o_ID r) (ms_orders st),
                      ms_side := remove_at i (ms_side st)\<rparr>)
         else (i + 1, st'))"

lemma fill_at_measure:
  "i < length (ms_side st) \<Longrightarrow> fill_at i q ev st = (j, st') \<Longrightarrow>
    length (ms_side st') - j < length (ms_side st) - i"
  by (auto simp: fill_at_def Let_def length_remove_at split: if_splits)

definition trade_qty :: "int \<Rightarrow> order \<Rightarrow> int" where
  "trade_qty remaining r = (if remaining > o_Quantity r then o_Quantity r else remaining)"

definition sell_event :: "string \<Rightarrow> u32 \<Rightarrow> u32 \<Rightarrow> int \<Rightarrow> order \<Rightarrow> match_event" where
  "sell_event seller loc item q buy =
     \<lparr>m_BuyOrderID = o_ID buy, m_SellOrderID = 0, m_BuyerID = o_Owner buy, m_SellerID = seller,
      m_ItemID = item, m_LocationID = loc, m_Quantity = q, m_Price = o_Price buy\<rparr>"

definition buy_event :: "string \<Rightarrow> u32 \<Rightarrow> u32 \<Rightarrow> int \<Rightarrow> order \<Rightarrow> match_event" where
  "buy_event buyer loc item q sell =
     \<lparr>m_BuyOrderID = 0, m_SellOrderID = o_ID sell, m_BuyerID = buyer, m_SellerID = o_Owner sell,
      m_ItemID = item, m_LocationID = loc, m_Quantity = q, m_Price = o_Price sell\<rparr>"

text \<open>
  The loop of \<open>PlaceSellOrder\<close> (\<open>stop\<close> is the price test that breaks) and of \<open>InstantSell\<close>
  (no price test), and their mirror images on the sell side: \<open>ev\<close> builds the event.
\<close>

function match_loop ::
  "(order \<Rightarrow> bool) \<Rightarrow> (int \<Rightarrow> order \<Rightarrow> match_event) \<Rightarrow> nat \<Rightarrow> match_state \<Rightarrow> match_state" where
  "match_loop stop ev i st =
     (if i < length (ms_side st) \<and> ms_remaining st > 0 then
        (let r = ms_heap st (ms_side st ! i) in
         if stop r then st
         else (case fill_at i (trade_qty (ms_remaining st) r) (ev (trade_qty (ms_remaining st) r) r) st of
                 (j, st') \<Rightarrow> match_loop stop ev j st'))
      else st)"
  by pat_completeness auto
termination
  by (relation "measure (\<lambda>(stop, ev, i, st). length (ms_side st) - i)")
    (auto dest: fill_at_measure [OF _ sym] split: prod.splits)

declare match_loop.simps [simp del]

text \<open>
  The loop of \<open>InstantBuy\<close>. With a positive budget a fill that would pass it is cut down to
  \<open>int32(affordable / sell.Price)\<close> units, and a fill of no units breaks; the division panics
  on a zero price. The flag says that it panicked; the fills made before stand.
\<close>

datatype budget_step = Stop | Panic | Trade int int

definition budget_cut :: "int \<Rightarrow> int \<Rightarrow> int \<Rightarrow> int \<Rightarrow> budget_step" where
  "budget_cut maxCost totalCost price q =
     (if maxCost > 0 then
        (let tradeCost = wrap64 (price * q) in
         if wrap64 (totalCost + tradeCost) > maxCost then
           (let affordable = wrap64 (maxCost - totalCost) in
            if affordable \<le> 0 then Stop
            else if price = 0 then Panic
            else (let q' = wrap32 (go_div affordable price) in
                  if q' \<le> 0 then Stop
                  else Trade q' (wrap64 (totalCost + wrap64 (price * q')))))
         else Trade q (wrap64 (totalCost + tradeCost)))
      else Trade q totalCost)"

function budget_loop ::
  "int \<Rightarrow> (int \<Rightarrow> order \<Rightarrow> match_event) \<Rightarrow> nat \<Rightarrow> int \<Rightarrow> match_state \<Rightarrow> match_state \<times> bool" where
  "budget_loop maxCost ev i totalCost st =
     (if i < length (ms_side st) \<and> ms_remaining st > 0 then
        (let r = ms_heap st (ms_side st ! i) in
         case budget_cut maxCost totalCost (o_Price r) (trade_qty (ms_remaining st) r) of
           Stop \<Rightarrow> (st, False)
         | Panic \<Rightarrow> (st, True)
         | Trade q totalCost' \<Rightarrow>
             (case fill_at i q (ev q r) st of
                (j, st') \<Rightarrow> budget_loop maxCost ev j totalCost' st'))
      else (st, False))"
  by pat_completeness auto
termination
  by (relation "measure (\<lambda>(maxCost, ev, i, totalCost, st). length (ms_side st) - i)")
    (auto dest: fill_at_measure [OF _ sym])

declare budget_loop.simps [simp del]

section \<open>The fill the loops implement\<close>

text \<open>
  Filling \<open>n\<close> units against a list of orders: whole orders from the front, then a part of the
  next one. The result is what is left of the side, what is left of \<open>n\<close>, and the fills.
\<close>

fun fill :: "(order \<Rightarrow> bool) \<Rightarrow> int \<Rightarrow> order list \<Rightarrow> order list \<times> int \<times> (int \<times> order) list" where
  "fill stop n [] = ([], n, [])"
| "fill stop n (x # xs) =
     (if n \<le> 0 \<or> stop x then (x # xs, n, [])
      else if o_Quantity x \<le> n then
        (let (ys, m, fs) = fill stop (n - o_Quantity x) xs in (ys, m, (o_Quantity x, x) # fs))
      else (x\<lparr>o_Quantity := o_Quantity x - n\<rparr> # xs, 0, [(n, x)]))"

text \<open>A side the loops may walk: distinct pointers to orders of positive \<open>int32\<close> quantity.\<close>

definition live :: "heap \<Rightarrow> ptr list \<Rightarrow> bool" where
  "live h ps \<longleftrightarrow> distinct ps \<and> (\<forall>p \<in> set ps. 0 < o_Quantity (h p) \<and> in_i32 (o_Quantity (h p)))"

definition total_qty :: "order list \<Rightarrow> int" where
  "total_qty xs = (\<Sum>x \<leftarrow> xs. o_Quantity x)"

definition consume :: "(int \<Rightarrow> order \<Rightarrow> match_event) \<Rightarrow> match_state \<Rightarrow> match_state" where
  "consume ev st =
     (let p = hd (ms_side st); r = ms_heap st p in
      st\<lparr>ms_side := tl (ms_side st), ms_orders := AList.delete (o_ID r) (ms_orders st),
         ms_heap := (ms_heap st)(p := r\<lparr>o_Quantity := 0\<rparr>),
         ms_remaining := ms_remaining st - o_Quantity r,
         ms_matches := ms_matches st @ [ev (o_Quantity r) r]\<rparr>)"

definition part_fill :: "(int \<Rightarrow> order \<Rightarrow> match_event) \<Rightarrow> int \<Rightarrow> match_state \<Rightarrow> match_state" where
  "part_fill ev q st =
     (let p = hd (ms_side st); r = ms_heap st p in
      st\<lparr>ms_heap := (ms_heap st)(p := r\<lparr>o_Quantity := o_Quantity r - q\<rparr>),
         ms_remaining := ms_remaining st - q,
         ms_matches := ms_matches st @ [ev q r]\<rparr>)"

lemma live_tl: "live h (p # ps) \<Longrightarrow> live (h(p := x)) ps"
  by (auto simp: live_def)

lemma live_qty: "live h (p # ps) \<Longrightarrow> 0 < o_Quantity (h p) \<and> in_i32 (o_Quantity (h p))"
  by (simp add: live_def)

lemma map_heap_tl: "live h (p # ps) \<Longrightarrow> map (h(p := x)) ps = map h ps"
  by (auto simp: live_def)

lemma fill_at_whole:
  assumes "ms_side st = p # ps" and "0 < o_Quantity (ms_heap st p)"
    and "o_Quantity (ms_heap st p) \<le> ms_remaining st" and "in_i32 (ms_remaining st)"
  shows "fill_at 0 (o_Quantity (ms_heap st p)) (ev (o_Quantity (ms_heap st p)) (ms_heap st p)) st
    = (0, consume ev st)"
proof -
  have "in_i32 (ms_remaining st - o_Quantity (ms_heap st p))"
    using assms by (auto simp: in_i32_def)
  then show ?thesis
    using assms by (simp add: fill_at_def consume_def Let_def remove_at_0 wrap32_id)
qed

lemma fill_at_part:
  assumes "ms_side st = p # ps" and "in_i32 (o_Quantity (ms_heap st p))"
    and "0 < q" and "q < o_Quantity (ms_heap st p)" and "q \<le> ms_remaining st" and "in_i32 (ms_remaining st)"
  shows "fill_at 0 q (ev q (ms_heap st p)) st = (1, part_fill ev q st)"
proof -
  have "in_i32 (ms_remaining st - q)" and "in_i32 (o_Quantity (ms_heap st p) - q)"
    using assms by (auto simp: in_i32_def)
  then show ?thesis
    using assms by (simp add: fill_at_def part_fill_def Let_def wrap32_id)
qed

lemma match_loop_halt:
  "ms_side st = [] \<or> ms_remaining st \<le> 0 \<or> stop (ms_heap st (hd (ms_side st))) \<Longrightarrow>
    match_loop stop ev 0 st = st"
  by (subst match_loop.simps) (auto simp: Let_def hd_conv_nth)

lemma match_loop_done: "ms_remaining st \<le> 0 \<Longrightarrow> match_loop stop ev i st = st"
  by (subst match_loop.simps) auto

lemma match_loop_whole:
  assumes "ms_side st = p # ps" and "live (ms_heap st) (ms_side st)"
    and "o_Quantity (ms_heap st p) \<le> ms_remaining st" and "in_i32 (ms_remaining st)"
    and "\<not> stop (ms_heap st p)"
  shows "match_loop stop ev 0 st = match_loop stop ev 0 (consume ev st)"
proof -
  have pos: "0 < o_Quantity (ms_heap st p)" using live_qty assms(1,2) by metis
  have "trade_qty (ms_remaining st) (ms_heap st p) = o_Quantity (ms_heap st p)"
    using assms(3) by (simp add: trade_qty_def)
  then show ?thesis
    using assms pos fill_at_whole [OF assms(1) pos assms(3,4), of ev]
    by (subst match_loop.simps) (simp add: Let_def)
qed

lemma match_loop_part:
  assumes "ms_side st = p # ps" and "live (ms_heap st) (ms_side st)"
    and "ms_remaining st < o_Quantity (ms_heap st p)" and "0 < ms_remaining st" and "in_i32 (ms_remaining st)"
    and "\<not> stop (ms_heap st p)"
  shows "match_loop stop ev 0 st = part_fill ev (ms_remaining st) st"
proof -
  have "ms_remaining (part_fill ev (ms_remaining st) st) = 0"
    by (simp add: part_fill_def Let_def)
  then show ?thesis
    using assms live_qty [of "ms_heap st" p ps] fill_at_part [of st p ps "ms_remaining st" ev]
    by (subst match_loop.simps) (simp add: Let_def trade_qty_def match_loop_done)
qed

lemma consume_step:
  assumes "ms_side st = p # ps" and "live (ms_heap st) (ms_side st)"
  shows "ms_side (consume ev st) = ps" and "map (ms_heap (consume ev st)) ps = map (ms_heap st) ps"
    and "live (ms_heap (consume ev st)) ps"
    and "ms_remaining (consume ev st) = ms_remaining st - o_Quantity (ms_heap st p)"
    and "ms_matches (consume ev st) = ms_matches st @ [ev (o_Quantity (ms_heap st p)) (ms_heap st p)]"
  using assms by (auto simp: consume_def Let_def live_def)

lemma part_fill_step:
  assumes "ms_side st = p # ps" and "live (ms_heap st) (ms_side st)"
  shows "map (ms_heap (part_fill ev q st)) (ms_side (part_fill ev q st)) =
      (ms_heap st p)\<lparr>o_Quantity := o_Quantity (ms_heap st p) - q\<rparr> # map (ms_heap st) ps"
    and "ms_remaining (part_fill ev q st) = ms_remaining st - q"
    and "ms_matches (part_fill ev q st) = ms_matches st @ [ev q (ms_heap st p)]"
  using assms by (auto simp: part_fill_def Let_def live_def)

text \<open>The sell and buy loops compute exactly the fill, and report one event per fill.\<close>

lemma match_loop_fill:
  assumes "live (ms_heap st) (ms_side st)" and "0 \<le> ms_remaining st" and "in_i32 (ms_remaining st)"
    and "fill stop (ms_remaining st) (map (ms_heap st) (ms_side st)) = (ys, n, fs)"
    and "st' = match_loop stop ev 0 st"
  shows "map (ms_heap st') (ms_side st') = ys \<and> ms_remaining st' = n \<and>
    ms_matches st' = ms_matches st @ map (\<lambda>(q, r). ev q r) fs"
  using assms
proof (induction "ms_side st" arbitrary: st ys n fs st')
  case Nil
  then have "ms_side st = []" by simp
  with Nil show ?case by (simp add: match_loop_halt)
next
  case (Cons p ps)
  let ?r = "ms_heap st p"
  note side = Cons.hyps(2) [symmetric]
  consider (halt) "ms_remaining st \<le> 0 \<or> stop ?r"
    | (whole) "0 < ms_remaining st" "\<not> stop ?r" "o_Quantity ?r \<le> ms_remaining st"
    | (part) "0 < ms_remaining st" "\<not> stop ?r" "ms_remaining st < o_Quantity ?r"
    by linarith
  then show ?case
  proof cases
    case halt
    then have "st' = st" using Cons.prems(5) side by (simp add: match_loop_halt)
    with halt Cons.prems(4) show ?thesis by (auto simp: side)
  next
    case whole
    note c = consume_step [OF side Cons.prems(1), of ev]
    obtain zs m gs where f: "fill stop (ms_remaining st - o_Quantity ?r) (map (ms_heap st) ps) = (zs, m, gs)"
      by (metis prod_cases3)
    have "st' = match_loop stop ev 0 (consume ev st)"
      using match_loop_whole [where stop = stop, OF side Cons.prems(1) whole(3) Cons.prems(3) whole(2)]
        Cons.prems(5) by simp
    moreover have "0 \<le> ms_remaining (consume ev st)" and "in_i32 (ms_remaining (consume ev st))"
      using whole Cons.prems(1,3) by (auto simp: c side live_def in_i32_def)
    ultimately have "map (ms_heap st') (ms_side st') = zs \<and> ms_remaining st' = m \<and>
        ms_matches st' = ms_matches (consume ev st) @ map (\<lambda>(q, r). ev q r) gs"
      using f unfolding c(4) [symmetric] c(2) [symmetric]
      by (intro Cons.hyps(1)) (simp_all only: c(1,3))
    moreover have "ys = zs" "n = m" "fs = (o_Quantity ?r, ?r) # gs"
      using Cons.prems(4) f whole by (auto simp: side)
    ultimately show ?thesis by (simp add: c)
  next
    case part
    have "st' = part_fill ev (ms_remaining st) st"
      using match_loop_part [where stop = stop, OF side Cons.prems(1) part(3,1) Cons.prems(3) part(2)]
        Cons.prems(5) by simp
    then show ?thesis
      using Cons.prems(4) part part_fill_step [OF side Cons.prems(1), of ev] by (auto simp: side)
  qed
qed

section \<open>What a fill does\<close>

text \<open>
  A fill is a prefix of the side, each order in turn, none of them stopped; only the last may
  be partial. What the side loses is what the incoming order gains, and an unfilled rest means
  the side is empty or its best order is out of reach.
\<close>

definition fill_ok :: "(order \<Rightarrow> bool) \<Rightarrow> int \<Rightarrow> order list \<Rightarrow> order list \<Rightarrow> int \<Rightarrow> (int \<times> order) list \<Rightarrow> bool" where
  "fill_ok stop n xs ys m fs \<longleftrightarrow>
     0 \<le> m \<and> n = m + sum_list (map fst fs) \<and> total_qty xs = total_qty ys + sum_list (map fst fs) \<and>
     map snd fs = take (length fs) xs \<and>
     (\<forall>(q, x) \<in> set fs. 0 < q \<and> q \<le> o_Quantity x \<and> \<not> stop x) \<and>
     (\<forall>(q, x) \<in> set (butlast fs). q = o_Quantity x) \<and>
     (0 < m \<longrightarrow> ys = [] \<or> stop (hd ys))"

lemma fill_spec:
  assumes "\<forall>x \<in> set xs. 0 < o_Quantity x" and "0 \<le> n" and "fill stop n xs = (ys, m, fs)"
  shows "fill_ok stop n xs ys m fs"
  using assms
proof (induction stop n xs arbitrary: ys m fs rule: fill.induct)
  case (1 stop n)
  then show ?case by (simp add: fill_ok_def total_qty_def)
next
  case (2 stop n x xs)
  consider (halt) "n \<le> 0 \<or> stop x" | (part) "0 < n" "\<not> stop x" "n < o_Quantity x"
    | (whole) "0 < n" "\<not> stop x" "o_Quantity x \<le> n" by linarith
  then show ?case
  proof cases
    case halt
    with "2.prems" show ?thesis by (auto simp: fill_ok_def total_qty_def)
  next
    case part
    with "2.prems" show ?thesis by (auto simp: fill_ok_def total_qty_def)
  next
    case whole
    obtain zs k gs where f: "fill stop (n - o_Quantity x) xs = (zs, k, gs)" by (metis prod_cases3)
    have "fill_ok stop (n - o_Quantity x) xs zs k gs"
      using "2.IH" [OF _ _ _ _ f] "2.prems" whole by simp
    moreover have "ys = zs" "m = k" "fs = (o_Quantity x, x) # gs" using "2.prems"(3) f whole by auto
    ultimately show ?thesis
      using whole "2.prems"(1) by (auto simp: fill_ok_def total_qty_def)
  qed
qed

lemma fill_ok_bounds: "fill_ok stop n xs ys m fs \<Longrightarrow> 0 \<le> m \<and> m \<le> n"
  by (fastforce simp: fill_ok_def intro!: sum_list_nonneg)

section \<open>Buying within a budget\<close>

text \<open>
  The budgeted purchase on plain lists: at every order buy what is wanted, offered and
  affordable; stop after the first order that is not bought whole.
\<close>

fun budget_fill :: "int \<Rightarrow> int \<Rightarrow> order list \<Rightarrow> order list \<times> int \<times> (int \<times> order) list" where
  "budget_fill b n [] = ([], n, [])"
| "budget_fill b n (x # xs) =
     (let q = min (min n (o_Quantity x)) (b div o_Price x) in
      if q \<le> 0 then (x # xs, n, [])
      else if q = o_Quantity x then
        (let (ys, m, fs) = budget_fill (b - o_Price x * q) (n - q) xs in (ys, m, (q, x) # fs))
      else (x\<lparr>o_Quantity := o_Quantity x - q\<rparr> # xs, n - q, [(q, x)]))"

definition cost :: "(int \<times> order) list \<Rightarrow> int" where
  "cost fs = (\<Sum>(q, x) \<leftarrow> fs. o_Price x * q)"

text \<open>Sell prices ascend, are positive, and no order is worth so much that costs wrap.\<close>

definition priced :: "int \<Rightarrow> order list \<Rightarrow> bool" where
  "priced maxCost xs \<longleftrightarrow>
     sorted_wrt (\<lambda>x y. o_Price x \<le> o_Price y) xs \<and>
     (\<forall>x \<in> set xs. 0 < o_Price x \<and> maxCost + o_Price x * o_Quantity x < 2^63)"

text \<open>The cut is the largest affordable quantity.\<close>

lemma budget_cut_spec:
  assumes "0 < maxCost" and "0 \<le> spent" and "spent \<le> maxCost" and "0 < q" and "in_i32 q"
    and "0 < price" and "maxCost + price * q < 2^63"
  shows "budget_cut maxCost spent price q =
    (let k = min q ((maxCost - spent) div price) in
     if k \<le> 0 then Stop else Trade k (spent + price * k))"
proof -
  let ?d = "(maxCost - spent) div price"
  have pq: "0 < price * q" using assms by simp
  have w: "wrap64 (price * q) = price * q" "wrap64 (spent + price * q) = spent + price * q"
    "wrap64 (maxCost - spent) = maxCost - spent"
    using assms(1-3,7) pq by - (rule wrap64_nonneg; linarith)+
  show ?thesis
  proof (cases "spent + price * q > maxCost")
    case True
    have d0: "0 \<le> ?d" using assms by (simp add: pos_imp_zdiv_nonneg_iff)
    have pd: "price * ?d \<le> maxCost - spent"
      using assms go_div_mult_le [of "maxCost - spent" price] by simp
    then have "price * ?d < price * q" using True by linarith
    then have dq: "?d < q" using assms(6) by (simp add: mult_less_cancel_left_pos)
    have "0 \<le> price * ?d" using d0 assms(6) by simp
    then have w': "wrap32 ?d = ?d" "wrap64 (price * ?d) = price * ?d"
      "wrap64 (spent + price * ?d) = spent + price * ?d"
      using d0 dq pd assms(1-3,5,7) pq unfolding in_i32_def
      by - (rule wrap32_nonneg wrap64_nonneg; linarith)+
    show ?thesis
    proof (cases "maxCost - spent \<le> 0")
      case True
      then have "maxCost - spent = 0" using assms by simp
      with \<open>spent + price * q > maxCost\<close> assms show ?thesis by (simp add: budget_cut_def w Let_def)
    next
      case False
      then show ?thesis
        using assms True w w' dq d0 by (auto simp: budget_cut_def Let_def min_def)
    qed
  next
    case False
    then have "q * price \<le> maxCost - spent" by (simp add: mult.commute)
    then have "q \<le> ?d" using assms(6) zdiv_mono1 [of "q * price" "maxCost - spent" price] by simp
    then show ?thesis using False assms w by (simp add: budget_cut_def Let_def min_def)
  qed
qed

lemma budget_loop_done: "ms_remaining st \<le> 0 \<Longrightarrow> budget_loop maxCost ev i spent st = (st, False)"
  by (subst budget_loop.simps) auto

lemma budget_loop_end: "length (ms_side st) \<le> i \<Longrightarrow> budget_loop maxCost ev i spent st = (st, False)"
  by (subst budget_loop.simps) auto

lemma trade_qty_min: "trade_qty n r = min n (o_Quantity r)"
  by (simp add: trade_qty_def min_def)

lemma budget_loop_cut:
  assumes "i < length (ms_side st)" and "r = ms_heap st (ms_side st ! i)" and "0 < ms_remaining st"
    and "0 < maxCost" and "0 \<le> spent" and "spent \<le> maxCost"
    and "0 < o_Quantity r" and "in_i32 (o_Quantity r)"
    and "0 < o_Price r" and "maxCost + o_Price r * o_Quantity r < 2^63"
    and "k = min (min (ms_remaining st) (o_Quantity r)) ((maxCost - spent) div o_Price r)"
  shows "budget_loop maxCost ev i spent st =
    (if k \<le> 0 then (st, False)
     else (case fill_at i k (ev k r) st of (j, st') \<Rightarrow> budget_loop maxCost ev j (spent + o_Price r * k) st'))"
proof -
  let ?q = "trade_qty (ms_remaining st) r"
  have q: "0 < ?q" "?q \<le> o_Quantity r" "in_i32 ?q"
    using assms(3,7,8) by (auto simp: trade_qty_min in_i32_def)
  have "o_Price r * ?q \<le> o_Price r * o_Quantity r" using q(2) assms(9) by simp
  then have "maxCost + o_Price r * ?q < 2^63" using assms(10) by linarith
  from budget_cut_spec [OF assms(4-6) q(1,3) assms(9) this]
  have "budget_cut maxCost spent (o_Price r) ?q =
      (if k \<le> 0 then Stop else Trade k (spent + o_Price r * k))"
    by (simp add: assms(11) trade_qty_min Let_def)
  with assms(1-3) show ?thesis by (subst budget_loop.simps) (simp add: Let_def)
qed

text \<open>With less money left than the next price the loop halts.\<close>

lemma budget_loop_broke:
  assumes "i < length (ms_side st)" and "r = ms_heap st (ms_side st ! i)"
    and "0 < maxCost" and "0 \<le> spent" and "spent \<le> maxCost"
    and "0 < o_Quantity r" and "in_i32 (o_Quantity r)"
    and "maxCost + o_Price r * o_Quantity r < 2^63" and "maxCost - spent < o_Price r"
  shows "budget_loop maxCost ev i spent st = (st, False)"
proof (cases "0 < ms_remaining st")
  case True
  have "(maxCost - spent) div o_Price r = 0" using assms by simp
  moreover have "0 < o_Price r" using assms by linarith
  ultimately show ?thesis using budget_loop_cut [OF assms(1,2) True assms(3-7) _ assms(8) refl] by simp
qed (simp add: budget_loop_done)

lemma priced_tl: "priced maxCost (x # xs) \<Longrightarrow> priced maxCost xs"
  by (simp add: priced_def)

lemma budget_loop_part:
  assumes "ms_side st = p # ps" and "live (ms_heap st) (ms_side st)" and "in_i32 (ms_remaining st)"
    and "priced maxCost (map (ms_heap st) (ms_side st))"
    and "0 < maxCost" and "0 \<le> spent" and "spent \<le> maxCost"
    and k: "0 < k" "k < o_Quantity (ms_heap st p)" "k \<le> ms_remaining st"
      "k = ms_remaining st \<or> k = (maxCost - spent) div o_Price (ms_heap st p)"
    and afford: "k \<le> (maxCost - spent) div o_Price (ms_heap st p)"
  shows "budget_loop maxCost ev 1 (spent + o_Price (ms_heap st p) * k) (part_fill ev k st)
    = (part_fill ev k st, False)"
proof (cases "k = ms_remaining st \<or> ps = []")
  case True
  then show ?thesis
    using assms(1) by (auto simp: part_fill_def Let_def budget_loop_done budget_loop_end)
next
  case False
  then obtain p' ps' where ps: "ps = p' # ps'" by (cases ps) auto
  let ?b = "maxCost - spent" and ?c = "o_Price (ms_heap st p)" and ?r = "ms_heap st p'"
  have pos: "0 < ?c" using assms(1,4) by (simp add: priced_def)
  have kd: "k = ?b div ?c" using False k(4) by simp
  have "?b = ?c * k + ?b mod ?c" by (simp add: kd)
  moreover have "0 \<le> ?b mod ?c" "?b mod ?c < ?c" using pos by simp_all
  moreover have "?c \<le> o_Price ?r" using assms(1,4) by (simp add: priced_def ps)
  moreover have "0 \<le> ?c * k" using pos k(1) by simp
  ultimately have "0 \<le> spent + ?c * k" "spent + ?c * k \<le> maxCost" "maxCost - (spent + ?c * k) < o_Price ?r"
    using assms(6) by linarith+
  moreover have "p' \<noteq> p" "0 < o_Quantity ?r" "in_i32 (o_Quantity ?r)"
    using assms(1,2) by (auto simp: live_def ps)
  moreover have "maxCost + o_Price ?r * o_Quantity ?r < 2^63" using assms(1,4) by (simp add: priced_def ps)
  ultimately show ?thesis
    using assms(1,5) ps by (intro budget_loop_broke) (simp_all add: part_fill_def Let_def)
qed

lemma budget_loop_fill:
  assumes "live (ms_heap st) (ms_side st)" and "0 \<le> ms_remaining st" and "in_i32 (ms_remaining st)"
    and "priced maxCost (map (ms_heap st) (ms_side st))"
    and "0 < maxCost" and "0 \<le> spent" and "spent \<le> maxCost"
    and "budget_fill (maxCost - spent) (ms_remaining st) (map (ms_heap st) (ms_side st)) = (ys, n, fs)"
    and "budget_loop maxCost ev 0 spent st = (st', panicked)"
  shows "\<not> panicked \<and> map (ms_heap st') (ms_side st') = ys \<and> ms_remaining st' = n \<and>
    ms_matches st' = ms_matches st @ map (\<lambda>(q, r). ev q r) fs"
  using assms
proof (induction "ms_side st" arbitrary: st spent ys n fs)
  case Nil
  then have "ms_side st = []" by simp
  with Nil show ?case by (simp add: budget_loop_end)
next
  case (Cons p ps)
  let ?r = "ms_heap st p"
  let ?k = "min (min (ms_remaining st) (o_Quantity ?r)) ((maxCost - spent) div o_Price ?r)"
  note side = Cons.hyps(2) [symmetric]
  have live: "live (ms_heap st) (p # ps)" using Cons.prems(1) by (simp add: side)
  note qty = live_qty [OF live]
  have pr: "0 < o_Price ?r" "maxCost + o_Price ?r * o_Quantity ?r < 2^63"
    using Cons.prems(4) by (simp_all add: priced_def side)
  have "o_Price ?r * ((maxCost - spent) div o_Price ?r) \<le> maxCost - spent"
    using go_div_mult_le [of "maxCost - spent" "o_Price ?r"] pr(1) Cons.prems(7) by simp
  moreover have "o_Price ?r * ?k \<le> o_Price ?r * ((maxCost - spent) div o_Price ?r)" using pr(1) by simp
  ultimately have paid: "o_Price ?r * ?k \<le> maxCost - spent" by linarith
  have cut: "0 < ms_remaining st \<Longrightarrow> budget_loop maxCost ev 0 spent st =
    (if ?k \<le> 0 then (st, False)
     else (case fill_at 0 ?k (ev ?k ?r) st of (j, st') \<Rightarrow> budget_loop maxCost ev j (spent + o_Price ?r * ?k) st'))"
    using budget_loop_cut [OF _ _ _ Cons.prems(5-7) _ _ pr refl] qty by (simp add: side)
  consider (halt) "?k \<le> 0" | (whole) "0 < ?k" "?k = o_Quantity ?r"
    | (part) "0 < ?k" "?k < o_Quantity ?r" by linarith
  then show ?case
  proof cases
    case halt
    then have "budget_loop maxCost ev 0 spent st = (st, False)"
      using cut by (cases "0 < ms_remaining st") (simp_all add: budget_loop_done)
    moreover have "ys = ?r # map (ms_heap st) ps" "n = ms_remaining st" "fs = []"
      using halt Cons.prems(8) by (auto simp: side Let_def)
    ultimately show ?thesis using Cons.prems(9) by (simp add: side)
  next
    case whole
    let ?s = "spent + o_Price ?r * o_Quantity ?r"
    note c = consume_step [OF side Cons.prems(1), of ev]
    have n: "o_Quantity ?r \<le> ms_remaining st" using whole(2) by linarith
    obtain zs m gs where f: "budget_fill (maxCost - ?s) (ms_remaining st - o_Quantity ?r) (map (ms_heap st) ps) = (zs, m, gs)"
      by (metis prod_cases3)
    have "budget_loop maxCost ev 0 ?s (consume ev st) = (st', panicked)"
      using cut fill_at_whole [OF side _ n Cons.prems(3), of ev] Cons.prems(9) qty n whole by simp
    moreover have "0 \<le> ms_remaining (consume ev st)" and "in_i32 (ms_remaining (consume ev st))"
      using n Cons.prems(3) qty by (auto simp: c in_i32_def)
    moreover have "priced maxCost (map (ms_heap st) ps)"
      using Cons.prems(4) by (simp add: side priced_tl)
    moreover have "0 \<le> ?s" "?s \<le> maxCost"
      using Cons.prems(6) paid pr(1) qty whole(2) by (simp_all add: mult_nonneg_nonneg)
    ultimately have "\<not> panicked \<and> map (ms_heap st') (ms_side st') = zs \<and> ms_remaining st' = m \<and>
        ms_matches st' = ms_matches (consume ev st) @ map (\<lambda>(q, r). ev q r) gs"
      using f Cons.prems(5) unfolding c(4) [symmetric] c(2) [symmetric]
      by (intro Cons.hyps(1) [where spent = ?s]) (simp_all only: c(1,3))
    moreover have "ys = zs" "n = m" "fs = (o_Quantity ?r, ?r) # gs"
      using Cons.prems(8) f whole by (auto simp: side Let_def diff_diff_eq)
    ultimately show ?thesis by (simp add: c)
  next
    case part
    have rem: "?k \<le> ms_remaining st" by simp
    have "budget_loop maxCost ev 0 spent st = (part_fill ev ?k st, False)"
      using cut fill_at_part [OF side _ part rem Cons.prems(3), of ev] qty part
        budget_loop_part [OF side Cons.prems(1,3-7) part rem, of ev] by (simp add: min_def split: if_splits)
    with Cons.prems(9) have "st' = part_fill ev ?k st" "\<not> panicked" by auto
    moreover have "ys = ?r\<lparr>o_Quantity := o_Quantity ?r - ?k\<rparr> # map (ms_heap st) ps"
      "n = ms_remaining st - ?k" "fs = [(?k, ?r)]"
      using Cons.prems(8) part by (auto simp: side Let_def)
    ultimately show ?thesis using part_fill_step [OF side Cons.prems(1), of ev ?k] by simp
  qed
qed

text \<open>
  A budgeted purchase never costs more than the budget, takes a prefix of the side, and leaves
  nothing wanted, offered and affordable behind.
\<close>

definition budget_ok :: "int \<Rightarrow> int \<Rightarrow> order list \<Rightarrow> order list \<Rightarrow> int \<Rightarrow> (int \<times> order) list \<Rightarrow> bool" where
  "budget_ok b n xs ys m fs \<longleftrightarrow>
     0 \<le> m \<and> n = m + sum_list (map fst fs) \<and> total_qty xs = total_qty ys + sum_list (map fst fs) \<and>
     map snd fs = take (length fs) xs \<and> (\<forall>(q, x) \<in> set fs. 0 < q \<and> q \<le> o_Quantity x) \<and>
     cost fs \<le> b \<and> (m = 0 \<or> ys = [] \<or> b - cost fs < o_Price (hd ys))"

lemma budget_fill_spec:
  assumes "\<forall>x \<in> set xs. 0 < o_Quantity x \<and> 0 < o_Price x" and "0 \<le> n" and "0 \<le> b"
    and "budget_fill b n xs = (ys, m, fs)"
  shows "budget_ok b n xs ys m fs"
  using assms
proof (induction b n xs arbitrary: ys m fs rule: budget_fill.induct)
  case (1 b n)
  then show ?case by (simp add: budget_ok_def total_qty_def cost_def)
next
  case (2 b n x xs)
  define d where "d = b div o_Price x"
  define q where "q = min (min n (o_Quantity x)) d"
  have eq: "budget_fill b n (x # xs) =
     (if q \<le> 0 then (x # xs, n, [])
      else if q = o_Quantity x then
        (let (ys, m, fs) = budget_fill (b - o_Price x * q) (n - q) xs in (ys, m, (q, x) # fs))
      else (x\<lparr>o_Quantity := o_Quantity x - q\<rparr> # xs, n - q, [(q, x)]))"
    by (simp add: q_def d_def Let_def)
  have q: "q \<le> n" "q \<le> o_Quantity x" "q \<le> d" "q = n \<or> q = o_Quantity x \<or> q = d"
    by (auto simp: q_def min_def)
  have pos: "0 < o_Quantity x" "0 < o_Price x" using "2.prems"(1) by auto
  have split: "b = o_Price x * d + b mod o_Price x" "0 \<le> b mod o_Price x" "b mod o_Price x < o_Price x"
    using pos by (simp_all add: d_def)
  have "o_Price x * q \<le> o_Price x * d" using pos q(3) by simp
  then have paid: "o_Price x * q \<le> b" using split by linarith
  have d0: "0 \<le> d" using pos "2.prems"(3) by (simp add: pos_imp_zdiv_nonneg_iff d_def)
  have last: "b - o_Price x * d < o_Price x" using split by linarith
  consider (halt) "q \<le> 0" | (whole) "0 < q" "q = o_Quantity x" | (part) "0 < q" "q < o_Quantity x"
    using q(2) by linarith
  then show ?case
  proof cases
    case halt
    then have "n = 0 \<or> d = 0" using "2.prems"(2) pos(1) d0 q(4) by linarith
    then have "n = 0 \<or> b < o_Price x" using split(1,3) by (metis add_0 mult_zero_right)
    moreover have "ys = x # xs" "m = n" "fs = []" using halt "2.prems"(4) eq by auto
    ultimately show ?thesis using "2.prems"(2,3) by (auto simp: budget_ok_def cost_def)
  next
    case whole
    obtain zs k gs where f: "budget_fill (b - o_Price x * q) (n - q) xs = (zs, k, gs)" by (metis prod_cases3)
    have "budget_ok (b - o_Price x * q) (n - q) xs zs k gs"
      using "2.IH" [of q zs k gs] f "2.prems"(1) paid whole q(1) by (simp add: q_def d_def)
    moreover have "ys = zs" "m = k" "fs = (q, x) # gs" using "2.prems"(4) f whole eq by auto
    ultimately show ?thesis
      using whole pos by (auto simp: budget_ok_def total_qty_def cost_def algebra_simps)
  next
    case part
    have "ys = x\<lparr>o_Quantity := o_Quantity x - q\<rparr> # xs" "m = n - q" "fs = [(q, x)]"
      using part "2.prems"(4) eq by auto
    moreover have "q = n \<or> q = d" using part q(4) by linarith
    ultimately show ?thesis
      using part paid last q(1) by (auto simp: budget_ok_def total_qty_def cost_def)
  qed
qed

section \<open>Loop invariants\<close>

text \<open>
  Whatever a fill of a positive \<open>int32\<close> quantity keeps, the loops keep.
\<close>

definition fill_keeps :: "(match_state \<Rightarrow> bool) \<Rightarrow> bool" where
  "fill_keeps P \<longleftrightarrow>
     (\<forall>i q ev st. P st \<and> i < length (ms_side st) \<and> 0 < q \<and> in_i32 q \<longrightarrow> P (snd (fill_at i q ev st)))"

definition live_side_of :: "match_state \<Rightarrow> bool" where
  "live_side_of st \<longleftrightarrow> (\<forall>p \<in> set (ms_side st). 0 < o_Quantity (ms_heap st p) \<and> in_i32 (o_Quantity (ms_heap st p)))"

lemma fill_keepsD:
  "fill_keeps P \<Longrightarrow> P st \<Longrightarrow> i < length (ms_side st) \<Longrightarrow> 0 < q \<Longrightarrow> in_i32 q \<Longrightarrow>
    fill_at i q ev st = (j, st') \<Longrightarrow> P st'"
  unfolding fill_keeps_def by (metis snd_conv)

lemma trade_qty_range:
  assumes "live_side_of st" and "i < length (ms_side st)" and "0 < ms_remaining st"
  shows "0 < trade_qty (ms_remaining st) (ms_heap st (ms_side st ! i))"
    and "in_i32 (trade_qty (ms_remaining st) (ms_heap st (ms_side st ! i)))"
proof -
  have "ms_side st ! i \<in> set (ms_side st)" using assms(2) by simp
  then show "0 < trade_qty (ms_remaining st) (ms_heap st (ms_side st ! i))"
    and "in_i32 (trade_qty (ms_remaining st) (ms_heap st (ms_side st ! i)))"
    using assms(1,3) by (auto simp: live_side_of_def trade_qty_min in_i32_def)
qed

lemma match_loop_keeps:
  assumes "fill_keeps P" and "\<And>st. P st \<Longrightarrow> live_side_of st" and "P st"
  shows "P (match_loop stop ev i st)"
  using assms(3)
proof (induction stop ev i st rule: match_loop.induct)
  case (1 stop ev i st)
  let ?r = "ms_heap st (ms_side st ! i)"
  let ?q = "trade_qty (ms_remaining st) ?r"
  obtain j st' where f: "fill_at i ?q (ev ?q ?r) st = (j, st')" by fastforce
  show ?case
  proof (cases "i < length (ms_side st) \<and> ms_remaining st > 0 \<and> \<not> stop ?r")
    case True
    then have "P st'"
      using fill_keepsD [OF assms(1) "1.prems" _ _ _ f] trade_qty_range [OF assms(2) [OF "1.prems"]] by blast
    then show ?thesis
      using True f "1.IH" [OF _ refl _ f [symmetric]] by (subst match_loop.simps) (simp add: Let_def)
  next
    case False
    then show ?thesis using "1.prems" by (subst match_loop.simps) (auto simp: Let_def)
  qed
qed

lemma budget_cut_range:
  assumes "budget_cut maxCost spent price q = Trade q' spent'" and "0 < q" and "in_i32 q"
  shows "0 < q'" and "in_i32 q'"
  using assms wrap32_in by (auto simp: budget_cut_def Let_def split: if_splits)

lemma budget_cut_panic: "budget_cut maxCost spent price q = Panic \<Longrightarrow> price = 0"
  by (auto simp: budget_cut_def Let_def split: if_splits)

lemma budget_loop_keeps:
  assumes "fill_keeps P" and "\<And>st. P st \<Longrightarrow> live_side_of st"
    and "P st" and "budget_loop maxCost ev i spent st = (st', panicked)"
  shows "P st' \<and> (panicked \<longrightarrow> (\<exists>p \<in> set (ms_side st'). o_Price (ms_heap st' p) = 0))"
  using assms(3,4)
proof (induction maxCost ev i spent st rule: budget_loop.induct)
  case (1 maxCost ev i spent st)
  let ?r = "ms_heap st (ms_side st ! i)"
  let ?c = "budget_cut maxCost spent (o_Price ?r) (trade_qty (ms_remaining st) ?r)"
  show ?case
  proof (cases "i < length (ms_side st) \<and> ms_remaining st > 0")
    case True
    show ?thesis
    proof (cases ?c)
      case Stop
      with True "1.prems" show ?thesis by (simp add: budget_loop.simps [of _ _ i spent st] Let_def)
    next
      case Panic
      with True "1.prems" budget_cut_panic [OF Panic] show ?thesis
        by (auto simp: budget_loop.simps [of _ _ i spent st] Let_def intro!: bexI [of _ "ms_side st ! i"])
    next
      case (Trade q spent')
      obtain j st2 where f: "fill_at i q (ev q ?r) st = (j, st2)" by fastforce
      have "P st2"
        using fill_keepsD [OF assms(1) "1.prems"(1) _ _ _ f] True budget_cut_range [OF Trade]
          trade_qty_range [OF assms(2) [OF "1.prems"(1)]] by blast
      moreover have "budget_loop maxCost ev j spent' st2 = (st', panicked)"
        using True Trade f "1.prems"(2) by (simp add: budget_loop.simps [of _ _ i spent st] Let_def)
      ultimately show ?thesis using "1.IH" [OF True refl Trade f [symmetric]] by blast
    qed
  next
    case False
    with "1.prems" show ?thesis by (auto simp: budget_loop.simps [of _ _ i spent st])
  qed
qed

lemma fill_keeps_conj: "fill_keeps P \<Longrightarrow> fill_keeps Q \<Longrightarrow> fill_keeps (\<lambda>st. P st \<and> Q st)"
  unfolding fill_keeps_def by blast

text \<open>A loop writes only to the orders of the side it walks.\<close>

definition frame :: "ptr set \<Rightarrow> heap \<Rightarrow> match_state \<Rightarrow> bool" where
  "frame S h st \<longleftrightarrow> set (ms_side st) \<subseteq> S \<and> (\<forall>q. q \<notin> S \<longrightarrow> ms_heap st q = h q)"

lemma fill_keeps_frame: "fill_keeps (frame S h)"
  unfolding fill_keeps_def
proof (intro allI impI, elim conjE)
  fix i q ev st
  assume fr: "frame S h st" and i: "i < length (ms_side st)"
  have "ms_side st ! i \<in> S" using fr i by (auto simp: frame_def)
  moreover have "set (remove_at i (ms_side st)) \<subseteq> set (ms_side st)"
    by (auto simp: remove_at_def dest: in_set_takeD in_set_dropD)
  ultimately show "frame S h (snd (fill_at i q ev st))"
    using fr by (auto simp: frame_def fill_at_def Let_def)
qed

end
