(* ===== verification/OrderService.thy ===== *)
theory OrderService
  imports Complex_Main OrderMatching
begin

text \<open>
  The matching engine of \<open>pkg/orderbook/service.go\<close>. The state is the Go \<open>Service\<close>: the
  books by (location, item), the index from order id to order pointer, the configuration
  and the id counter. The index is an association list with distinct keys (a Go map can be
  counted and ranged over). The order objects are in \<open>svc_heap\<close>, and \<open>svc_nextPtr\<close> is the next
  unused address. Every method holds \<open>s.mu\<close> for its whole body, so an operation is one
  atomic function of the state. The results of \<open>time.Now().Unix()\<close> are arguments.
\<close>

section \<open>State\<close>

record config =
  TaxPct :: rat
  OrderExpiry :: int
  MinPrice :: int
  MaxOrders :: int

text \<open>
  A \<open>float64\<close> field holds a dyadic rational; the constant \<open>0.02\<close> is the nearest one.
\<close>

definition DefaultConfig :: config where
  "DefaultConfig = \<lparr>TaxPct = Fract 5764607523034235 288230376151711744, OrderExpiry = 604800, MinPrice = 1, MaxOrders = 50\<rparr>"

type_synonym book_key = "u32 \<times> u32"

record service =
  svc_books :: "book_key \<rightharpoonup> order_book"
  svc_orders :: "(u64 \<times> ptr) list"
  svc_cfg :: config
  svc_nextID :: u64
  svc_heap :: heap
  svc_nextPtr :: ptr

datatype book_error =
    PriceBelowMin int int
  | QuantityNotPositive
  | MaxOrdersReached int
  | OrderNotFound u64
  | NotOwner u64 string
  | DivideByZero

definition zero_order :: order where
  "zero_order = \<lparr>o_ID = 0, o_Side = 0, o_Owner = [], o_LocationID = 0, o_ItemID = 0, o_Price = 0,
     o_Quantity = 0, o_OrigQty = 0, o_CreatedAt = 0, o_ExpiresAt = 0\<rparr>"

definition NewService :: "config \<Rightarrow> service" where
  "NewService cfg = \<lparr>svc_books = Map.empty, svc_orders = [], svc_cfg = cfg, svc_nextID = 1,
     svc_heap = (\<lambda>_. zero_order), svc_nextPtr = 0\<rparr>"

definition SetNextID :: "service \<Rightarrow> u64 \<Rightarrow> service" where
  "SetNextID s i = s\<lparr>svc_nextID := i\<rparr>"

definition allocID :: "service \<Rightarrow> service \<times> u64" where
  "allocID s = (s\<lparr>svc_nextID := svc_nextID s + 1\<rparr>, svc_nextID s)"

definition NextID :: "service \<Rightarrow> u64" where
  "NextID s = svc_nextID s"

definition AllocID :: "service \<Rightarrow> service \<times> u64" where
  "AllocID s = allocID s"

text \<open>\<open>GetBook\<close> creates the book on first use.\<close>

definition GetBook :: "service \<Rightarrow> u32 \<Rightarrow> u32 \<Rightarrow> service \<times> order_book" where
  "GetBook s loc item =
     (case svc_books s (loc, item) of
        Some ob \<Rightarrow> (s, ob)
      | None \<Rightarrow> (s\<lparr>svc_books := (svc_books s)((loc, item) \<mapsto> empty_book)\<rparr>, empty_book))"

text \<open>The number of orders of the index that belong to the player.\<close>

definition OrderCount :: "service \<Rightarrow> string \<Rightarrow> int" where
  "OrderCount s player =
     int (length (filter (\<lambda>(_, p). o_Owner (svc_heap s p) = player) (svc_orders s)))"

section \<open>Operations\<close>

definition match_init :: "ptr list \<Rightarrow> service \<Rightarrow> int \<Rightarrow> match_state" where
  "match_init side s qty =
     \<lparr>ms_side = side, ms_orders = svc_orders s, ms_heap = svc_heap s, ms_remaining = qty,
      ms_matches = []\<rparr>"

definition put_book :: "service \<Rightarrow> book_key \<Rightarrow> order_book \<Rightarrow> service" where
  "put_book s k ob = s\<lparr>svc_books := (svc_books s)(k \<mapsto> ob)\<rparr>"

text \<open>\<open>&Order{...}\<close>: a fresh address holds the new order.\<close>

definition alloc_order :: "service \<Rightarrow> order \<Rightarrow> service \<times> ptr" where
  "alloc_order s r =
     (s\<lparr>svc_heap := (svc_heap s)(svc_nextPtr s := r), svc_nextPtr := svc_nextPtr s + 1\<rparr>,
      svc_nextPtr s)"

definition index_order :: "service \<Rightarrow> ptr \<Rightarrow> service" where
  "index_order s p = s\<lparr>svc_orders := AList.update (o_ID (svc_heap s p)) p (svc_orders s)\<rparr>"

definition resting_order ::
  "service \<Rightarrow> u8 \<Rightarrow> string \<Rightarrow> u32 \<Rightarrow> u32 \<Rightarrow> int \<Rightarrow> int \<Rightarrow> int \<Rightarrow> int \<Rightarrow> int \<Rightarrow> u64 \<Rightarrow> order" where
  "resting_order s side owner loc item price remaining qty now1 now2 i =
     \<lparr>o_ID = i, o_Side = side, o_Owner = owner, o_LocationID = loc, o_ItemID = item, o_Price = price,
      o_Quantity = remaining, o_OrigQty = qty, o_CreatedAt = now1,
      o_ExpiresAt = wrap64 (now2 + OrderExpiry (svc_cfg s))\<rparr>"

definition check_place :: "service \<Rightarrow> string \<Rightarrow> int \<Rightarrow> int \<Rightarrow> book_error option" where
  "check_place s player price qty =
     (if price < MinPrice (svc_cfg s) then Some (PriceBelowMin price (MinPrice (svc_cfg s)))
      else if qty \<le> 0 then Some QuantityNotPositive
      else if OrderCount s player \<ge> MaxOrders (svc_cfg s) then Some (MaxOrdersReached (MaxOrders (svc_cfg s)))
      else None)"

definition PlaceSellOrder ::
  "service \<Rightarrow> string \<Rightarrow> u32 \<Rightarrow> u32 \<Rightarrow> int \<Rightarrow> int \<Rightarrow> int \<Rightarrow> int
    \<Rightarrow> service \<times> (book_error + match_event list \<times> ptr option)" where
  "PlaceSellOrder s seller loc item price qty now1 now2 =
     (case check_place s seller price qty of
        Some e \<Rightarrow> (s, Inl e)
      | None \<Rightarrow>
          (let (s1, ob) = GetBook s loc item;
               st = match_loop (\<lambda>buy. o_Price buy < price) (sell_event seller loc item) 0
                      (match_init (Buys ob) s1 qty);
               ob' = ob\<lparr>Buys := ms_side st\<rparr>;
               s2 = (put_book s1 (loc, item) ob')\<lparr>svc_orders := ms_orders st, svc_heap := ms_heap st\<rparr>
           in if ms_remaining st > 0 then
                (let (s3, oid) = allocID s2;
                     (s4, p) = alloc_order s3
                       (resting_order s3 SideSell seller loc item price (ms_remaining st) qty now1 now2 oid);
                     s5 = put_book s4 (loc, item) (InsertSell (svc_heap s4) p ob')
                 in (index_order s5 p, Inr (ms_matches st, Some p)))
              else (s2, Inr (ms_matches st, None))))"

definition PlaceBuyOrder ::
  "service \<Rightarrow> string \<Rightarrow> u32 \<Rightarrow> u32 \<Rightarrow> int \<Rightarrow> int \<Rightarrow> int \<Rightarrow> int
    \<Rightarrow> service \<times> (book_error + match_event list \<times> ptr option)" where
  "PlaceBuyOrder s buyer loc item price qty now1 now2 =
     (case check_place s buyer price qty of
        Some e \<Rightarrow> (s, Inl e)
      | None \<Rightarrow>
          (let (s1, ob) = GetBook s loc item;
               st = match_loop (\<lambda>sell. o_Price sell > price) (buy_event buyer loc item) 0
                      (match_init (Sells ob) s1 qty);
               ob' = ob\<lparr>Sells := ms_side st\<rparr>;
               s2 = (put_book s1 (loc, item) ob')\<lparr>svc_orders := ms_orders st, svc_heap := ms_heap st\<rparr>
           in if ms_remaining st > 0 then
                (let (s3, oid) = allocID s2;
                     (s4, p) = alloc_order s3
                       (resting_order s3 SideBuy buyer loc item price (ms_remaining st) qty now1 now2 oid);
                     s5 = put_book s4 (loc, item) (InsertBuy (svc_heap s4) p ob')
                 in (index_order s5 p, Inr (ms_matches st, Some p)))
              else (s2, Inr (ms_matches st, None))))"

definition InstantSell ::
  "service \<Rightarrow> string \<Rightarrow> u32 \<Rightarrow> u32 \<Rightarrow> int \<Rightarrow> service \<times> (book_error + match_event list)" where
  "InstantSell s seller loc item qty =
     (if qty \<le> 0 then (s, Inl QuantityNotPositive)
      else
        (let (s1, ob) = GetBook s loc item;
             st = match_loop (\<lambda>_. False) (sell_event seller loc item) 0 (match_init (Buys ob) s1 qty)
         in ((put_book s1 (loc, item) (ob\<lparr>Buys := ms_side st\<rparr>))
               \<lparr>svc_orders := ms_orders st, svc_heap := ms_heap st\<rparr>,
             Inr (ms_matches st))))"

definition InstantBuy ::
  "service \<Rightarrow> string \<Rightarrow> u32 \<Rightarrow> u32 \<Rightarrow> int \<Rightarrow> int \<Rightarrow> service \<times> (book_error + match_event list)" where
  "InstantBuy s buyer loc item qty maxCost =
     (if qty \<le> 0 then (s, Inl QuantityNotPositive)
      else
        (let (s1, ob) = GetBook s loc item;
             (st, panicked) = budget_loop maxCost (buy_event buyer loc item) 0 0
                                (match_init (Sells ob) s1 qty)
         in ((put_book s1 (loc, item) (ob\<lparr>Sells := ms_side st\<rparr>))
               \<lparr>svc_orders := ms_orders st, svc_heap := ms_heap st\<rparr>,
             if panicked then Inl DivideByZero else Inr (ms_matches st))))"

text \<open>The removal shared by \<open>CancelOrder\<close> and \<open>ExpireOrders\<close>: out of the book, out of the index.\<close>

definition drop_order :: "service \<Rightarrow> u64 \<Rightarrow> ptr \<Rightarrow> service" where
  "drop_order s oid p =
     (let r = svc_heap s p;
          k = (o_LocationID r, o_ItemID r);
          s1 = (case svc_books s k of
                  Some ob \<Rightarrow> put_book s k (fst (RemoveOrder (svc_heap s) oid ob))
                | None \<Rightarrow> s)
      in s1\<lparr>svc_orders := AList.delete oid (svc_orders s1)\<rparr>)"

definition CancelOrder :: "service \<Rightarrow> string \<Rightarrow> u64 \<Rightarrow> service \<times> (book_error + ptr)" where
  "CancelOrder s player oid =
     (case map_of (svc_orders s) oid of
        None \<Rightarrow> (s, Inl (OrderNotFound oid))
      | Some p \<Rightarrow>
          if o_Owner (svc_heap s p) \<noteq> player then (s, Inl (NotOwner oid player))
          else (drop_order s oid p, Inr p))"

text \<open>
  \<open>ExpireOrders\<close> ranges over the index; \<open>ids\<close> is the order in which the range visits the keys.
\<close>

definition expire_step :: "int \<Rightarrow> u64 \<Rightarrow> service \<times> ptr list \<Rightarrow> service \<times> ptr list" where
  "expire_step now oid acc =
     (case acc of (s, expired) \<Rightarrow>
        (case map_of (svc_orders s) oid of
           None \<Rightarrow> (s, expired)
         | Some p \<Rightarrow>
             if o_ExpiresAt (svc_heap s p) > 0 \<and> now \<ge> o_ExpiresAt (svc_heap s p)
             then (drop_order s oid p, expired @ [p])
             else (s, expired)))"

definition ExpireOrders :: "service \<Rightarrow> u64 list \<Rightarrow> int \<Rightarrow> service \<times> ptr list" where
  "ExpireOrders s ids now = fold (expire_step now) ids (s, [])"

definition Browse :: "service \<Rightarrow> u32 \<Rightarrow> u32 \<Rightarrow> service \<times> u32 \<times> price_level list \<times> price_level list" where
  "Browse s loc item =
     (let (s1, ob) = GetBook s loc item
      in (s1, item, AggregateSells (svc_heap s1) ob 20, AggregateBuys (svc_heap s1) ob 20))"

definition PlayerOrders :: "service \<Rightarrow> u64 list \<Rightarrow> string \<Rightarrow> ptr list" where
  "PlayerOrders s ids player =
     [p. i \<leftarrow> ids, p \<leftarrow> (case map_of (svc_orders s) i of None \<Rightarrow> [] | Some p \<Rightarrow> [p]),
         o_Owner (svc_heap s p) = player]"

text \<open>\<open>InsertLoadedOrder\<close> receives an order object of its caller: it gets an address here.\<close>

definition InsertLoadedOrder :: "service \<Rightarrow> order \<Rightarrow> service" where
  "InsertLoadedOrder s r =
     (let (s1, p) = alloc_order s r;
          s2 = index_order s1 p;
          (s3, ob) = GetBook s2 (o_LocationID r) (o_ItemID r);
          ob' = (if o_Side r = SideSell then InsertSell (svc_heap s3) p ob else InsertBuy (svc_heap s3) p ob)
      in put_book s3 (o_LocationID r, o_ItemID r) ob')"

definition GetOrder :: "service \<Rightarrow> u64 \<Rightarrow> ptr option" where
  "GetOrder s oid = map_of (svc_orders s) oid"

section \<open>Invariant\<close>

definition order_key :: "order \<Rightarrow> book_key" where
  "order_key r = (o_LocationID r, o_ItemID r)"

definition side_of :: "u8 \<Rightarrow> order_book \<Rightarrow> ptr list" where
  "side_of sd ob = (if sd = SideSell then Sells ob else Buys ob)"

definition set_side :: "u8 \<Rightarrow> ptr list \<Rightarrow> order_book \<Rightarrow> order_book" where
  "set_side sd ps ob = (if sd = SideSell then ob\<lparr>Sells := ps\<rparr> else ob\<lparr>Buys := ps\<rparr>)"

definition rests :: "service \<Rightarrow> book_key \<Rightarrow> u8 \<Rightarrow> ptr \<Rightarrow> bool" where
  "rests s k sd p \<longleftrightarrow> sd \<in> {SideSell, SideBuy} \<and> (\<exists>ob. svc_books s k = Some ob \<and> p \<in> set (side_of sd ob))"

text \<open>An order that rests in a book: where it says it is, indexed, alive, priced.\<close>

definition ptr_ok :: "service \<Rightarrow> book_key \<Rightarrow> u8 \<Rightarrow> ptr \<Rightarrow> bool" where
  "ptr_ok s k sd p \<longleftrightarrow>
     (let r = svc_heap s p in
      p < svc_nextPtr s \<and> o_Side r = sd \<and> order_key r = k \<and> map_of (svc_orders s) (o_ID r) = Some p \<and>
      0 < o_Quantity r \<and> in_i32 (o_Quantity r) \<and> MinPrice (svc_cfg s) \<le> o_Price r)"

text \<open>No resting buy would pay what a resting sell asks.\<close>

definition uncrossed :: "heap \<Rightarrow> order_book \<Rightarrow> bool" where
  "uncrossed h ob \<longleftrightarrow> (\<forall>p \<in> set (Sells ob). \<forall>q \<in> set (Buys ob). o_Price (h q) < o_Price (h p))"

definition book_ok :: "heap \<Rightarrow> order_book \<Rightarrow> bool" where
  "book_ok h ob \<longleftrightarrow> distinct (Sells ob) \<and> distinct (Buys ob) \<and> book_sorted h ob \<and> uncrossed h ob"

definition svc_inv :: "service \<Rightarrow> bool" where
  "svc_inv s \<longleftrightarrow>
     distinct (map fst (svc_orders s)) \<and>
     (\<forall>i p. map_of (svc_orders s) i = Some p \<longrightarrow>
        o_ID (svc_heap s p) = i \<and> i < svc_nextID s \<and>
        rests s (order_key (svc_heap s p)) (o_Side (svc_heap s p)) p) \<and>
     (\<forall>k sd p. rests s k sd p \<longrightarrow> ptr_ok s k sd p) \<and>
     (\<forall>k ob. svc_books s k = Some ob \<longrightarrow> book_ok (svc_heap s) ob)"

lemma svc_invD:
  assumes "svc_inv s"
  shows "distinct (map fst (svc_orders s))"
    and "map_of (svc_orders s) i = Some p \<Longrightarrow> o_ID (svc_heap s p) = i"
    and "map_of (svc_orders s) i = Some p \<Longrightarrow> i < svc_nextID s"
    and "map_of (svc_orders s) i = Some p \<Longrightarrow>
      rests s (order_key (svc_heap s p)) (o_Side (svc_heap s p)) p"
    and "rests s k sd p \<Longrightarrow> ptr_ok s k sd p"
    and "svc_books s k = Some ob \<Longrightarrow> book_ok (svc_heap s) ob"
  using assms unfolding svc_inv_def by blast+

lemma sides_differ [simp]: "SideSell \<noteq> SideBuy" "SideBuy \<noteq> SideSell"
  by (simp_all add: SideSell_def SideBuy_def)

lemma side_of_set_side [simp]:
  "side_of sd (set_side sd ps ob) = ps"
  "sd \<in> {SideSell, SideBuy} \<Longrightarrow> sd' \<in> {SideSell, SideBuy} \<Longrightarrow> sd' \<noteq> sd \<Longrightarrow> side_of sd' (set_side sd ps ob) = side_of sd' ob"
  by (auto simp: side_of_def set_side_def)

lemma side_of_simps [simp]: "side_of SideSell ob = Sells ob" "side_of SideBuy ob = Buys ob"
  by (simp_all add: side_of_def)

lemma rests_unique:
  assumes "svc_inv s" and "rests s k sd p" and "rests s k' sd' q"
    and "o_ID (svc_heap s p) = o_ID (svc_heap s q)"
  shows "p = q \<and> k = k' \<and> sd = sd'"
  using svc_invD(5) [OF assms(1,2)] svc_invD(5) [OF assms(1,3)] assms(4)
  by (auto simp: ptr_ok_def Let_def)

text \<open>A book change that only looks at price and time stays sorted and uncrossed on a sublist.\<close>

definition same_rank :: "order \<Rightarrow> order \<Rightarrow> bool" where
  "same_rank x y \<longleftrightarrow> o_Price x = o_Price y \<and> o_CreatedAt x = o_CreatedAt y"

lemma sorted_same_rank:
  assumes "sorted_wrt le (map h ps)" and "\<forall>p \<in> set ps. same_rank (h p) (h' p)"
    and "\<And>x y x' y'. le x y \<Longrightarrow> same_rank x x' \<Longrightarrow> same_rank y y' \<Longrightarrow> le x' y'"
  shows "sorted_wrt le (map h' ps)"
  using assms(1) unfolding sorted_wrt_map
  by (rule sorted_wrt_mono_rel [rotated]) (use assms(2,3) in blast)

lemma le_same_rank:
  "sell_le x y \<Longrightarrow> same_rank x x' \<Longrightarrow> same_rank y y' \<Longrightarrow> sell_le x' y'"
  "buy_le x y \<Longrightarrow> same_rank x x' \<Longrightarrow> same_rank y y' \<Longrightarrow> buy_le x' y'"
  by (auto simp: sell_le_def buy_le_def same_rank_def)

lemma book_ok_same_rank:
  assumes "book_ok h ob" and "\<forall>p \<in> set (Sells ob) \<union> set (Buys ob). same_rank (h p) (h' p)"
  shows "book_ok h' ob"
proof -
  have "sorted_wrt sell_le (map h' (Sells ob))"
    by (rule sorted_same_rank [of _ h]) (use assms le_same_rank in \<open>auto simp: book_ok_def book_sorted_def\<close>)
  moreover have "sorted_wrt buy_le (map h' (Buys ob))"
    by (rule sorted_same_rank [of _ h]) (use assms le_same_rank in \<open>auto simp: book_ok_def book_sorted_def\<close>)
  ultimately show ?thesis
    using assms by (auto simp: book_ok_def book_sorted_def uncrossed_def same_rank_def)
qed

lemma book_ok_remove:
  assumes "book_ok h ob" and "side_of sd ob = xs @ p # ys" and "sd \<in> {SideSell, SideBuy}"
  shows "book_ok h (set_side sd (xs @ ys) ob)"
  using assms
  by (auto simp: book_ok_def book_sorted_def uncrossed_def set_side_def sorted_wrt_append)

subsection \<open>Steps that keep it\<close>

definition put_side :: "service \<Rightarrow> book_key \<Rightarrow> u8 \<Rightarrow> order_book \<Rightarrow> ptr list \<Rightarrow> (u64 \<times> ptr) list \<Rightarrow> heap \<Rightarrow> service" where
  "put_side s k sd ob ps ids h =
     s\<lparr>svc_books := (svc_books s)(k \<mapsto> set_side sd ps ob), svc_orders := ids, svc_heap := h\<rparr>"

lemma put_side_sel [simp]:
  "svc_books (put_side s k sd ob ps ids h) = (svc_books s)(k \<mapsto> set_side sd ps ob)"
  "svc_orders (put_side s k sd ob ps ids h) = ids" "svc_heap (put_side s k sd ob ps ids h) = h"
  "svc_cfg (put_side s k sd ob ps ids h) = svc_cfg s"
  "svc_nextID (put_side s k sd ob ps ids h) = svc_nextID s"
  "svc_nextPtr (put_side s k sd ob ps ids h) = svc_nextPtr s"
  by (simp_all add: put_side_def)

lemma rests_here:
  "svc_books s k = Some ob \<Longrightarrow> sd \<in> {SideSell, SideBuy} \<Longrightarrow> rests s k sd q \<longleftrightarrow> q \<in> set (side_of sd ob)"
  by (simp add: rests_def)

lemma rests_put_side:
  assumes "svc_books s k = Some ob" and "sd \<in> {SideSell, SideBuy}"
  shows "rests (put_side s k sd ob ps ids h) k' sd' q \<longleftrightarrow>
    (if k' = k \<and> sd' = sd then q \<in> set ps else rests s k' sd' q)"
  using assms by (auto simp: rests_def side_of_def set_side_def)

text \<open>
  An order leaves its book and the index; its object, now unreferenced, may hold anything.
\<close>

lemma remove_keeps:
  assumes inv: "svc_inv s" and ob: "svc_books s k = Some ob" and sd: "sd \<in> {SideSell, SideBuy}"
    and ps: "side_of sd ob = xs @ p # ys"
  shows "svc_inv (put_side s k sd ob (xs @ ys) (AList.delete (o_ID (svc_heap s p)) (svc_orders s))
    ((svc_heap s)(p := r)))" (is "svc_inv ?s'")
proof -
  have p: "rests s k sd p" using ob sd ps by (auto simp: rests_def)
  have bok: "book_ok (svc_heap s) ob" by (rule svc_invD(6) [OF inv ob])
  then have "distinct (xs @ p # ys)" using sd ps by (auto simp: book_ok_def side_of_def split: if_splits)
  then have notin: "p \<notin> set (xs @ ys)" by auto
  have R: "rests ?s' k' sd' q \<longleftrightarrow> rests s k' sd' q \<and> q \<noteq> p" for k' sd' q
  proof (cases "k' = k \<and> sd' = sd")
    case True
    then show ?thesis using notin ob sd ps by (auto simp: rests_put_side [OF ob sd] rests_def)
  next
    case False
    then have "rests s k' sd' q \<Longrightarrow> q \<noteq> p" using rests_unique [OF inv p, of k' sd' p] by blast
    with False show ?thesis by (auto simp: rests_put_side [OF ob sd])
  qed
  have id: "o_ID (svc_heap s q) \<noteq> o_ID (svc_heap s p)" if "rests s k' sd' q" "q \<noteq> p" for k' sd' q
    using rests_unique [OF inv p that(1)] that(2) by auto
  have idx: "map_of (svc_orders ?s') i = Some q \<longleftrightarrow> map_of (svc_orders s) i = Some q \<and> i \<noteq> o_ID (svc_heap s p)" for i q
    by (auto simp: delete_conv')
  have ix: "o_ID (svc_heap ?s' q) = i \<and> i < svc_nextID ?s' \<and>
      rests ?s' (order_key (svc_heap ?s' q)) (o_Side (svc_heap ?s' q)) q"
    if "map_of (svc_orders ?s') i = Some q" for i q
  proof -
    have q: "map_of (svc_orders s) i = Some q" "i \<noteq> o_ID (svc_heap s p)" using that idx by blast+
    then have "q \<noteq> p" using svc_invD(2) [OF inv q(1)] by auto
    with R svc_invD(2-4) [OF inv q(1)] show ?thesis by simp
  qed
  have pk: "ptr_ok ?s' k' sd' q" if "rests ?s' k' sd' q" for k' sd' q
    using that svc_invD(5) [OF inv, of k' sd' q] id [of k' sd' q] idx
    by (auto simp: R ptr_ok_def Let_def)
  have bk: "book_ok (svc_heap ?s') ob'" if b: "svc_books ?s' k' = Some ob'" for k' ob'
  proof (rule book_ok_same_rank [of "svc_heap s"])
    show "book_ok (svc_heap s) ob'"
      using b svc_invD(6) [OF inv, of k' ob'] book_ok_remove [OF bok ps sd] by (auto split: if_splits)
    have "rests ?s' k' SideSell q \<or> rests ?s' k' SideBuy q" if "q \<in> set (Sells ob') \<union> set (Buys ob')" for q
      using that b by (auto simp: rests_def simp del: put_side_sel)
    then show "\<forall>q \<in> set (Sells ob') \<union> set (Buys ob'). same_rank (svc_heap s q) (svc_heap ?s' q)"
      using R by (auto simp: same_rank_def)
  qed
  have "distinct (map fst (svc_orders ?s'))" using svc_invD(1) [OF inv] by (simp add: distinct_delete)
  with ix pk bk show ?thesis unfolding svc_inv_def by blast
qed

text \<open>A resting order keeps its place while its quantity drops.\<close>

lemma reduce_keeps:
  assumes inv: "svc_inv s" and p: "rests s k sd p" and q: "0 < q" "in_i32 q"
    and r: "r = (svc_heap s p)\<lparr>o_Quantity := q\<rparr>"
  shows "svc_inv (s\<lparr>svc_heap := (svc_heap s)(p := r)\<rparr>)" (is "svc_inv ?s'")
proof -
  have R: "rests ?s' = rests s" by (intro ext) (simp add: rests_def)
  have same: "same_rank (svc_heap s x) (svc_heap ?s' x)" "o_ID (svc_heap ?s' x) = o_ID (svc_heap s x)"
    "order_key (svc_heap ?s' x) = order_key (svc_heap s x)" "o_Side (svc_heap ?s' x) = o_Side (svc_heap s x)" for x
    by (auto simp: r same_rank_def order_key_def)
  have "ptr_ok ?s' k' sd' x" if "rests s k' sd' x" for k' sd' x
    using svc_invD(5) [OF inv that] q same by (auto simp: ptr_ok_def Let_def r order_key_def)
  moreover have "book_ok (svc_heap ?s') ob" if "svc_books s k' = Some ob" for k' ob
    using book_ok_same_rank [OF svc_invD(6) [OF inv that]] same by blast
  ultimately show ?thesis
    using inv same unfolding svc_inv_def R by simp
qed

lemma fresh_ptr:
  assumes "svc_inv s" and "svc_books s k = Some ob"
  shows "svc_nextPtr s \<notin> set (Sells ob)" and "svc_nextPtr s \<notin> set (Buys ob)"
  using svc_invD(5) [OF assms(1), of k SideSell "svc_nextPtr s"]
    svc_invD(5) [OF assms(1), of k SideBuy "svc_nextPtr s"] assms(2)
  by (auto simp: rests_here ptr_ok_def Let_def)

text \<open>A fresh order enters a side of its book and the index.\<close>

definition rest_state :: "service \<Rightarrow> book_key \<Rightarrow> u8 \<Rightarrow> order_book \<Rightarrow> ptr list \<Rightarrow> order \<Rightarrow> u64 \<Rightarrow> service" where
  "rest_state s k sd ob ps r nid =
     (put_side s k sd ob ps (AList.update (o_ID r) (svc_nextPtr s) (svc_orders s))
        ((svc_heap s)(svc_nextPtr s := r)))
     \<lparr>svc_nextID := nid, svc_nextPtr := svc_nextPtr s + 1\<rparr>"

lemma rest_state_sel:
  "svc_books (rest_state s k sd ob ps r nid) = (svc_books s)(k \<mapsto> set_side sd ps ob)"
  "svc_orders (rest_state s k sd ob ps r nid) = AList.update (o_ID r) (svc_nextPtr s) (svc_orders s)"
  "svc_heap (rest_state s k sd ob ps r nid) = (svc_heap s)(svc_nextPtr s := r)"
  "svc_cfg (rest_state s k sd ob ps r nid) = svc_cfg s"
  "svc_nextID (rest_state s k sd ob ps r nid) = nid"
  "svc_nextPtr (rest_state s k sd ob ps r nid) = svc_nextPtr s + 1"
  by (simp_all add: rest_state_def)

definition may_rest :: "service \<Rightarrow> book_key \<Rightarrow> u8 \<Rightarrow> order_book \<Rightarrow> order \<Rightarrow> u64 \<Rightarrow> bool" where
  "may_rest s k sd ob r nid \<longleftrightarrow>
     sd \<in> {SideSell, SideBuy} \<and> svc_books s k = Some ob \<and> o_Side r = sd \<and> order_key r = k \<and>
     0 < o_Quantity r \<and> in_i32 (o_Quantity r) \<and> MinPrice (svc_cfg s) \<le> o_Price r \<and>
     map_of (svc_orders s) (o_ID r) = None \<and> o_ID r < nid \<and> svc_nextID s \<le> nid \<and>
     (if sd = SideSell then \<forall>q \<in> set (Buys ob). o_Price (svc_heap s q) < o_Price r
      else \<forall>q \<in> set (Sells ob). o_Price r < o_Price (svc_heap s q))"

lemma add_keeps:
  assumes inv: "svc_inv s" and may: "may_rest s k sd ob r nid"
    and ps: "mset ps = add_mset (svc_nextPtr s) (mset (side_of sd ob))"
    and sorted: "sorted_wrt (if sd = SideSell then sell_le else buy_le) (map ((svc_heap s)(svc_nextPtr s := r)) ps)"
  shows "svc_inv (rest_state s k sd ob ps r nid)" (is "svc_inv ?s'")
proof -
  let ?p = "svc_nextPtr s"
  have ob: "svc_books s k = Some ob" and sd: "sd \<in> {SideSell, SideBuy}" using may by (auto simp: may_rest_def)
  have fresh: "q \<noteq> ?p" if "rests s k' sd' q" for k' sd' q
    using svc_invD(5) [OF inv that] by (auto simp: ptr_ok_def Let_def)
  have setps: "set ps = insert ?p (set (side_of sd ob))" using arg_cong [OF ps, of set_mset] by simp
  have R: "rests ?s' k' sd' q \<longleftrightarrow> rests s k' sd' q \<or> q = ?p \<and> k' = k \<and> sd' = sd" for k' sd' q
  proof -
    have "rests ?s' k' sd' q = rests (put_side s k sd ob ps [] (svc_heap s)) k' sd' q"
      by (simp add: rests_def rest_state_sel)
    then show ?thesis
      using rests_put_side [OF ob sd, of ps "[]" "svc_heap s" k' sd' q] rests_here [OF ob sd, of q] setps
      by (cases "k' = k \<and> sd' = sd") auto
  qed
  have idx: "map_of (svc_orders ?s') = (map_of (svc_orders s))(o_ID r \<mapsto> ?p)"
    by (simp add: rest_state_sel update_conv')
  have heap: "svc_heap ?s' q = (if q = ?p then r else svc_heap s q)" for q by (simp add: rest_state_sel)
  have ix: "o_ID (svc_heap ?s' q) = i \<and> i < svc_nextID ?s' \<and>
      rests ?s' (order_key (svc_heap ?s' q)) (o_Side (svc_heap ?s' q)) q"
    if "map_of (svc_orders ?s') i = Some q" for i q
  proof (cases "i = o_ID r")
    case True
    then show ?thesis using that may by (auto simp: R idx heap may_rest_def rest_state_sel(5))
  next
    case False
    then have q: "map_of (svc_orders s) i = Some q" using that by (simp add: idx)
    then show ?thesis
      using svc_invD(2-4) [OF inv q] fresh may by (auto simp: R heap may_rest_def rest_state_sel(5))
  qed
  have pk: "ptr_ok ?s' k' sd' q" if q: "rests ?s' k' sd' q" for k' sd' q
  proof (cases "rests s k' sd' q")
    case True
    have ok: "ptr_ok s k' sd' q" by (rule svc_invD(5) [OF inv True])
    then have "o_ID (svc_heap s q) \<noteq> o_ID r" using may by (auto simp: ptr_ok_def may_rest_def Let_def)
    with ok fresh [OF True] show ?thesis
      by (simp add: ptr_ok_def Let_def heap idx rest_state_sel(4,6))
  next
    case False
    then show ?thesis
      using q may by (auto simp: R ptr_ok_def Let_def heap idx may_rest_def rest_state_sel(4,6))
  qed
  have bk: "book_ok (svc_heap ?s') ob'" if b: "svc_books ?s' k' = Some ob'" for k' ob'
  proof (cases "k' = k")
    case True
    then have ob': "ob' = set_side sd ps ob" using b by (simp add: rest_state_sel)
    note new = fresh_ptr [OF inv ob]
    have bok: "book_ok (svc_heap ?s') ob"
      by (rule book_ok_same_rank [OF svc_invD(6) [OF inv ob]]) (use new in \<open>auto simp: heap same_rank_def\<close>)
    have dist: "distinct ps"
      using bok sd new unfolding mset_eq_imp_distinct_iff [OF ps [folded mset.simps(2)]]
      by (auto simp: book_ok_def side_of_def)
    have "sorted_wrt (if sd = SideSell then sell_le else buy_le) (map (svc_heap ?s') ps)"
      using sorted by (simp add: rest_state_sel)
    moreover have "uncrossed (svc_heap ?s') ob'"
      using bok setps sd may new unfolding ob' uncrossed_def book_ok_def may_rest_def
      by (auto simp: set_side_def heap split: if_splits)
    ultimately show ?thesis
      using bok dist sd unfolding ob' by (auto simp: book_ok_def book_sorted_def set_side_def)
  next
    case False
    then have b': "svc_books s k' = Some ob'" using b by (simp add: rest_state_sel)
    show ?thesis
      by (rule book_ok_same_rank [OF svc_invD(6) [OF inv b']])
        (use fresh_ptr [OF inv b'] in \<open>auto simp: heap same_rank_def\<close>)
  qed
  have "distinct (map fst (svc_orders ?s'))"
    using svc_invD(1) [OF inv] by (simp add: rest_state_sel distinct_update)
  with ix pk bk show ?thesis unfolding svc_inv_def by blast
qed

subsection \<open>Matching keeps it\<close>

text \<open>The service in the middle of a matching loop on side \<open>sd\<close> of book \<open>k\<close>.\<close>

definition matched :: "service \<Rightarrow> book_key \<Rightarrow> u8 \<Rightarrow> order_book \<Rightarrow> match_state \<Rightarrow> service" where
  "matched s k sd ob st = put_side s k sd ob (ms_side st) (ms_orders st) (ms_heap st)"

lemma set_side_twice [simp]: "set_side sd ps (set_side sd qs ob) = set_side sd ps ob"
  by (simp add: set_side_def)

lemma matched_rests:
  assumes "p \<in> set (ms_side st)" and "svc_books s k = Some ob" and "sd \<in> {SideSell, SideBuy}"
  shows "rests (matched s k sd ob st) k sd p"
  using assms rests_put_side [OF assms(2,3)] by (simp add: matched_def)

lemma matched_ptr_ok:
  assumes "svc_inv (matched s k sd ob st)" and "p \<in> set (ms_side st)"
    and "svc_books s k = Some ob" and "sd \<in> {SideSell, SideBuy}"
  shows "0 < o_Quantity (ms_heap st p)" and "in_i32 (o_Quantity (ms_heap st p))"
    and "MinPrice (svc_cfg s) \<le> o_Price (ms_heap st p)"
  using svc_invD(5) [OF assms(1) matched_rests [OF assms(2-4)]]
  by (simp_all add: ptr_ok_def Let_def matched_def)

lemma matched_live:
  assumes "svc_inv (matched s k sd ob st)" and "svc_books s k = Some ob" and "sd \<in> {SideSell, SideBuy}"
  shows "live_side_of st"
  using matched_ptr_ok(1,2) [OF assms(1) _ assms(2,3)] by (simp add: live_side_of_def)

lemma fill_at_matched:
  assumes "svc_inv (matched s k sd ob st)" and "svc_books s k = Some ob" and "sd \<in> {SideSell, SideBuy}"
    and "i < length (ms_side st)" and "0 < q" and "in_i32 q"
  shows "svc_inv (matched s k sd ob (snd (fill_at i q ev st)))"
proof -
  let ?p = "ms_side st ! i" and ?m = "matched s k sd ob st"
  let ?r = "ms_heap st ?p"
  have mem: "?p \<in> set (ms_side st)" using assms(4) by simp
  note ok = matched_ptr_ok [OF assms(1) mem assms(2,3)]
  have books: "svc_books ?m k = Some (set_side sd (ms_side st) ob)" by (simp add: matched_def)
  have left: "in_i32 (o_Quantity ?r - q)" using ok assms(5,6) by (auto simp: in_i32_def)
  show ?thesis
  proof (cases "o_Quantity ?r - q \<le> 0")
    case True
    have "side_of sd (set_side sd (ms_side st) ob) = take i (ms_side st) @ ?p # drop (Suc i) (ms_side st)"
      using id_take_nth_drop [OF assms(4)] by simp
    from remove_keeps [OF assms(1) books assms(3) this]
    have "svc_inv (put_side ?m k sd (set_side sd (ms_side st) ob) (remove_at i (ms_side st))
      (AList.delete (o_ID ?r) (ms_orders st)) ((ms_heap st)(?p := ?r\<lparr>o_Quantity := o_Quantity ?r - q\<rparr>)))"
      by (simp add: matched_def remove_at_def)
    with True left show ?thesis by (simp add: fill_at_def Let_def matched_def put_side_def wrap32_id)
  next
    case False
    have "svc_inv (?m\<lparr>svc_heap := (svc_heap ?m)(?p := (svc_heap ?m ?p)\<lparr>o_Quantity := o_Quantity ?r - q\<rparr>)\<rparr>)"
      using reduce_keeps [OF assms(1) matched_rests [OF mem assms(2,3)] _ left refl] False by simp
    then show ?thesis
      using False left by (simp add: fill_at_def Let_def matched_def put_side_def wrap32_id)
  qed
qed

lemma fill_keeps_matched:
  assumes "svc_books s k = Some ob" and "sd \<in> {SideSell, SideBuy}"
  shows "fill_keeps (\<lambda>st. svc_inv (matched s k sd ob st))"
  using fill_at_matched [OF _ assms] unfolding fill_keeps_def by blast

lemma matched_init:
  assumes "svc_books s k = Some ob"
  shows "matched s k sd ob (match_init (side_of sd ob) s qty) = s"
  using assms by (auto simp: matched_def match_init_def put_side_def set_side_def side_of_def fun_upd_idem)

lemma match_loop_matched:
  assumes "svc_inv s" and "svc_books s k = Some ob" and "sd \<in> {SideSell, SideBuy}"
    and "st = match_loop stop ev 0 (match_init (side_of sd ob) s qty)"
  shows "svc_inv (matched s k sd ob st) \<and> frame (set (side_of sd ob)) (svc_heap s) st"
  unfolding assms(4)
  by (rule match_loop_keeps [OF fill_keeps_conj [OF fill_keeps_matched [OF assms(2,3)] fill_keeps_frame]])
    (use matched_live [OF _ assms(2,3)] matched_init [OF assms(2)] assms(1)
      in \<open>simp_all add: frame_def match_init_def\<close>)

text \<open>Creating an empty book changes no order.\<close>

lemma GetBook_spec:
  assumes "svc_inv s" and "GetBook s loc item = (s1, ob)"
  shows "svc_inv s1" and "svc_books s1 (loc, item) = Some ob"
    and "svc_orders s1 = svc_orders s" "svc_heap s1 = svc_heap s" "svc_cfg s1 = svc_cfg s"
      "svc_nextID s1 = svc_nextID s" "svc_nextPtr s1 = svc_nextPtr s"
    and "svc_books s (loc, item) = Some ob \<or> ob = empty_book"
proof -
  show frame: "svc_books s1 (loc, item) = Some ob"
    "svc_orders s1 = svc_orders s" "svc_heap s1 = svc_heap s" "svc_cfg s1 = svc_cfg s"
    "svc_nextID s1 = svc_nextID s" "svc_nextPtr s1 = svc_nextPtr s"
    "svc_books s (loc, item) = Some ob \<or> ob = empty_book"
    using assms(2) by (auto simp: GetBook_def split: option.splits)
  show "svc_inv s1"
  proof (cases "svc_books s (loc, item)")
    case (Some ob')
    then show ?thesis using assms by (simp add: GetBook_def)
  next
    case None
    then have books: "svc_books s1 = (svc_books s)((loc, item) \<mapsto> empty_book)"
      using assms(2) by (auto simp: GetBook_def)
    have R: "rests s1 = rests s"
      by (intro ext) (auto simp: rests_def books None empty_book_def side_of_def)
    have "ptr_ok s1 = ptr_ok s" by (intro ext) (simp add: ptr_ok_def frame)
    moreover have "book_ok (svc_heap s1) empty_book"
      by (simp add: book_ok_def book_sorted_def uncrossed_def empty_book_def)
    ultimately show ?thesis
      using assms(1) unfolding svc_inv_def R frame by (auto simp: books frame)
  qed
qed

subsection \<open>Placing orders\<close>

lemma live_side:
  assumes "svc_inv s" and "svc_books s k = Some ob" and "sd \<in> {SideSell, SideBuy}"
  shows "live (svc_heap s) (side_of sd ob)"
proof -
  have "distinct (side_of sd ob)"
    using svc_invD(6) [OF assms(1,2)] assms(3) by (auto simp: book_ok_def)
  moreover have "\<forall>p \<in> set (side_of sd ob). ptr_ok s k sd p"
    using svc_invD(5) [OF assms(1)] rests_here [OF assms(2,3)] by blast
  ultimately show ?thesis by (auto simp: live_def ptr_ok_def Let_def)
qed

text \<open>
  What a matching loop started by an operation does to the side it walks, in terms of the fill
  on order values.
\<close>

lemma match_loop_service:
  assumes "svc_inv s" and "svc_books s k = Some ob" and "sd \<in> {SideSell, SideBuy}"
    and "0 \<le> qty" and "in_i32 qty"
    and "st = match_loop stop ev 0 (match_init (side_of sd ob) s qty)"
    and "fill stop qty (map (svc_heap s) (side_of sd ob)) = (ys, n, fs)"
  shows "map (ms_heap st) (ms_side st) = ys" and "ms_remaining st = n"
    and "ms_matches st = map (\<lambda>(q, r). ev q r) fs"
    and "fill_ok stop qty (map (svc_heap s) (side_of sd ob)) ys n fs"
proof -
  have live: "live (svc_heap s) (side_of sd ob)" by (rule live_side [OF assms(1-3)])
  show "map (ms_heap st) (ms_side st) = ys" "ms_remaining st = n" "ms_matches st = map (\<lambda>(q, r). ev q r) fs"
    using match_loop_fill [OF _ _ _ _ assms(6)] live assms(4,5,7) by (simp_all add: match_init_def)
  show "fill_ok stop qty (map (svc_heap s) (side_of sd ob)) ys n fs"
    by (rule fill_spec [OF _ assms(4,7)]) (use live in \<open>auto simp: live_def\<close>)
qed

text \<open>What is left of the other side after a limit order cannot cross what rests of it.\<close>

lemma buys_below:
  assumes "sorted_wrt buy_le (map h ps)" and "ps = [] \<or> o_Price (hd (map h ps)) < price"
  shows "\<forall>q \<in> set ps. o_Price (h q) < price"
  using assms by (cases ps) (auto simp: buy_le_def)

lemma sells_above:
  assumes "sorted_wrt sell_le (map h ps)" and "ps = [] \<or> o_Price (hd (map h ps)) > price"
  shows "\<forall>q \<in> set ps. o_Price (h q) > price"
  using assms by (cases ps) (auto simp: sell_le_def)

lemma check_placeD:
  assumes "check_place s player price qty = None"
  shows "MinPrice (svc_cfg s) \<le> price" and "0 < qty" and "OrderCount s player < MaxOrders (svc_cfg s)"
  using assms by (auto simp: check_place_def split: if_splits)

lemma fresh_id:
  assumes "svc_inv s" shows "map_of (svc_orders s) (svc_nextID s) = None"
  using svc_invD(3) [OF assms, of "svc_nextID s"] by (cases "map_of (svc_orders s) (svc_nextID s)") auto

lemma fresh_map:
  assumes "svc_inv s" and "svc_books s k = Some ob"
  shows "map ((svc_heap s)(svc_nextPtr s := r)) (Sells ob) = map (svc_heap s) (Sells ob)"
    and "map ((svc_heap s)(svc_nextPtr s := r)) (Buys ob) = map (svc_heap s) (Buys ob)"
  using fresh_ptr [OF assms] by (auto intro!: map_cong)

lemma rest_sell:
  assumes "svc_inv s" and "may_rest s k SideSell ob r nid"
    and "h = (svc_heap s)(svc_nextPtr s := r)" and "p = svc_nextPtr s"
  obtains ps where "InsertSell h p ob = set_side SideSell ps ob" and "placed sell_le h p (Sells ob) ps"
    and "svc_inv (rest_state s k SideSell ob ps r nid)"
proof -
  have ob: "svc_books s k = Some ob" using assms(2) by (simp add: may_rest_def)
  have "sorted_wrt sell_le (map h (Sells ob))"
    using svc_invD(6) [OF assms(1) ob] unfolding assms(3) fresh_map [OF assms(1) ob]
    by (simp add: book_ok_def book_sorted_def)
  then obtain xs ys where i: "Sells ob = xs @ ys" "InsertSell h p ob = ob\<lparr>Sells := xs @ p # ys\<rparr>"
    "\<forall>x \<in> set xs. sell_le (h x) (h p)" "\<forall>y \<in> set ys. \<not> sell_le (h y) (h p)"
    "sorted_wrt sell_le (map h (xs @ p # ys))" by (rule insert_sell_splits [of h ob p])
  show thesis
  proof (rule that [of "xs @ p # ys"])
    show "InsertSell h p ob = set_side SideSell (xs @ p # ys) ob" using i(2) by (simp add: set_side_def)
    show "placed sell_le h p (Sells ob) (xs @ p # ys)" using i by (auto simp: placed_def)
    show "svc_inv (rest_state s k SideSell ob (xs @ p # ys) r nid)"
      by (rule add_keeps [OF assms(1,2)]) (use i assms(3,4) in simp_all)
  qed
qed

lemma rest_buy:
  assumes "svc_inv s" and "may_rest s k SideBuy ob r nid"
    and "h = (svc_heap s)(svc_nextPtr s := r)" and "p = svc_nextPtr s"
  obtains ps where "InsertBuy h p ob = set_side SideBuy ps ob" and "placed buy_le h p (Buys ob) ps"
    and "svc_inv (rest_state s k SideBuy ob ps r nid)"
proof -
  have ob: "svc_books s k = Some ob" using assms(2) by (simp add: may_rest_def)
  have "sorted_wrt buy_le (map h (Buys ob))"
    using svc_invD(6) [OF assms(1) ob] unfolding assms(3) fresh_map [OF assms(1) ob]
    by (simp add: book_ok_def book_sorted_def)
  then obtain xs ys where i: "Buys ob = xs @ ys" "InsertBuy h p ob = ob\<lparr>Buys := xs @ p # ys\<rparr>"
    "\<forall>x \<in> set xs. buy_le (h x) (h p)" "\<forall>y \<in> set ys. \<not> buy_le (h y) (h p)"
    "sorted_wrt buy_le (map h (xs @ p # ys))" by (rule insert_buy_splits [of h ob p])
  show thesis
  proof (rule that [of "xs @ p # ys"])
    show "InsertBuy h p ob = set_side SideBuy (xs @ p # ys) ob" using i(2) by (simp add: set_side_def)
    show "placed buy_le h p (Buys ob) (xs @ p # ys)" using i by (auto simp: placed_def)
    show "svc_inv (rest_state s k SideBuy ob (xs @ p # ys) r nid)"
      by (rule add_keeps [OF assms(1,2)]) (use i assms(3,4) in simp_all)
  qed
qed

text \<open>
  The values a book side holds; an absent book holds none.
\<close>

definition side_orders :: "service \<Rightarrow> book_key \<Rightarrow> u8 \<Rightarrow> order list" where
  "side_orders s k sd = (case svc_books s k of None \<Rightarrow> [] | Some ob \<Rightarrow> map (svc_heap s) (side_of sd ob))"

lemma GetBook_side:
  assumes "svc_inv s" and "GetBook s loc item = (s1, ob)"
  shows "map (svc_heap s1) (side_of sd ob) = side_orders s (loc, item) sd"
  using assms(2) by (auto simp: GetBook_def side_orders_def empty_book_def side_of_def split: option.splits)

text \<open>
  A limit sell: the fill against the buy side, then the rest of it, if any, behind the sells of
  the same price.
\<close>

lemma other_side_kept:
  assumes "svc_inv s" and "svc_books s k = Some ob" and "frame (set (side_of sd ob)) (svc_heap s) st"
    and "sd \<in> {SideSell, SideBuy}" and "sd' \<in> {SideSell, SideBuy}" and "sd' \<noteq> sd"
  shows "map (ms_heap st) (side_of sd' ob) = map (svc_heap s) (side_of sd' ob)"
proof -
  have "q \<notin> set (side_of sd ob)" if "q \<in> set (side_of sd' ob)" for q
    using that rests_unique [OF assms(1), of k sd' q k sd q] rests_here [OF assms(2)] assms(4-6) by blast
  then show ?thesis using assms(3) by (auto simp: frame_def)
qed

definition sell_events :: "string \<Rightarrow> u32 \<Rightarrow> u32 \<Rightarrow> (int \<times> order) list \<Rightarrow> match_event list" where
  "sell_events seller loc item fs = map (\<lambda>(q, b). sell_event seller loc item q b) fs"

definition buy_events :: "string \<Rightarrow> u32 \<Rightarrow> u32 \<Rightarrow> (int \<times> order) list \<Rightarrow> match_event list" where
  "buy_events buyer loc item fs = map (\<lambda>(q, b). buy_event buyer loc item q b) fs"

text \<open>
  The rest of a limit order, as an order of its side: a new object with the next id, placed by
  priority among the orders the side had.
\<close>

definition rests_at :: "service \<Rightarrow> book_key \<Rightarrow> u8 \<Rightarrow> order list \<Rightarrow> order \<Rightarrow> ptr \<Rightarrow> bool" where
  "rests_at s k sd old r p \<longleftrightarrow>
     svc_heap s p = r \<and> map_of (svc_orders s) (o_ID r) = Some p \<and>
     (\<exists>ob ps. svc_books s k = Some ob \<and> map (svc_heap s) ps = old \<and>
        placed (if sd = SideSell then sell_le else buy_le) (svc_heap s) p ps (side_of sd ob))"

lemma rest_state_rests_at:
  assumes inv: "svc_inv s" and may: "may_rest s k sd ob r nid"
    and pl: "placed (if sd = SideSell then sell_le else buy_le) ((svc_heap s)(svc_nextPtr s := r))
      (svc_nextPtr s) (side_of sd ob) ps"
  shows "rests_at (rest_state s k sd ob ps r nid) k sd (map (svc_heap s) (side_of sd ob)) r (svc_nextPtr s)"
    and "sd' \<in> {SideSell, SideBuy} \<Longrightarrow> sd' \<noteq> sd \<Longrightarrow>
      side_orders (rest_state s k sd ob ps r nid) k sd' = map (svc_heap s) (side_of sd' ob)"
proof -
  have ob: "svc_books s k = Some ob" "sd \<in> {SideSell, SideBuy}" using may by (auto simp: may_rest_def)
  have side: "map ((svc_heap s)(svc_nextPtr s := r)) (side_of x ob) = map (svc_heap s) (side_of x ob)" for x
    using fresh_ptr [OF inv ob(1)] by (auto simp: side_of_def)
  show "rests_at (rest_state s k sd ob ps r nid) k sd (map (svc_heap s) (side_of sd ob)) r (svc_nextPtr s)"
    unfolding rests_at_def rest_state_sel
    by (intro conjI exI [of _ "set_side sd ps ob"] exI [of _ "side_of sd ob"])
      (use pl side in \<open>simp_all add: update_conv'\<close>)
  show "side_orders (rest_state s k sd ob ps r nid) k sd' = map (svc_heap s) (side_of sd' ob)"
    if "sd' \<in> {SideSell, SideBuy}" "sd' \<noteq> sd"
    using that ob(2) side by (simp add: side_orders_def rest_state_sel)
qed

text \<open>An operation on one book leaves the other books, their orders and the settings alone.\<close>

definition others_kept :: "service \<Rightarrow> service \<Rightarrow> book_key \<Rightarrow> bool" where
  "others_kept s s' k \<longleftrightarrow>
     svc_cfg s' = svc_cfg s \<and> (\<forall>k'. k' \<noteq> k \<longrightarrow> svc_books s' k' = svc_books s k') \<and>
     (\<forall>k' sd p. k' \<noteq> k \<and> rests s k' sd p \<longrightarrow> svc_heap s' p = svc_heap s p)"

lemma matched_others:
  assumes inv: "svc_inv s" and g: "GetBook s loc item = (s1, ob)" and sd: "sd \<in> {SideSell, SideBuy}"
    and fr: "frame (set (side_of sd ob)) (svc_heap s1) st"
  shows "others_kept s (matched s1 (loc, item) sd ob st) (loc, item)"
proof -
  let ?k = "(loc, item)"
  note gb = GetBook_spec [OF inv g]
  have books: "svc_books s1 k' = svc_books s k'" if "k' \<noteq> ?k" for k'
    using g that by (auto simp: GetBook_def split: option.splits)
  have "ms_heap st p = svc_heap s p" if "k' \<noteq> ?k" "rests s k' sd' p" for k' sd' p
  proof -
    have "rests s1 k' sd' p" using that books by (simp add: rests_def)
    then have "p \<notin> set (side_of sd ob)"
      using rests_unique [OF gb(1), of k' sd' p ?k sd p] rests_here [OF gb(2) sd] that(1) by blast
    then show ?thesis using fr by (simp add: frame_def gb)
  qed
  then show ?thesis using books by (auto simp: others_kept_def matched_def gb)
qed

lemma rest_others:
  assumes "svc_inv s0" and "others_kept s0 s k" and "svc_nextPtr s = svc_nextPtr s0"
  shows "others_kept s0 (rest_state s k sd ob ps r nid) k"
proof -
  have "p \<noteq> svc_nextPtr s0" if "rests s0 k' sd' p" for k' sd' p
    using svc_invD(5) [OF assms(1) that] by (auto simp: ptr_ok_def Let_def)
  then show ?thesis using assms(2,3) unfolding others_kept_def rest_state_sel by fastforce
qed

lemma PlaceSellOrder_spec:
  assumes inv: "svc_inv s" and check: "check_place s seller price qty = None" and qty: "in_i32 qty"
    and nid: "svc_nextID s + 1 \<noteq> 0"
    and fill: "fill (\<lambda>b. o_Price b < price) qty (side_orders s (loc, item) SideBuy) = (ys, n, fs)"
    and run: "PlaceSellOrder s seller loc item price qty now1 now2 = (s', res)"
  shows "svc_inv s' \<and> others_kept s s' (loc, item) \<and> side_orders s' (loc, item) SideBuy = ys \<and>
    (if n = 0 then res = Inr (sell_events seller loc item fs, None) \<and>
        side_orders s' (loc, item) SideSell = side_orders s (loc, item) SideSell
     else (\<exists>p. res = Inr (sell_events seller loc item fs, Some p) \<and>
        rests_at s' (loc, item) SideSell (side_orders s (loc, item) SideSell)
          (resting_order s SideSell seller loc item price n qty now1 now2 (svc_nextID s)) p))"
proof -
  let ?k = "(loc, item)"
  obtain s1 ob where g: "GetBook s loc item = (s1, ob)" by fastforce
  note gb = GetBook_spec [OF inv g] and side = GetBook_side [OF inv g]
  define st where "st = match_loop (\<lambda>b. o_Price b < price) (sell_event seller loc item) 0
      (match_init (side_of SideBuy ob) s1 qty)"
  define ob' where "ob' = ob\<lparr>Buys := ms_side st\<rparr>"
  define s2 where "s2 = matched s1 ?k SideBuy ob st"
  note check' = check_placeD [OF check]
  have m: "svc_inv s2" "frame (set (side_of SideBuy ob)) (svc_heap s1) st"
    using match_loop_matched [OF gb(1,2) _ st_def] by (simp_all add: s2_def)
  have f: "map (ms_heap st) (ms_side st) = ys" "ms_remaining st = n"
    "ms_matches st = sell_events seller loc item fs"
    "fill_ok (\<lambda>b. o_Price b < price) qty (side_orders s ?k SideBuy) ys n fs"
    using match_loop_service [OF gb(1,2) _ _ qty st_def fill [folded side]] check'(2)
    unfolding side sell_events_def by simp_all
  have ob': "ob' = set_side SideBuy (ms_side st) ob" by (simp add: ob'_def set_side_def)
  have sells: "map (ms_heap st) (Sells ob) = side_orders s ?k SideSell"
    using other_side_kept [OF gb(1,2) m(2), of SideSell] unfolding side by simp
  have s2: "svc_books s2 ?k = Some ob'" "svc_heap s2 = ms_heap st" "svc_nextPtr s2 = svc_nextPtr s"
    "svc_nextID s2 = svc_nextID s" "svc_cfg s2 = svc_cfg s"
    by (simp_all add: s2_def matched_def ob' gb)
  have s2eq: "(put_book s1 ?k ob')\<lparr>svc_orders := ms_orders st, svc_heap := ms_heap st\<rparr> = s2"
    by (simp add: s2_def matched_def put_side_def put_book_def ob')
  have others: "others_kept s s2 ?k" unfolding s2_def by (rule matched_others [OF inv g _ m(2)]) simp
  show ?thesis
  proof (cases "n = 0")
    case True
    then have "s' = s2" "res = Inr (sell_events seller loc item fs, None)"
      using run f s2eq by (simp_all add: PlaceSellOrder_def check g Let_def st_def ob'_def)
    then show ?thesis using True m(1) others s2 f(1) sells by (simp add: side_orders_def ob'_def)
  next
    case False
    define r where "r = resting_order s SideSell seller loc item price n qty now1 now2 (svc_nextID s)"
    have n: "0 < n" "n \<le> qty" using fill_ok_bounds [OF f(4)] False by auto
    have "sorted_wrt buy_le (map (ms_heap st) (ms_side st))"
      using svc_invD(6) [OF m(1) s2(1)] by (simp add: book_ok_def book_sorted_def s2 ob'_def)
    moreover have "ms_side st = [] \<or> o_Price (hd (map (ms_heap st) (ms_side st))) < price"
      using f(1,4) n by (auto simp: fill_ok_def)
    ultimately have "\<forall>q \<in> set (ms_side st). o_Price (ms_heap st q) < price" by (rule buys_below)
    then have may: "may_rest s2 ?k SideSell ob' r (svc_nextID s + 1)"
      using s2 n check' qty fresh_id [OF m(1)] word_less_inc [OF nid]
      by (auto simp: may_rest_def r_def resting_order_def order_key_def ob'_def in_i32_def)
    obtain ps where ps: "InsertSell ((svc_heap s2)(svc_nextPtr s2 := r)) (svc_nextPtr s2) ob' = set_side SideSell ps ob'"
      "placed sell_le ((svc_heap s2)(svc_nextPtr s2 := r)) (svc_nextPtr s2) (Sells ob') ps"
      "svc_inv (rest_state s2 ?k SideSell ob' ps r (svc_nextID s + 1))"
      by (rule rest_sell [OF m(1) may refl refl])
    have "s' = rest_state s2 ?k SideSell ob' ps r (svc_nextID s + 1)"
      "res = Inr (sell_events seller loc item fs, Some (svc_nextPtr s2))"
      using run f(2,3) n ps(1) s2
      unfolding PlaceSellOrder_def check g Let_def prod.case option.case side_of_simps [symmetric] st_def [symmetric]
        ob'_def [symmetric] s2eq
      by (auto simp: allocID_def alloc_order_def index_order_def put_book_def r_def resting_order_def
          rest_state_def put_side_def)
    then show ?thesis
      using False ps(3) rest_state_rests_at [OF m(1) may, of ps] ps(2) sells f(1) s2(2) rest_others [OF inv others s2(3)]
      by (simp add: ob'_def r_def)
  qed
qed

text \<open>A limit buy: the mirror image.\<close>

lemma PlaceBuyOrder_spec:
  assumes inv: "svc_inv s" and check: "check_place s buyer price qty = None" and qty: "in_i32 qty"
    and nid: "svc_nextID s + 1 \<noteq> 0"
    and fill: "fill (\<lambda>b. o_Price b > price) qty (side_orders s (loc, item) SideSell) = (ys, n, fs)"
    and run: "PlaceBuyOrder s buyer loc item price qty now1 now2 = (s', res)"
  shows "svc_inv s' \<and> others_kept s s' (loc, item) \<and> side_orders s' (loc, item) SideSell = ys \<and>
    (if n = 0 then res = Inr (buy_events buyer loc item fs, None) \<and>
        side_orders s' (loc, item) SideBuy = side_orders s (loc, item) SideBuy
     else (\<exists>p. res = Inr (buy_events buyer loc item fs, Some p) \<and>
        rests_at s' (loc, item) SideBuy (side_orders s (loc, item) SideBuy)
          (resting_order s SideBuy buyer loc item price n qty now1 now2 (svc_nextID s)) p))"
proof -
  let ?k = "(loc, item)"
  obtain s1 ob where g: "GetBook s loc item = (s1, ob)" by fastforce
  note gb = GetBook_spec [OF inv g] and side = GetBook_side [OF inv g]
  define st where "st = match_loop (\<lambda>b. o_Price b > price) (buy_event buyer loc item) 0
      (match_init (side_of SideSell ob) s1 qty)"
  define ob' where "ob' = ob\<lparr>Sells := ms_side st\<rparr>"
  define s2 where "s2 = matched s1 ?k SideSell ob st"
  note check' = check_placeD [OF check]
  have m: "svc_inv s2" "frame (set (side_of SideSell ob)) (svc_heap s1) st"
    using match_loop_matched [OF gb(1,2) _ st_def] by (simp_all add: s2_def)
  have f: "map (ms_heap st) (ms_side st) = ys" "ms_remaining st = n"
    "ms_matches st = buy_events buyer loc item fs"
    "fill_ok (\<lambda>b. o_Price b > price) qty (side_orders s ?k SideSell) ys n fs"
    using match_loop_service [OF gb(1,2) _ _ qty st_def fill [folded side]] check'(2)
    unfolding side buy_events_def by simp_all
  have ob': "ob' = set_side SideSell (ms_side st) ob" by (simp add: ob'_def set_side_def)
  have buys: "map (ms_heap st) (Buys ob) = side_orders s ?k SideBuy"
    using other_side_kept [OF gb(1,2) m(2), of SideBuy] unfolding side by simp
  have s2: "svc_books s2 ?k = Some ob'" "svc_heap s2 = ms_heap st" "svc_nextPtr s2 = svc_nextPtr s"
    "svc_nextID s2 = svc_nextID s" "svc_cfg s2 = svc_cfg s"
    by (simp_all add: s2_def matched_def ob' gb)
  have s2eq: "(put_book s1 ?k ob')\<lparr>svc_orders := ms_orders st, svc_heap := ms_heap st\<rparr> = s2"
    by (simp add: s2_def matched_def put_side_def put_book_def ob')
  have others: "others_kept s s2 ?k" unfolding s2_def by (rule matched_others [OF inv g _ m(2)]) simp
  show ?thesis
  proof (cases "n = 0")
    case True
    then have "s' = s2" "res = Inr (buy_events buyer loc item fs, None)"
      using run f s2eq by (simp_all add: PlaceBuyOrder_def check g Let_def st_def ob'_def)
    then show ?thesis using True m(1) others s2 f(1) buys by (simp add: side_orders_def ob'_def)
  next
    case False
    define r where "r = resting_order s SideBuy buyer loc item price n qty now1 now2 (svc_nextID s)"
    have n: "0 < n" "n \<le> qty" using fill_ok_bounds [OF f(4)] False by auto
    have "sorted_wrt sell_le (map (ms_heap st) (ms_side st))"
      using svc_invD(6) [OF m(1) s2(1)] by (simp add: book_ok_def book_sorted_def s2 ob'_def)
    moreover have "ms_side st = [] \<or> o_Price (hd (map (ms_heap st) (ms_side st))) > price"
      using f(1,4) n by (auto simp: fill_ok_def)
    ultimately have "\<forall>q \<in> set (ms_side st). o_Price (ms_heap st q) > price" by (rule sells_above)
    then have may: "may_rest s2 ?k SideBuy ob' r (svc_nextID s + 1)"
      using s2 n check' qty fresh_id [OF m(1)] word_less_inc [OF nid]
      by (auto simp: may_rest_def r_def resting_order_def order_key_def ob'_def in_i32_def)
    obtain ps where ps: "InsertBuy ((svc_heap s2)(svc_nextPtr s2 := r)) (svc_nextPtr s2) ob' = set_side SideBuy ps ob'"
      "placed buy_le ((svc_heap s2)(svc_nextPtr s2 := r)) (svc_nextPtr s2) (Buys ob') ps"
      "svc_inv (rest_state s2 ?k SideBuy ob' ps r (svc_nextID s + 1))"
      by (rule rest_buy [OF m(1) may refl refl])
    have "s' = rest_state s2 ?k SideBuy ob' ps r (svc_nextID s + 1)"
      "res = Inr (buy_events buyer loc item fs, Some (svc_nextPtr s2))"
      using run f(2,3) n ps(1) s2
      unfolding PlaceBuyOrder_def check g Let_def prod.case option.case side_of_simps [symmetric] st_def [symmetric]
        ob'_def [symmetric] s2eq
      by (auto simp: allocID_def alloc_order_def index_order_def put_book_def r_def resting_order_def
          rest_state_def put_side_def)
    then show ?thesis
      using False ps(3) rest_state_rests_at [OF m(1) may, of ps] ps(2) buys f(1) s2(2) rest_others [OF inv others s2(3)]
      by (simp add: ob'_def r_def)
  qed
qed

end
