(* ===== verification/OrderLifecycle.thy ===== *)
theory OrderLifecycle
  imports OrderService
begin

text \<open>
  The remaining operations of the order service (instant trades, cancellation, expiry,
  loading), and the properties of the service as a whole: every state it can reach satisfies
  the invariant, matching is the price-time fill, and an order leaves exactly once.
\<close>

section \<open>Instant trades\<close>

lemma InstantSell_spec:
  assumes inv: "svc_inv s" and qty: "0 < qty" "in_i32 qty"
    and fill: "fill (\<lambda>_. False) qty (side_orders s (loc, item) SideBuy) = (ys, n, fs)"
    and run: "InstantSell s seller loc item qty = (s', res)"
  shows "svc_inv s' \<and> others_kept s s' (loc, item) \<and> res = Inr (sell_events seller loc item fs) \<and>
    side_orders s' (loc, item) SideBuy = ys \<and>
    side_orders s' (loc, item) SideSell = side_orders s (loc, item) SideSell"
proof -
  let ?k = "(loc, item)"
  obtain s1 ob where g: "GetBook s loc item = (s1, ob)" by fastforce
  note gb = GetBook_spec [OF inv g] and side = GetBook_side [OF inv g]
  define st where "st = match_loop (\<lambda>_. False) (sell_event seller loc item) 0
      (match_init (side_of SideBuy ob) s1 qty)"
  have m: "svc_inv (matched s1 ?k SideBuy ob st)" "frame (set (side_of SideBuy ob)) (svc_heap s1) st"
    using match_loop_matched [OF gb(1,2) _ st_def] by simp_all
  have f: "map (ms_heap st) (ms_side st) = ys" "ms_matches st = sell_events seller loc item fs"
    using match_loop_service [OF gb(1,2) _ _ qty(2) st_def fill [folded side]] qty
    unfolding sell_events_def by simp_all
  have sells: "map (ms_heap st) (Sells ob) = side_orders s ?k SideSell"
    using other_side_kept [OF gb(1,2) m(2), of SideSell] unfolding side by simp
  have "s' = matched s1 ?k SideBuy ob st" "res = Inr (ms_matches st)"
    using run qty by (auto simp: InstantSell_def g st_def Let_def matched_def put_side_def put_book_def set_side_def)
  then show ?thesis using m(1) f sells matched_others [OF inv g _ m(2)] by (simp add: side_orders_def matched_def) (simp add: set_side_def)
qed

text \<open>Without a positive budget the purchase takes every order it can, at any price.\<close>

lemma budget_loop_unlimited:
  "maxCost \<le> 0 \<Longrightarrow> budget_loop maxCost ev i spent st = (match_loop (\<lambda>_. False) ev i st, False)"
proof (induction maxCost ev i spent st rule: budget_loop.induct)
  case (1 maxCost ev i spent st)
  let ?r = "ms_heap st (ms_side st ! i)"
  let ?q = "trade_qty (ms_remaining st) ?r"
  have cut: "budget_cut maxCost spent (o_Price ?r) ?q = Trade ?q spent" using "1.prems" by (simp add: budget_cut_def)
  obtain j st' where f: "fill_at i ?q (ev ?q ?r) st = (j, st')" by fastforce
  show ?case
  proof (cases "i < length (ms_side st) \<and> ms_remaining st > 0")
    case True
    then show ?thesis
      using "1.IH" [OF True refl cut f [symmetric]] "1.prems" f cut
      by (simp add: budget_loop.simps [of _ _ i] match_loop.simps [of _ _ i] Let_def)
  qed (auto simp: budget_loop.simps [of _ _ i] match_loop.simps [of _ _ i])
qed

lemma sells_priced:
  assumes "svc_inv s" and "svc_books s k = Some ob" and "0 < MinPrice (svc_cfg s)"
    and "\<forall>x \<in> set (map (svc_heap s) (Sells ob)). maxCost + o_Price x * o_Quantity x < 2^63"
  shows "priced maxCost (map (svc_heap s) (Sells ob))"
proof -
  have "sorted_wrt sell_le (map (svc_heap s) (Sells ob))"
    using svc_invD(6) [OF assms(1,2)] by (simp add: book_ok_def book_sorted_def)
  then have "sorted_wrt (\<lambda>x y. o_Price x \<le> o_Price y) (map (svc_heap s) (Sells ob))"
    by (rule sorted_wrt_mono_rel [rotated]) (auto simp: sell_le_def)
  moreover have "\<forall>p \<in> set (Sells ob). ptr_ok s k SideSell p"
    using svc_invD(5) [OF assms(1)] rests_here [OF assms(2), of SideSell] by auto
  ultimately show ?thesis using assms(3,4) by (auto simp: priced_def ptr_ok_def Let_def)
qed

lemma budget_loop_matched:
  assumes "svc_inv s" and "svc_books s k = Some ob"
    and "budget_loop maxCost ev 0 0 (match_init (Sells ob) s qty) = (st, panicked)"
  shows "svc_inv (matched s k SideSell ob st)" and "frame (set (Sells ob)) (svc_heap s) st"
    and "0 < MinPrice (svc_cfg s) \<Longrightarrow> \<not> panicked"
proof -
  let ?P = "\<lambda>st. svc_inv (matched s k SideSell ob st) \<and> frame (set (Sells ob)) (svc_heap s) st"
  have keeps: "fill_keeps ?P" by (intro fill_keeps_conj fill_keeps_frame fill_keeps_matched [OF assms(2)]) simp
  have live: "\<And>st. ?P st \<Longrightarrow> live_side_of st" using matched_live [OF _ assms(2)] by blast
  have init: "?P (match_init (Sells ob) s qty)"
    using matched_init [OF assms(2), of SideSell] assms(1) by (simp add: match_init_def frame_def)
  have st: "?P st \<and> (panicked \<longrightarrow> (\<exists>p \<in> set (ms_side st). o_Price (ms_heap st p) = 0))"
    by (rule budget_loop_keeps [OF keeps live init assms(3)])
  then show "svc_inv (matched s k SideSell ob st)" "frame (set (Sells ob)) (svc_heap s) st" by simp_all
  then show "\<not> panicked" if "0 < MinPrice (svc_cfg s)"
    using st that matched_ptr_ok(3) [OF _ _ assms(2), of SideSell st] by fastforce
qed

lemma InstantBuy_spec:
  assumes inv: "svc_inv s" and qty: "0 < qty" "in_i32 qty" and price: "0 < MinPrice (svc_cfg s)"
    and small: "\<forall>x \<in> set (side_orders s (loc, item) SideSell). maxCost + o_Price x * o_Quantity x < 2^63"
    and fill: "(if 0 < maxCost then budget_fill maxCost qty (side_orders s (loc, item) SideSell)
      else fill (\<lambda>_. False) qty (side_orders s (loc, item) SideSell)) = (ys, n, fs)"
    and run: "InstantBuy s buyer loc item qty maxCost = (s', res)"
  shows "svc_inv s' \<and> others_kept s s' (loc, item) \<and> res = Inr (buy_events buyer loc item fs) \<and>
    side_orders s' (loc, item) SideSell = ys \<and>
    side_orders s' (loc, item) SideBuy = side_orders s (loc, item) SideBuy"
proof -
  let ?k = "(loc, item)"
  obtain s1 ob where g: "GetBook s loc item = (s1, ob)" by fastforce
  note gb = GetBook_spec [OF inv g] and side = GetBook_side [OF inv g]
  note side1 = side [of SideSell, simplified]
  let ?init = "match_init (Sells ob) s1 qty"
  obtain st panicked where l: "budget_loop maxCost (buy_event buyer loc item) 0 0 ?init = (st, panicked)" by fastforce
  have price1: "0 < MinPrice (svc_cfg s1)" and small1: "\<forall>x \<in> set (map (svc_heap s1) (Sells ob)). maxCost + o_Price x * o_Quantity x < 2^63"
    using price small by (simp_all only: side1 gb(5))
  have m: "svc_inv (matched s1 ?k SideSell ob st)" "frame (set (Sells ob)) (svc_heap s1) st" "\<not> panicked"
    using budget_loop_matched [OF gb(1,2) l] price1 by simp_all
  have f: "map (ms_heap st) (ms_side st) = ys" "ms_matches st = buy_events buyer loc item fs"
  proof (atomize (full), cases "0 < maxCost")
    case True
    have i: "live (ms_heap ?init) (ms_side ?init)" "priced maxCost (map (ms_heap ?init) (ms_side ?init))"
      "budget_fill (maxCost - 0) (ms_remaining ?init) (map (ms_heap ?init) (ms_side ?init)) = (ys, n, fs)"
      using live_side [OF gb(1,2), of SideSell] sells_priced [OF gb(1,2) price1 small1] fill True side1
      by (simp_all add: match_init_def)
    show "map (ms_heap st) (ms_side st) = ys \<and> ms_matches st = buy_events buyer loc item fs"
      using budget_loop_fill [OF i(1) _ _ i(2) True _ _ i(3) l] qty True
      by (simp add: match_init_def buy_events_def)
  next
    case False
    have "st = match_loop (\<lambda>_. False) (buy_event buyer loc item) 0 (match_init (side_of SideSell ob) s1 qty)"
      using l budget_loop_unlimited [of maxCost] False by simp
    from match_loop_service [OF gb(1,2) _ _ qty(2) this, of ys n fs]
    show "map (ms_heap st) (ms_side st) = ys \<and> ms_matches st = buy_events buyer loc item fs"
      using fill False qty unfolding side buy_events_def by simp
  qed
  have buys: "map (ms_heap st) (Buys ob) = side_orders s ?k SideBuy"
    using other_side_kept [OF gb(1,2), of SideSell st SideBuy] m(2) unfolding side by simp
  have "s' = matched s1 ?k SideSell ob st" "res = Inr (ms_matches st)"
    using run qty m(3) l
    by (auto simp: InstantBuy_def g Let_def matched_def put_side_def put_book_def set_side_def)
  then show ?thesis using m(1) f buys matched_others [OF inv g, of SideSell st] m(2) by (simp add: side_orders_def matched_def) (simp add: set_side_def)
qed

section \<open>Cancellation and expiry\<close>

definition keep :: "(ptr \<Rightarrow> bool) \<Rightarrow> order_book \<Rightarrow> order_book" where
  "keep f ob = ob\<lparr>Sells := filter f (Sells ob), Buys := filter f (Buys ob)\<rparr>"

text \<open>Dropping an order takes it, and nothing else, out of every book and out of the index.\<close>

lemma remove_first_unique:
  assumes "distinct ps" and "\<And>q. q \<in> set ps \<Longrightarrow> o_ID (h q) = oid \<longleftrightarrow> q = p"
  shows "remove_first h oid ps = (if p \<in> set ps then Some (filter (\<lambda>q. q \<noteq> p) ps, p) else None)"
  using assms
proof (induction ps)
  case (Cons a ps)
  then have IH: "remove_first h oid ps = (if p \<in> set ps then Some (filter (\<lambda>q. q \<noteq> p) ps, p) else None)"
    and a: "o_ID (h a) = oid \<longleftrightarrow> a = p" by simp_all
  have "a = p \<Longrightarrow> filter (\<lambda>q. q \<noteq> p) ps = ps" using Cons.prems(1) by (auto intro: filter_True)
  with IH a show ?case by auto
qed simp

lemma indexed_rests:
  assumes "svc_inv s" and "map_of (svc_orders s) oid = Some p"
  obtains ob where "svc_books s (order_key (svc_heap s p)) = Some ob"
    and "o_Side (svc_heap s p) \<in> {SideSell, SideBuy}" and "p \<in> set (side_of (o_Side (svc_heap s p)) ob)"
    and "o_ID (svc_heap s p) = oid"
  using svc_invD(2,4) [OF assms] by (auto simp: rests_def)

lemma RemoveOrder_keep:
  assumes inv: "svc_inv s" and idx: "map_of (svc_orders s) oid = Some p"
    and ob: "svc_books s (order_key (svc_heap s p)) = Some ob"
  shows "RemoveOrder (svc_heap s) oid ob = (keep (\<lambda>q. q \<noteq> p) ob, Some p)"
proof -
  have id: "o_ID (svc_heap s q) = oid \<longleftrightarrow> q = p"
    if "q \<in> set (side_of sd ob)" "sd \<in> {SideSell, SideBuy}" for q sd
  proof -
    have "rests s (order_key (svc_heap s p)) sd q" using that rests_here [OF ob] by simp
    then show ?thesis using rests_unique [OF inv _ svc_invD(4) [OF inv idx]] svc_invD(2) [OF inv idx] by metis
  qed
  have bok: "distinct (Sells ob)" "distinct (Buys ob)"
    using svc_invD(6) [OF inv ob] by (simp_all add: book_ok_def)
  have "p \<in> set (Sells ob) \<or> p \<in> set (Buys ob)"
    by (rule indexed_rests [OF inv idx]) (use ob in auto)
  moreover have "p \<notin> set (Sells ob) \<or> p \<notin> set (Buys ob)"
    using rests_unique [OF inv, of _ SideSell p _ SideBuy p] rests_here [OF ob] by (metis insertCI side_of_simps sides_differ(1))
  moreover have "p \<notin> set ps \<Longrightarrow> filter (\<lambda>q. q \<noteq> p) ps = ps" for ps by (induction ps) auto
  ultimately show ?thesis
    using remove_first_unique [OF bok(1), of "svc_heap s" oid p] remove_first_unique [OF bok(2), of "svc_heap s" oid p]
      id [of _ SideSell] id [of _ SideBuy]
    by (auto simp: RemoveOrder_def keep_def)
qed

lemma drop_order_spec:
  assumes inv: "svc_inv s" and idx: "map_of (svc_orders s) oid = Some p" and s': "s' = drop_order s oid p"
  shows "svc_inv s'" and "svc_books s' = (\<lambda>k. map_option (keep (\<lambda>q. q \<noteq> p)) (svc_books s k))"
    and "svc_orders s' = AList.delete oid (svc_orders s)"
    and "svc_heap s' = svc_heap s" and "svc_cfg s' = svc_cfg s" and "svc_nextID s' = svc_nextID s"
    and "svc_nextPtr s' = svc_nextPtr s"
proof -
  let ?k = "order_key (svc_heap s p)" and ?sd = "o_Side (svc_heap s p)"
  obtain ob where ob: "svc_books s ?k = Some ob" and sd: "?sd \<in> {SideSell, SideBuy}"
    and mem: "p \<in> set (side_of ?sd ob)" and id: "o_ID (svc_heap s p) = oid"
    by (rule indexed_rests [OF inv idx])
  obtain xs ys where side: "side_of ?sd ob = xs @ p # ys" using mem by (metis split_list)
  have other: "q \<noteq> p" if "rests s k sd q" "(k, sd) \<noteq> (?k, ?sd)" for k sd q
    using rests_unique [OF inv that(1) svc_invD(4) [OF inv idx]] that(2) by blast
  have noop: "p \<notin> set ps \<Longrightarrow> filter (\<lambda>q. q \<noteq> p) ps = ps" for ps by (induction ps) auto
  have "distinct (side_of ?sd ob)" using svc_invD(6) [OF inv ob] sd by (auto simp: book_ok_def)
  then have "filter (\<lambda>q. q \<noteq> p) (side_of ?sd ob) = xs @ ys" using side noop by simp
  moreover have "p \<notin> set (side_of sd' ob)" if "sd' \<in> {SideSell, SideBuy}" "sd' \<noteq> ?sd" for sd'
    using other [of ?k sd' p] rests_here [OF ob that(1)] that(2) by blast
  ultimately have set: "keep (\<lambda>q. q \<noteq> p) ob = set_side ?sd (xs @ ys) ob"
    using sd noop by (auto simp: keep_def set_side_def)
  have eq: "s' = put_side s ?k ?sd ob (xs @ ys) (AList.delete oid (svc_orders s)) (svc_heap s)"
    using RemoveOrder_keep [OF inv idx ob] ob
    by (simp add: s' drop_order_def Let_def order_key_def set [symmetric] put_side_def put_book_def)
  show "svc_inv s'"
    using remove_keeps [OF inv ob sd side, of "svc_heap s p"] by (simp add: eq id)
  have "keep (\<lambda>q. q \<noteq> p) ob' = ob'" if "svc_books s k = Some ob'" "k \<noteq> ?k" for k ob'
  proof -
    have "p \<notin> set (Sells ob')" "p \<notin> set (Buys ob')"
      using other [of k SideSell p] other [of k SideBuy p] rests_here [OF that(1)] that(2) by auto
    then show ?thesis using noop by (simp add: keep_def)
  qed
  then show "svc_books s' = (\<lambda>k. map_option (keep (\<lambda>q. q \<noteq> p)) (svc_books s k))"
    by (intro ext) (auto simp: eq set ob map_option_case split: option.splits)
qed (use RemoveOrder_keep [OF inv idx] in \<open>auto simp: s' drop_order_def Let_def put_book_def split: option.splits\<close>)

definition due :: "int \<Rightarrow> order \<Rightarrow> bool" where
  "due now r \<longleftrightarrow> o_ExpiresAt r > 0 \<and> now \<ge> o_ExpiresAt r"

text \<open>The pointers a range over \<open>ids\<close> finds expired.\<close>

definition due_ptrs :: "service \<Rightarrow> u64 list \<Rightarrow> int \<Rightarrow> ptr list" where
  "due_ptrs s ids now =
     List.map_filter (\<lambda>i. case map_of (svc_orders s) i of
        Some p \<Rightarrow> if due now (svc_heap s p) then Some p else None | None \<Rightarrow> None) ids"

lemma keep_cong: "(\<And>p. p \<in> set (Sells ob) \<union> set (Buys ob) \<Longrightarrow> f p = g p) \<Longrightarrow> keep f ob = keep g ob"
  by (simp add: keep_def cong: filter_cong)

lemma keep_keep: "keep f (keep g ob) = keep (\<lambda>q. g q \<and> f q) ob"
  by (simp add: keep_def)

lemma due_ptrs_Cons:
  "due_ptrs s (i # ids) now =
     (case map_of (svc_orders s) i of
        Some p \<Rightarrow> if due now (svc_heap s p) then p # due_ptrs s ids now else due_ptrs s ids now
      | None \<Rightarrow> due_ptrs s ids now)"
  by (simp add: due_ptrs_def List.map_filter_simps split: option.splits)

lemma set_due_ptrs:
  "p \<in> set (due_ptrs s ids now) \<longleftrightarrow>
    (\<exists>i \<in> set ids. map_of (svc_orders s) i = Some p \<and> due now (svc_heap s p))"
proof (induction ids)
  case Nil
  then show ?case by (simp add: due_ptrs_def List.map_filter_simps)
next
  case (Cons i ids)
  then show ?case by (auto simp: due_ptrs_Cons split: option.splits)
qed

lemma distinct_due_ptrs:
  assumes "svc_inv s" and "distinct ids"
  shows "distinct (due_ptrs s ids now)"
  using assms(2)
proof (induction ids)
  case Nil
  then show ?case by (simp add: due_ptrs_def List.map_filter_simps)
next
  case (Cons i ids)
  have "j = i" if "map_of (svc_orders s) i = Some p" "map_of (svc_orders s) j = Some p" for j p
    using svc_invD(2) [OF assms(1)] that by metis
  with Cons show ?case by (auto simp: due_ptrs_Cons set_due_ptrs split: option.splits)
qed

lemma due_ptrs_cong:
  "(\<And>i. i \<in> set ids \<Longrightarrow> map_of (svc_orders s) i = map_of (svc_orders s') i) \<Longrightarrow> svc_heap s = svc_heap s' \<Longrightarrow>
    due_ptrs s ids now = due_ptrs s' ids now"
  by (induction ids) (auto simp: due_ptrs_Cons due_ptrs_def List.map_filter_simps split: option.splits)

definition expired_state :: "service \<Rightarrow> ptr list \<Rightarrow> service \<Rightarrow> bool" where
  "expired_state s qs s' \<longleftrightarrow>
     svc_books s' = (\<lambda>k. map_option (keep (\<lambda>q. q \<notin> set qs)) (svc_books s k)) \<and>
     map_of (svc_orders s') = (\<lambda>i. case map_of (svc_orders s) i of
        Some p \<Rightarrow> if p \<in> set qs then None else Some p | None \<Rightarrow> None) \<and>
     svc_heap s' = svc_heap s \<and> svc_cfg s' = svc_cfg s \<and> svc_nextID s' = svc_nextID s \<and>
     svc_nextPtr s' = svc_nextPtr s"

lemma expire_step_cases:
  "expire_step now i (s, acc) =
     (case map_of (svc_orders s) i of
        Some p \<Rightarrow> if due now (svc_heap s p) then (drop_order s i p, acc @ [p]) else (s, acc)
      | None \<Rightarrow> (s, acc))"
  by (auto simp: expire_step_def due_def split: option.splits)

lemma expire_fold:
  assumes "svc_inv s" and "distinct ids" and "fold (expire_step now) ids (s, acc) = (s', qs)"
  shows "svc_inv s' \<and> qs = acc @ due_ptrs s ids now \<and> expired_state s (due_ptrs s ids now) s'"
  using assms
proof (induction ids arbitrary: s acc)
  case Nil
  have "map_option (keep (\<lambda>q. True)) x = x" for x by (cases x) (simp_all add: keep_def)
  with Nil show ?case
    by (auto simp: due_ptrs_def List.map_filter_simps expired_state_def fun_eq_iff option.map_ident split: option.splits)
next
  case (Cons i ids)
  show ?case
  proof (cases "\<exists>p. map_of (svc_orders s) i = Some p \<and> due now (svc_heap s p)")
    case False
    then have "fold (expire_step now) ids (s, acc) = (s', qs)" "due_ptrs s (i # ids) now = due_ptrs s ids now"
      using Cons.prems(3) by (auto simp: expire_step_cases due_ptrs_Cons split: option.splits)
    then show ?thesis using Cons.IH [OF Cons.prems(1)] Cons.prems(2) by simp
  next
    case True
    then obtain p where p: "map_of (svc_orders s) i = Some p" "due now (svc_heap s p)" by blast
    let ?d = "drop_order s i p"
    note d = drop_order_spec [OF Cons.prems(1) p(1) refl]
    have "fold (expire_step now) ids (?d, acc @ [p]) = (s', qs)"
      using Cons.prems(3) p by (simp add: expire_step_cases)
    from Cons.IH [OF d(1) _ this] Cons.prems(2)
    have IH: "svc_inv s'" "qs = acc @ p # due_ptrs ?d ids now" "expired_state ?d (due_ptrs ?d ids now) s'"
      by simp_all
    have same: "due_ptrs ?d ids now = due_ptrs s ids now"
      by (rule due_ptrs_cong) (use Cons.prems(2) d(3,4) in \<open>auto simp: delete_conv'\<close>)
    have only: "j = i" if "map_of (svc_orders s) j = Some p" for j
      using svc_invD(2) [OF Cons.prems(1)] that p(1) by metis
    have all: "due_ptrs s (i # ids) now = p # due_ptrs s ids now" using p by (simp add: due_ptrs_Cons)
    have books: "svc_books s' = (\<lambda>k. map_option (keep (\<lambda>q. q \<notin> set (p # due_ptrs s ids now))) (svc_books s k))"
      using IH(3) unfolding expired_state_def d same by (simp add: option.map_comp comp_def keep_keep)
    have "map_of (svc_orders s') j = (case map_of (svc_orders s) j of
        Some q \<Rightarrow> if q \<in> set (p # due_ptrs s ids now) then None else Some q | None \<Rightarrow> None)" for j
    proof (cases "j = i")
      case True
      then show ?thesis using IH(3) p(1) unfolding expired_state_def d same by (simp add: delete_conv')
    next
      case False
      then have "map_of (svc_orders s) j \<noteq> Some p" using only by blast
      with False show ?thesis
        using IH(3) unfolding expired_state_def d same by (auto simp: delete_conv' split: option.splits)
    qed
    with books have "expired_state s (p # due_ptrs s ids now) s'"
      using IH(3) unfolding expired_state_def d by blast
    then show ?thesis using IH same by (simp add: all)
  qed
qed

section \<open>Reachable states\<close>

text \<open>An order that may be loaded: valid on its own, of a new id below the counter, not crossing.\<close>

definition loadable :: "service \<Rightarrow> order \<Rightarrow> bool" where
  "loadable s r \<longleftrightarrow>
     o_Side r \<in> {SideSell, SideBuy} \<and> 0 < o_Quantity r \<and> in_i32 (o_Quantity r) \<and>
     MinPrice (svc_cfg s) \<le> o_Price r \<and> map_of (svc_orders s) (o_ID r) = None \<and> o_ID r < svc_nextID s \<and>
     (if o_Side r = SideSell then \<forall>x \<in> set (side_orders s (order_key r) SideBuy). o_Price x < o_Price r
      else \<forall>x \<in> set (side_orders s (order_key r) SideSell). o_Price r < o_Price x)"

lemma InsertLoadedOrder_inv:
  assumes inv: "svc_inv s" and load: "loadable s r"
  shows "svc_inv (InsertLoadedOrder s r)"
proof -
  let ?k = "order_key r" and ?h = "(svc_heap s)(svc_nextPtr s := r)"
  obtain s1 ob where g: "GetBook s (o_LocationID r) (o_ItemID r) = (s1, ob)" by fastforce
  note gb = GetBook_spec [OF inv g] and side = GetBook_side [OF inv g]
  have may: "may_rest s1 ?k (o_Side r) ob r (svc_nextID s)"
    using load gb(2) unfolding may_rest_def loadable_def order_key_def side [symmetric] gb(3-6)
    by auto
  have eq: "InsertLoadedOrder s r = rest_state s1 ?k (o_Side r) ob ps r (svc_nextID s)"
    if "(if o_Side r = SideSell then InsertSell ?h (svc_nextPtr s) ob else InsertBuy ?h (svc_nextPtr s) ob)
      = set_side (o_Side r) ps ob" for ps
    using g that
    by (auto simp: InsertLoadedOrder_def alloc_order_def index_order_def GetBook_def put_book_def order_key_def
        rest_state_def put_side_def Let_def split: option.splits)
  show ?thesis
  proof (cases "o_Side r = SideSell")
    case True
    obtain ps where "InsertSell ?h (svc_nextPtr s) ob = set_side SideSell ps ob"
      "svc_inv (rest_state s1 ?k SideSell ob ps r (svc_nextID s))"
      by (rule rest_sell [OF gb(1) may [unfolded True] refl refl, unfolded gb(4,7)])
    then show ?thesis using eq [of ps] True by simp
  next
    case False
    then have sd: "o_Side r = SideBuy" using load by (simp add: loadable_def)
    obtain ps where "InsertBuy ?h (svc_nextPtr s) ob = set_side SideBuy ps ob"
      "svc_inv (rest_state s1 ?k SideBuy ob ps r (svc_nextID s))"
      by (rule rest_buy [OF gb(1) may [unfolded sd] refl refl, unfolded gb(4,7)])
    then show ?thesis using eq [of ps] sd by simp
  qed
qed

text \<open>
  One call of the service. The side conditions are those of the Go types (\<open>int32\<close>
  quantities), that the id counter does not wrap past \<open>2^64 - 1\<close>, that a range visits no key
  twice, that the counter is only set forward, and that loaded orders are loadable.
\<close>

inductive svc_step :: "service \<Rightarrow> service \<Rightarrow> bool" where
  sell: "in_i32 qty \<Longrightarrow> svc_nextID s + 1 \<noteq> 0 \<Longrightarrow>
    svc_step s (fst (PlaceSellOrder s player loc item price qty now1 now2))"
| buy: "in_i32 qty \<Longrightarrow> svc_nextID s + 1 \<noteq> 0 \<Longrightarrow>
    svc_step s (fst (PlaceBuyOrder s player loc item price qty now1 now2))"
| instant_sell: "in_i32 qty \<Longrightarrow> svc_step s (fst (InstantSell s player loc item qty))"
| instant_buy: "in_i32 qty \<Longrightarrow> svc_step s (fst (InstantBuy s player loc item qty maxCost))"
| cancel: "svc_step s (fst (CancelOrder s player oid))"
| expire: "distinct ids \<Longrightarrow> svc_step s (fst (ExpireOrders s ids now))"
| browse: "svc_step s (fst (Browse s loc item))"
| alloc: "svc_nextID s + 1 \<noteq> 0 \<Longrightarrow> svc_step s (fst (AllocID s))"
| set_next: "svc_nextID s \<le> i \<Longrightarrow> svc_step s (SetNextID s i)"
| load: "loadable s r \<Longrightarrow> svc_step s (InsertLoadedOrder s r)"

inductive svc_reach :: "config \<Rightarrow> service \<Rightarrow> bool" for cfg where
  start: "svc_reach cfg (NewService cfg)"
| step: "svc_reach cfg s \<Longrightarrow> svc_step s s' \<Longrightarrow> svc_reach cfg s'"

lemma NewService_inv: "svc_inv (NewService cfg)"
  by (simp add: svc_inv_def NewService_def rests_def)

lemma nextID_inv:
  assumes "svc_inv s" and "svc_nextID s \<le> i"
  shows "svc_inv (s\<lparr>svc_nextID := i\<rparr>)"
proof -
  have "rests (s\<lparr>svc_nextID := i\<rparr>) = rests s" "ptr_ok (s\<lparr>svc_nextID := i\<rparr>) = ptr_ok s"
    by (intro ext; simp add: rests_def ptr_ok_def)+
  then show ?thesis using assms unfolding svc_inv_def by auto (meson order_less_le_trans)
qed

lemma PlaceSellOrder_inv:
  assumes "svc_inv s" and "in_i32 qty" and "svc_nextID s + 1 \<noteq> 0"
  shows "svc_inv (fst (PlaceSellOrder s seller loc item price qty now1 now2))"
proof (cases "check_place s seller price qty")
  case None
  obtain ys n fs where f: "fill (\<lambda>b. o_Price b < price) qty (side_orders s (loc, item) SideBuy) = (ys, n, fs)"
    by (metis prod_cases3)
  show ?thesis using PlaceSellOrder_spec [OF assms(1) None assms(2,3) f surjective_pairing] by blast
qed (use assms(1) in \<open>simp add: PlaceSellOrder_def\<close>)

lemma PlaceBuyOrder_inv:
  assumes "svc_inv s" and "in_i32 qty" and "svc_nextID s + 1 \<noteq> 0"
  shows "svc_inv (fst (PlaceBuyOrder s buyer loc item price qty now1 now2))"
proof (cases "check_place s buyer price qty")
  case None
  obtain ys n fs where f: "fill (\<lambda>b. o_Price b > price) qty (side_orders s (loc, item) SideSell) = (ys, n, fs)"
    by (metis prod_cases3)
  show ?thesis using PlaceBuyOrder_spec [OF assms(1) None assms(2,3) f surjective_pairing] by blast
qed (use assms(1) in \<open>simp add: PlaceBuyOrder_def\<close>)

lemma InstantSell_inv:
  assumes "svc_inv s" and "in_i32 qty"
  shows "svc_inv (fst (InstantSell s seller loc item qty))"
proof (cases "0 < qty")
  case True
  obtain ys n fs where f: "fill (\<lambda>_. False) qty (side_orders s (loc, item) SideBuy) = (ys, n, fs)"
    by (metis prod_cases3)
  show ?thesis using InstantSell_spec [OF assms(1) True assms(2) f surjective_pairing] by blast
qed (use assms(1) in \<open>simp add: InstantSell_def\<close>)

lemma InstantBuy_inv:
  assumes "svc_inv s"
  shows "svc_inv (fst (InstantBuy s buyer loc item qty maxCost))"
proof (cases "0 < qty")
  case True
  obtain s1 ob where g: "GetBook s loc item = (s1, ob)" by fastforce
  obtain st panicked where l:
    "budget_loop maxCost (buy_event buyer loc item) 0 0 (match_init (Sells ob) s1 qty) = (st, panicked)" by fastforce
  have "fst (InstantBuy s buyer loc item qty maxCost) = matched s1 (loc, item) SideSell ob st"
    using True g l by (simp add: InstantBuy_def matched_def put_side_def put_book_def set_side_def)
  then show ?thesis using budget_loop_matched(1) [OF GetBook_spec(1,2) [OF assms g] l] by simp
qed (use assms in \<open>simp add: InstantBuy_def\<close>)

lemma svc_step_inv: "svc_step s s' \<Longrightarrow> svc_inv s \<Longrightarrow> svc_inv s'"
proof (induction rule: svc_step.induct)
  case (cancel s player oid)
  then show ?case using drop_order_spec(1) by (auto simp: CancelOrder_def split: option.splits)
next
  case (expire ids s now)
  then show ?case
    using expire_fold [OF expire(2,1) surjective_pairing [symmetric, THEN sym]] by (simp add: ExpireOrders_def)
next
  case (browse s loc item)
  obtain s1 ob where g: "GetBook s loc item = (s1, ob)" by fastforce
  then show ?case using GetBook_spec(1) [OF browse g] by (simp add: Browse_def)
next
  case (alloc s)
  then show ?case using nextID_inv [of s "svc_nextID s + 1"] word_less_inc [of "svc_nextID s"]
    by (simp add: AllocID_def allocID_def)
next
  case (set_next s i)
  then show ?case by (simp add: SetNextID_def nextID_inv)
qed (simp_all add: PlaceSellOrder_inv PlaceBuyOrder_inv InstantSell_inv InstantBuy_inv InsertLoadedOrder_inv)

lemma side_orders_live:
  assumes "svc_inv s" and "x \<in> set (side_orders s k sd)" and "sd \<in> {SideSell, SideBuy}"
  shows "0 < o_Quantity x" and "in_i32 (o_Quantity x)" and "MinPrice (svc_cfg s) \<le> o_Price x"
proof -
  obtain ob p where "svc_books s k = Some ob" "p \<in> set (side_of sd ob)" "x = svc_heap s p"
    using assms(2) by (cases "svc_books s k") (auto simp: side_orders_def)
  then have "ptr_ok s k sd p" using svc_invD(5) [OF assms(1)] rests_here assms(3) by blast
  then show "0 < o_Quantity x" "in_i32 (o_Quantity x)" "MinPrice (svc_cfg s) \<le> o_Price x"
    using \<open>x = svc_heap s p\<close> by (simp_all add: ptr_ok_def Let_def)
qed

section \<open>Properties of the service\<close>

text \<open>
  C20. Every state the order service reaches from \<open>NewService\<close> by any sequence of its calls
  satisfies the invariant: the index and the books hold the same orders, each where its
  location, item and side say, once, with a positive quantity, at or above the minimum price
  and with an id below the counter; both sides of every book are in price-time order; and no
  book is crossed, the best bid being below the best ask.
\<close>

theorem reachable_service_invariant:
  assumes "svc_reach cfg s"
  shows "svc_inv s"
  using assms by (induction rule: svc_reach.induct) (auto simp: NewService_inv svc_step_inv)

text \<open>
  C21. A limit sell is the price-time fill of the buy side: it trades with the best buys
  first, whole orders before a partial one, at each buyer's own price and never below the
  limit; every unit is either traded or rests; what the buyers lose is what the seller sold;
  the rest is one new order with the next id, placed by priority among the sells; and the
  book stays uncrossed and sorted.
\<close>

theorem limit_sell_is_price_time_fill:
  assumes "svc_inv s" and "check_place s seller price qty = None" and "in_i32 qty"
    and "svc_nextID s + 1 \<noteq> 0"
    and "PlaceSellOrder s seller loc item price qty now1 now2 = (s', res)"
  shows "\<exists>ys n fs. fill_ok (\<lambda>b. o_Price b < price) qty (side_orders s (loc, item) SideBuy) ys n fs \<and>
    svc_inv s' \<and> others_kept s s' (loc, item) \<and> side_orders s' (loc, item) SideBuy = ys \<and>
    (if n = 0 then res = Inr (sell_events seller loc item fs, None) \<and>
        side_orders s' (loc, item) SideSell = side_orders s (loc, item) SideSell
     else (\<exists>p. res = Inr (sell_events seller loc item fs, Some p) \<and>
        rests_at s' (loc, item) SideSell (side_orders s (loc, item) SideSell)
          (resting_order s SideSell seller loc item price n qty now1 now2 (svc_nextID s)) p))"
proof -
  obtain ys n fs where f: "fill (\<lambda>b. o_Price b < price) qty (side_orders s (loc, item) SideBuy) = (ys, n, fs)"
    by (metis prod_cases3)
  have "fill_ok (\<lambda>b. o_Price b < price) qty (side_orders s (loc, item) SideBuy) ys n fs"
    using fill_spec [OF _ _ f] side_orders_live [OF assms(1)] check_placeD(2) [OF assms(2)] by simp
  with PlaceSellOrder_spec [OF assms(1-4) f assms(5)] show ?thesis by blast
qed

text \<open>
  A limit buy is the price-time fill of the sell side: the cheapest sells first, at each
  seller's own price and never above the limit; the rest is one new order with the next id,
  placed by priority among the buys; and the book stays uncrossed and sorted.
\<close>

theorem limit_buy_is_price_time_fill:
  assumes "svc_inv s" and "check_place s buyer price qty = None" and "in_i32 qty"
    and "svc_nextID s + 1 \<noteq> 0"
    and "PlaceBuyOrder s buyer loc item price qty now1 now2 = (s', res)"
  shows "\<exists>ys n fs. fill_ok (\<lambda>b. o_Price b > price) qty (side_orders s (loc, item) SideSell) ys n fs \<and>
    svc_inv s' \<and> others_kept s s' (loc, item) \<and> side_orders s' (loc, item) SideSell = ys \<and>
    (if n = 0 then res = Inr (buy_events buyer loc item fs, None) \<and>
        side_orders s' (loc, item) SideBuy = side_orders s (loc, item) SideBuy
     else (\<exists>p. res = Inr (buy_events buyer loc item fs, Some p) \<and>
        rests_at s' (loc, item) SideBuy (side_orders s (loc, item) SideBuy)
          (resting_order s SideBuy buyer loc item price n qty now1 now2 (svc_nextID s)) p))"
proof -
  obtain ys n fs where f: "fill (\<lambda>b. o_Price b > price) qty (side_orders s (loc, item) SideSell) = (ys, n, fs)"
    by (metis prod_cases3)
  have "fill_ok (\<lambda>b. o_Price b > price) qty (side_orders s (loc, item) SideSell) ys n fs"
    using fill_spec [OF _ _ f] side_orders_live [OF assms(1)] check_placeD(2) [OF assms(2)] by simp
  with PlaceBuyOrder_spec [OF assms(1-4) f assms(5)] show ?thesis by blast
qed

text \<open>
  C22. An instant buy with a positive budget never panics and never spends more than the
  budget; it takes a prefix of the sell side, cheapest first, and stops only when the wanted
  quantity is bought, the side is empty, or the next unit costs more than the money left;
  provided the minimum price is positive and no order is worth so much that
  \<open>budget + price * quantity\<close> leaves \<open>int64\<close>.
\<close>

theorem instant_buy_within_budget:
  assumes "svc_inv s" and "0 < qty" and "in_i32 qty" and "0 < maxCost" and "0 < MinPrice (svc_cfg s)"
    and "\<forall>x \<in> set (side_orders s (loc, item) SideSell). maxCost + o_Price x * o_Quantity x < 2^63"
    and "InstantBuy s buyer loc item qty maxCost = (s', res)"
  shows "\<exists>ys n fs. budget_ok maxCost qty (side_orders s (loc, item) SideSell) ys n fs \<and>
    svc_inv s' \<and> others_kept s s' (loc, item) \<and> res = Inr (buy_events buyer loc item fs) \<and>
    side_orders s' (loc, item) SideSell = ys \<and>
    side_orders s' (loc, item) SideBuy = side_orders s (loc, item) SideBuy"
proof -
  obtain ys n fs where f: "budget_fill maxCost qty (side_orders s (loc, item) SideSell) = (ys, n, fs)"
    by (metis prod_cases3)
  have "\<forall>x \<in> set (side_orders s (loc, item) SideSell). 0 < o_Quantity x \<and> 0 < o_Price x"
    using side_orders_live [OF assms(1)] assms(5) by fastforce
  then have "budget_ok maxCost qty (side_orders s (loc, item) SideSell) ys n fs"
    using budget_fill_spec [OF _ _ _ f] assms(2,4) by simp
  with InstantBuy_spec [OF assms(1-3,5,6) _ assms(7)] f assms(4) show ?thesis by auto
qed

text \<open>
  Cancelling succeeds exactly for the owner of an indexed order. It then takes that
  order, and nothing else, out of every book and the index, leaves every order object as it
  was, and a second cancellation of the same id finds nothing; a failed cancellation changes
  nothing.
\<close>

theorem cancel_removes_exactly_one_order:
  assumes "svc_inv s" and "CancelOrder s player oid = (s', res)"
  shows "case map_of (svc_orders s) oid of
      None \<Rightarrow> s' = s \<and> res = Inl (OrderNotFound oid)
    | Some p \<Rightarrow>
        if o_Owner (svc_heap s p) \<noteq> player then s' = s \<and> res = Inl (NotOwner oid player)
        else res = Inr p \<and> o_ID (svc_heap s p) = oid \<and> svc_inv s' \<and> svc_heap s' = svc_heap s \<and>
          map_of (svc_orders s') = (map_of (svc_orders s))(oid := None) \<and>
          svc_books s' = (\<lambda>k. map_option (keep (\<lambda>q. q \<noteq> p)) (svc_books s k)) \<and>
          CancelOrder s' player oid = (s', Inl (OrderNotFound oid))"
proof (cases "map_of (svc_orders s) oid")
  case None
  then show ?thesis using assms(2) by (simp add: CancelOrder_def)
next
  case (Some p)
  show ?thesis
  proof (cases "o_Owner (svc_heap s p) = player")
    case True
    then have d: "s' = drop_order s oid p" "res = Inr p" using assms(2) Some by (auto simp: CancelOrder_def)
    note sp = drop_order_spec [OF assms(1) Some d(1)]
    have idx: "map_of (svc_orders s') = (map_of (svc_orders s))(oid := None)" by (simp add: sp(3) delete_conv')
    then have "CancelOrder s' player oid = (s', Inl (OrderNotFound oid))" by (simp add: CancelOrder_def)
    with True Some d(2) sp(1,2,4) idx svc_invD(2) [OF assms(1) Some] show ?thesis by simp
  qed (use assms(2) Some in \<open>auto simp: CancelOrder_def\<close>)
qed

text \<open>
  C23. Expiry is independent of the order in which Go's \<open>range\<close> visits the index: for every
  enumeration of the keys, exactly the orders whose expiry is set and has passed leave the
  index and the books, each is returned once, and every other order, its place in its book
  included, is kept.
\<close>

theorem expiry_removes_exactly_due_orders:
  assumes "svc_inv s" and "distinct ids" and "set ids = fst ` set (svc_orders s)"
    and "ExpireOrders s ids now = (s', qs)"
  shows "svc_inv s' \<and> distinct qs \<and>
    set qs = {p. \<exists>i. map_of (svc_orders s) i = Some p \<and> due now (svc_heap s p)} \<and>
    svc_books s' = (\<lambda>k. map_option (keep (\<lambda>p. \<not> due now (svc_heap s p))) (svc_books s k)) \<and>
    map_of (svc_orders s') = (\<lambda>i. case map_of (svc_orders s) i of
      Some p \<Rightarrow> if due now (svc_heap s p) then None else Some p | None \<Rightarrow> None) \<and>
    svc_heap s' = svc_heap s"
proof -
  let ?qs = "due_ptrs s ids now"
  have e: "svc_inv s'" "qs = ?qs" "expired_state s ?qs s'"
    using expire_fold [OF assms(1,2)] assms(4) by (auto simp: ExpireOrders_def)
  have all: "p \<in> set ?qs \<longleftrightarrow> due now (svc_heap s p)" if "map_of (svc_orders s) i = Some p" for i p
    using that map_of_SomeD [OF that] assms(3) by (force simp: set_due_ptrs)
  have sub: "set ?qs = {p. \<exists>i. map_of (svc_orders s) i = Some p \<and> due now (svc_heap s p)}"
    using all set_due_ptrs [of _ s ids now] by blast
  have "keep (\<lambda>p. p \<notin> set ?qs) ob = keep (\<lambda>p. \<not> due now (svc_heap s p)) ob" if "svc_books s k = Some ob" for k ob
  proof -
    have "\<exists>i. map_of (svc_orders s) i = Some p" if "p \<in> set (Sells ob) \<union> set (Buys ob)" for p
      using svc_invD(5) [OF assms(1), of k SideSell p] svc_invD(5) [OF assms(1), of k SideBuy p]
        rests_here [OF \<open>svc_books s k = Some ob\<close>] that by (auto simp: ptr_ok_def Let_def)
    then show ?thesis using all by (intro keep_cong) blast
  qed
  then have "svc_books s' = (\<lambda>k. map_option (keep (\<lambda>p. \<not> due now (svc_heap s p))) (svc_books s k))"
    using e(3) by (auto simp: expired_state_def map_option_case split: option.splits)
  moreover have "map_of (svc_orders s') = (\<lambda>i. case map_of (svc_orders s) i of
      Some p \<Rightarrow> if due now (svc_heap s p) then None else Some p | None \<Rightarrow> None)"
    using e(3) all by (auto simp: expired_state_def split: option.splits)
  ultimately show ?thesis
    using e distinct_due_ptrs [OF assms(1,2)] sub by (simp add: expired_state_def)
qed

section \<open>A concrete run\<close>

text \<open>Bob bids 10 for 5 units of item 3 at location 7; then Ann asks 11 for 4 units.\<close>

definition demo_service :: service where
  "demo_service = fst (PlaceBuyOrder (NewService DefaultConfig) ''bob'' 7 3 10 5 100 100)"

definition demo_service2 :: service where
  "demo_service2 = fst (PlaceSellOrder demo_service ''ann'' 7 3 11 4 101 101)"

lemmas run_book =
  PlaceBuyOrder_def PlaceSellOrder_def InstantBuy_def check_place_def OrderCount_def NewService_def
  DefaultConfig_def GetBook_def match_init_def empty_book_def match_loop.simps budget_loop.simps
  budget_cut_def fill_at_def trade_qty_def put_book_def allocID_def alloc_order_def index_order_def
  resting_order_def InsertBuy_def InsertSell_def sort_search_def sort_search_from.simps insert_at_def
  remove_at_def wrap32_def wrap64_def Let_def

lemma demo_service_eq:
  "demo_service = \<lparr>svc_books = [(7, 3) \<mapsto> \<lparr>Sells = [], Buys = [0]\<rparr>], svc_orders = [(1, 0)],
     svc_cfg = DefaultConfig, svc_nextID = 2,
     svc_heap = (\<lambda>_. zero_order)(0 := \<lparr>o_ID = 1, o_Side = SideBuy, o_Owner = ''bob'', o_LocationID = 7,
       o_ItemID = 3, o_Price = 10, o_Quantity = 5, o_OrigQty = 5, o_CreatedAt = 100, o_ExpiresAt = 604900\<rparr>),
     svc_nextPtr = 1\<rparr>"
  by (simp add: demo_service_def run_book)

lemma demo_service_inv: "svc_inv demo_service"
  unfolding demo_service_def
  by (rule PlaceBuyOrder_inv [OF NewService_inv]) (simp_all add: in_i32_def NewService_def)

lemma demo_service2_eq:
  "demo_service2 = \<lparr>svc_books = [(7, 3) \<mapsto> \<lparr>Sells = [1], Buys = [0]\<rparr>], svc_orders = [(1, 0), (2, 1)],
     svc_cfg = DefaultConfig, svc_nextID = 3,
     svc_heap = (svc_heap demo_service)(1 := \<lparr>o_ID = 2, o_Side = SideSell, o_Owner = ''ann'', o_LocationID = 7,
       o_ItemID = 3, o_Price = 11, o_Quantity = 4, o_OrigQty = 4, o_CreatedAt = 101, o_ExpiresAt = 604901\<rparr>),
     svc_nextPtr = 2\<rparr>"
  unfolding demo_service2_def demo_service_eq by (simp add: run_book)

lemma demo_service2_inv: "svc_inv demo_service2"
  unfolding demo_service2_def
  by (rule PlaceSellOrder_inv [OF demo_service_inv]) (simp_all add: in_i32_def demo_service_eq)

theorem reachable_service_invariant_witness:
  "svc_reach DefaultConfig demo_service \<and> svc_inv demo_service"
proof -
  have "svc_step (NewService DefaultConfig) demo_service"
    unfolding demo_service_def by (rule svc_step.buy) (simp_all add: in_i32_def NewService_def)
  then have "svc_reach DefaultConfig demo_service" by (rule svc_reach.step [OF svc_reach.start])
  then show ?thesis using reachable_service_invariant by blast
qed

theorem limit_sell_witness:
  "\<exists>s' p. PlaceSellOrder demo_service ''ann'' 7 3 9 8 102 102
      = (s', Inr ([\<lparr>m_BuyOrderID = 1, m_SellOrderID = 0, m_BuyerID = ''bob'', m_SellerID = ''ann'', m_ItemID = 3,
          m_LocationID = 7, m_Quantity = 5, m_Price = 10\<rparr>], Some p)) \<and>
    svc_inv s' \<and> side_orders s' (7, 3) SideBuy = []"
proof -
  obtain s' res where run: "PlaceSellOrder demo_service ''ann'' 7 3 9 8 102 102 = (s', res)" by fastforce
  have "check_place demo_service ''ann'' 9 8 = None" "in_i32 8" "svc_nextID demo_service + 1 \<noteq> 0"
    by (simp_all add: demo_service_eq check_place_def OrderCount_def DefaultConfig_def in_i32_def)
  from limit_sell_is_price_time_fill [OF demo_service_inv this run] have "svc_inv s'" by blast
  with run show ?thesis
    unfolding demo_service_eq by (auto simp: run_book sell_event_def side_orders_def)
qed

theorem limit_buy_witness:
  "\<exists>s'. PlaceBuyOrder demo_service2 ''cid'' 7 3 12 3 102 102
      = (s', Inr ([\<lparr>m_BuyOrderID = 0, m_SellOrderID = 2, m_BuyerID = ''cid'', m_SellerID = ''ann'', m_ItemID = 3,
          m_LocationID = 7, m_Quantity = 3, m_Price = 11\<rparr>], None)) \<and> svc_inv s'"
proof -
  obtain s' res where run: "PlaceBuyOrder demo_service2 ''cid'' 7 3 12 3 102 102 = (s', res)" by fastforce
  have "check_place demo_service2 ''cid'' 12 3 = None" "in_i32 3" "svc_nextID demo_service2 + 1 \<noteq> 0"
    by (simp_all add: demo_service2_eq demo_service_eq check_place_def OrderCount_def DefaultConfig_def in_i32_def)
  from limit_buy_is_price_time_fill [OF demo_service2_inv this run] have "svc_inv s'" by blast
  with run show ?thesis
    unfolding demo_service2_eq demo_service_eq by (auto simp: run_book buy_event_def)
qed

theorem instant_buy_witness:
  "\<exists>s'. InstantBuy demo_service2 ''cid'' 7 3 4 25
      = (s', Inr [\<lparr>m_BuyOrderID = 0, m_SellOrderID = 2, m_BuyerID = ''cid'', m_SellerID = ''ann'', m_ItemID = 3,
          m_LocationID = 7, m_Quantity = 2, m_Price = 11\<rparr>]) \<and> svc_inv s'"
proof -
  obtain s' res where run: "InstantBuy demo_service2 ''cid'' 7 3 4 25 = (s', res)" by fastforce
  have "\<forall>x \<in> set (side_orders demo_service2 (7, 3) SideSell). 25 + o_Price x * o_Quantity x < 2^63"
    "0 < MinPrice (svc_cfg demo_service2)" "(0 :: int) < 4" "in_i32 4" "(0 :: int) < 25"
    by (simp_all add: demo_service2_eq side_orders_def DefaultConfig_def in_i32_def)
  from instant_buy_within_budget [OF demo_service2_inv this(3-5,2,1) run] have "svc_inv s'" by blast
  with run show ?thesis
    unfolding demo_service2_eq demo_service_eq by (auto simp: run_book buy_event_def go_div_def)
qed

theorem cancel_witness:
  "\<exists>s'. CancelOrder demo_service ''bob'' 1 = (s', Inr 0) \<and> svc_inv s' \<and> svc_orders s' = []"
proof -
  obtain s' res where run: "CancelOrder demo_service ''bob'' 1 = (s', res)" by fastforce
  have "svc_inv s' \<and> res = Inr 0"
    using cancel_removes_exactly_one_order [OF demo_service_inv run] by (simp add: demo_service_eq)
  with run show ?thesis
    unfolding demo_service_eq by (auto simp: CancelOrder_def drop_order_def RemoveOrder_def put_book_def Let_def)
qed

theorem expiry_witness:
  "\<exists>s'. ExpireOrders demo_service2 [2, 1] 604900 = (s', [0]) \<and> svc_inv s' \<and> svc_orders s' = [(2, 1)]"
proof -
  obtain s' qs where run: "ExpireOrders demo_service2 [2, 1] 604900 = (s', qs)" by fastforce
  have "distinct [2, 1 :: u64]" "set [2, 1] = fst ` set (svc_orders demo_service2)"
    by (auto simp: demo_service2_eq)
  from expiry_removes_exactly_due_orders [OF demo_service2_inv this run] have "svc_inv s'" by blast
  with run show ?thesis
    unfolding demo_service2_eq demo_service_eq
    by (auto simp: ExpireOrders_def expire_step_def drop_order_def RemoveOrder_def put_book_def Let_def)
qed

end
