(* ===== verification/OrderEscrow.thy ===== *)
theory OrderEscrow
  imports OrderLifecycle
begin

text \<open>
  Totals over the orders the service holds, and how the operations change them: the basis of
  the conservation theorems of the marketplace, which keeps the goods and the money behind
  resting orders in escrow.
\<close>

definition order_ptrs :: "service \<Rightarrow> ptr set" where
  "order_ptrs s = snd ` set (svc_orders s)"

definition escrow :: "(order \<Rightarrow> int) \<Rightarrow> service \<Rightarrow> int" where
  "escrow f s = (\<Sum>p \<in> order_ptrs s. f (svc_heap s p))"

lemma order_ptrs_indexed:
  assumes "svc_inv s"
  shows "p \<in> order_ptrs s \<longleftrightarrow> map_of (svc_orders s) (o_ID (svc_heap s p)) = Some p"
  using svc_invD(1,2) [OF assms] by (force simp: order_ptrs_def)

lemma order_ptrs_rests:
  assumes "svc_inv s"
  shows "p \<in> order_ptrs s \<longleftrightarrow> (\<exists>k sd. rests s k sd p)"
proof
  assume "p \<in> order_ptrs s"
  then show "\<exists>k sd. rests s k sd p" using svc_invD(4) [OF assms] order_ptrs_indexed [OF assms] by blast
next
  assume "\<exists>k sd. rests s k sd p"
  then show "p \<in> order_ptrs s"
    using svc_invD(5) [OF assms] order_ptrs_indexed [OF assms] unfolding ptr_ok_def Let_def by blast
qed

lemma finite_order_ptrs [simp]: "finite (order_ptrs s)"
  by (simp add: order_ptrs_def)

lemma side_sum:
  assumes "svc_inv s" and "sd \<in> {SideSell, SideBuy}"
  shows "(\<Sum>p | rests s k sd p. f (svc_heap s p)) = (\<Sum>x \<leftarrow> side_orders s k sd. f x)"
proof (cases "svc_books s k")
  case None
  then have "{p. rests s k sd p} = {}" by (simp add: rests_def)
  with None show ?thesis by (simp add: side_orders_def)
next
  case (Some ob)
  have "distinct (side_of sd ob)" using svc_invD(6) [OF assms(1) Some] assms(2) by (auto simp: book_ok_def)
  moreover have "{p. rests s k sd p} = set (side_of sd ob)" using rests_here [OF Some assms(2)] by auto
  ultimately show ?thesis
    using Some by (simp add: side_orders_def sum.distinct_set_conv_list comp_def)
qed

lemma escrow_split:
  assumes inv: "svc_inv s"
  shows "escrow f s = (\<Sum>x \<leftarrow> side_orders s k SideSell. f x) + (\<Sum>x \<leftarrow> side_orders s k SideBuy. f x) +
    (\<Sum>p | \<exists>k' sd. k' \<noteq> k \<and> rests s k' sd p. f (svc_heap s p))"
proof -
  let ?S = "{p. rests s k SideSell p}" and ?B = "{p. rests s k SideBuy p}"
    and ?R = "{p. \<exists>k' sd. k' \<noteq> k \<and> rests s k' sd p}"
  have sd: "rests s k' sd p \<Longrightarrow> sd = SideSell \<or> sd = SideBuy" for k' sd p by (auto simp: rests_def)
  have "p \<in> ?S \<union> (?B \<union> ?R)" if r: "rests s k' sd p" for p k' sd
  proof (cases "k' = k")
    case True
    then show ?thesis using r sd [OF r] by auto
  qed (use r in blast)
  then have all: "order_ptrs s = ?S \<union> (?B \<union> ?R)" using order_ptrs_rests [OF inv] by blast
  then have fin: "finite ?S" "finite ?B" "finite ?R" using finite_order_ptrs [of s] by (simp_all add: all)
  have disj: "?S \<inter> (?B \<union> ?R) = {}" "?B \<inter> ?R = {}" using rests_unique [OF inv] sides_differ(1) by blast+
  have "escrow f s = (\<Sum>p \<in> ?S. f (svc_heap s p)) + ((\<Sum>p \<in> ?B. f (svc_heap s p)) + (\<Sum>p \<in> ?R. f (svc_heap s p)))"
    unfolding escrow_def all using fin disj by (simp only: sum.union_disjoint finite_Un)
  moreover have "(\<Sum>p \<in> ?S. f (svc_heap s p)) = (\<Sum>x \<leftarrow> side_orders s k SideSell. f x)"
    "(\<Sum>p \<in> ?B. f (svc_heap s p)) = (\<Sum>x \<leftarrow> side_orders s k SideBuy. f x)"
    by (rule side_sum [OF inv]; simp)+
  ultimately show ?thesis by linarith
qed

text \<open>An operation on book \<open>k\<close> moves a total by what its two sides gain and lose.\<close>

lemma escrow_change:
  assumes "svc_inv s" and "svc_inv s'" and "others_kept s s' k"
  shows "escrow f s' - escrow f s =
    (\<Sum>x \<leftarrow> side_orders s' k SideSell. f x) - (\<Sum>x \<leftarrow> side_orders s k SideSell. f x) +
    ((\<Sum>x \<leftarrow> side_orders s' k SideBuy. f x) - (\<Sum>x \<leftarrow> side_orders s k SideBuy. f x))"
proof -
  have "rests s' k' sd p = rests s k' sd p" if "k' \<noteq> k" for k' sd p
  proof -
    have "svc_books s' k' = svc_books s k'" using assms(3) that unfolding others_kept_def by blast
    then show ?thesis by (simp add: rests_def)
  qed
  then have "{p. \<exists>k' sd. k' \<noteq> k \<and> rests s' k' sd p} = {p. \<exists>k' sd. k' \<noteq> k \<and> rests s k' sd p}" by blast
  moreover have "svc_heap s' p = svc_heap s p" if "k' \<noteq> k" "rests s k' sd p" for k' sd p
    using assms(3) that unfolding others_kept_def by blast
  ultimately have "(\<Sum>p | \<exists>k' sd. k' \<noteq> k \<and> rests s' k' sd p. f (svc_heap s' p)) =
      (\<Sum>p | \<exists>k' sd. k' \<noteq> k \<and> rests s k' sd p. f (svc_heap s p))"
    by (intro sum.cong) auto
  then show ?thesis using escrow_split [OF assms(1), of f k] escrow_split [OF assms(2), of f k] by simp
qed

lemma rests_at_sum:
  fixes f :: "order \<Rightarrow> int"
  assumes "rests_at s k sd old r p"
  shows "(\<Sum>x \<leftarrow> side_orders s k sd. f x) = f r + (\<Sum>x \<leftarrow> old. f x)"
  using assms by (auto simp: rests_at_def placed_def side_orders_def comp_def)

lemma escrow_drop:
  assumes inv: "svc_inv s" and idx: "map_of (svc_orders s) oid = Some p" and s': "s' = drop_order s oid p"
  shows "escrow f s' = escrow f s - f (svc_heap s p)"
proof -
  note d = drop_order_spec [OF inv idx s']
  have id: "o_ID (svc_heap s p) = oid" by (rule svc_invD(2) [OF inv idx])
  have "order_ptrs s' = order_ptrs s - {p}"
    unfolding set_eq_iff Diff_iff order_ptrs_indexed [OF d(1)] order_ptrs_indexed [OF inv]
    using idx id by (auto simp: d(3,4) delete_conv')
  moreover have "p \<in> order_ptrs s" using idx id by (simp add: order_ptrs_indexed [OF inv])
  ultimately show ?thesis by (simp add: escrow_def d(4) sum_diff1)
qed

text \<open>What a fill takes off the value of a side is what the trades cost.\<close>

lemma fill_value:
  "fill stop n xs = (ys, m, fs) \<Longrightarrow>
    (\<Sum>x \<leftarrow> xs. o_Price x * o_Quantity x) = (\<Sum>x \<leftarrow> ys. o_Price x * o_Quantity x) + cost fs"
proof (induction stop n xs arbitrary: ys m fs rule: fill.induct)
  case (1 stop n)
  then show ?case by (simp add: cost_def)
next
  case (2 stop n x xs)
  obtain zs k gs where f: "fill stop (n - o_Quantity x) xs = (zs, k, gs)" by (metis prod_cases3)
  show ?case
    using "2.prems" "2.IH" [OF _ _ f] f
    by (auto simp: cost_def algebra_simps split: if_splits)
qed

section \<open>Goods and money behind the orders\<close>

text \<open>A resting sell holds its goods, a resting buy the money for them.\<close>

definition item_escrow :: "u32 \<Rightarrow> order \<Rightarrow> int" where
  "item_escrow i r = (if o_Side r = SideSell \<and> o_ItemID r = i then o_Quantity r else 0)"

definition coin_escrow :: "order \<Rightarrow> int" where
  "coin_escrow r = (if o_Side r = SideSell then 0 else o_Price r * o_Quantity r)"

definition owners :: "service \<Rightarrow> string set" where
  "owners s = (\<lambda>p. o_Owner (svc_heap s p)) ` order_ptrs s"

text \<open>
  What an operation on the book of \<open>item\<close> does to the totals: goods in escrow move by \<open>dq\<close>,
  money in escrow by \<open>dc\<close>, and only \<open>player\<close> may become an owner of an order.
\<close>

definition traded :: "service \<Rightarrow> service \<Rightarrow> string \<Rightarrow> u32 \<Rightarrow> int \<Rightarrow> int \<Rightarrow> bool" where
  "traded s s' player item dq dc \<longleftrightarrow>
     svc_inv s' \<and> svc_cfg s' = svc_cfg s \<and>
     (\<forall>i. escrow (item_escrow i) s' = escrow (item_escrow i) s + (if i = item then dq else 0)) \<and>
     escrow coin_escrow s' = escrow coin_escrow s + dc \<and> owners s' \<subseteq> insert player (owners s)"

lemma rests_owner: "svc_inv s \<Longrightarrow> rests s k sd p \<Longrightarrow> o_Owner (svc_heap s p) \<in> owners s"
  using order_ptrs_rests [of s p] unfolding owners_def by blast

lemma side_orders_placed:
  assumes "svc_inv s" and "x \<in> set (side_orders s k sd)" and "sd \<in> {SideSell, SideBuy}"
  shows "o_Side x = sd" and "order_key x = k" and "o_Owner x \<in> owners s"
proof -
  obtain ob p where p: "svc_books s k = Some ob" "p \<in> set (side_of sd ob)" "x = svc_heap s p"
    using assms(2) by (cases "svc_books s k") (auto simp: side_orders_def)
  then have r: "rests s k sd p" using rests_here assms(3) by blast
  then show "o_Side x = sd" "order_key x = k" "o_Owner x \<in> owners s"
    using svc_invD(5) [OF assms(1) r] p(3) rests_owner [OF assms(1) r] by (auto simp: ptr_ok_def Let_def)
qed

lemma side_sums:
  assumes "svc_inv s"
  shows "(\<Sum>x \<leftarrow> side_orders s (loc, item) SideSell. item_escrow i x) =
      (if i = item then total_qty (side_orders s (loc, item) SideSell) else 0)"
    and "(\<Sum>x \<leftarrow> side_orders s k SideBuy. item_escrow i x) = 0"
    and "(\<Sum>x \<leftarrow> side_orders s k SideSell. coin_escrow x) = 0"
    and "(\<Sum>x \<leftarrow> side_orders s k SideBuy. coin_escrow x) = (\<Sum>x \<leftarrow> side_orders s k SideBuy. o_Price x * o_Quantity x)"
proof -
  have "map (item_escrow i) (side_orders s (loc, item) SideSell) =
      map (\<lambda>x. if i = item then o_Quantity x else 0) (side_orders s (loc, item) SideSell)"
    using side_orders_placed [OF assms] by (fastforce simp: item_escrow_def order_key_def intro!: map_cong)
  from arg_cong [OF this, of sum_list]
  show "(\<Sum>x \<leftarrow> side_orders s (loc, item) SideSell. item_escrow i x) =
      (if i = item then total_qty (side_orders s (loc, item) SideSell) else 0)" by (simp add: total_qty_def)
  have "map (item_escrow i) (side_orders s k SideBuy) = map (\<lambda>x. 0) (side_orders s k SideBuy)"
    "map coin_escrow (side_orders s k SideSell) = map (\<lambda>x. 0) (side_orders s k SideSell)"
    "map coin_escrow (side_orders s k SideBuy) = map (\<lambda>x. o_Price x * o_Quantity x) (side_orders s k SideBuy)"
    using side_orders_placed(1) [OF assms] by (auto simp: item_escrow_def coin_escrow_def intro!: map_cong)
  from this [THEN arg_cong [of _ _ sum_list]]
  show "(\<Sum>x \<leftarrow> side_orders s k SideBuy. item_escrow i x) = 0"
    "(\<Sum>x \<leftarrow> side_orders s k SideSell. coin_escrow x) = 0"
    "(\<Sum>x \<leftarrow> side_orders s k SideBuy. coin_escrow x) = (\<Sum>x \<leftarrow> side_orders s k SideBuy. o_Price x * o_Quantity x)"
    by simp_all
qed

lemma escrow_nonneg:
  assumes "svc_inv s" and "0 \<le> MinPrice (svc_cfg s)"
  shows "0 \<le> escrow (item_escrow i) s" and "0 \<le> escrow coin_escrow s"
proof -
  have "0 \<le> o_Quantity (svc_heap s p) \<and> 0 \<le> o_Price (svc_heap s p)" if "p \<in> order_ptrs s" for p
    using that order_ptrs_rests [OF assms(1)] svc_invD(5) [OF assms(1)] assms(2)
    by (force simp: ptr_ok_def Let_def)
  then show "0 \<le> escrow (item_escrow i) s" "0 \<le> escrow coin_escrow s"
    unfolding escrow_def by (auto intro!: sum_nonneg simp: item_escrow_def coin_escrow_def)
qed

lemma owners_change:
  assumes "svc_inv s" and "svc_inv s'" and kept: "others_kept s s' k"
    and sides: "\<And>sd x. sd \<in> {SideSell, SideBuy} \<Longrightarrow> x \<in> set (side_orders s' k sd) \<Longrightarrow> o_Owner x \<in> insert player (owners s)"
  shows "owners s' \<subseteq> insert player (owners s)"
proof
  fix u assume "u \<in> owners s'"
  then obtain p k' sd where p: "u = o_Owner (svc_heap s' p)" "rests s' k' sd p"
    using order_ptrs_rests [OF assms(2)] by (auto simp: owners_def)
  show "u \<in> insert player (owners s)"
  proof (cases "k' = k")
    case True
    then obtain ob where "svc_books s' k = Some ob" "p \<in> set (side_of sd ob)" "sd \<in> {SideSell, SideBuy}"
      using p(2) by (auto simp: rests_def)
    then show ?thesis using sides [of sd "svc_heap s' p"] p(1) by (auto simp: side_orders_def)
  next
    case False
    then have "svc_books s' k' = svc_books s k'" using kept unfolding others_kept_def by blast
    then have r: "rests s k' sd p" using p(2) by (simp add: rests_def)
    then have "svc_heap s' p = svc_heap s p" using kept False unfolding others_kept_def by blast
    then show ?thesis using p(1) rests_owner [OF assms(1) r] by simp
  qed
qed

lemma fill_owners: "fill stop n xs = (ys, m, fs) \<Longrightarrow> o_Owner ` set ys \<subseteq> o_Owner ` set xs"
proof (induction stop n xs arbitrary: ys m fs rule: fill.induct)
  case (2 stop n x xs)
  obtain zs k gs where f: "fill stop (n - o_Quantity x) xs = (zs, k, gs)" by (metis prod_cases3)
  show ?case using "2.prems" "2.IH" [OF _ _ f] f by (auto split: if_splits)
qed simp

lemma budget_fill_owners: "budget_fill b n xs = (ys, m, fs) \<Longrightarrow> o_Owner ` set ys \<subseteq> o_Owner ` set xs"
proof (induction b n xs arbitrary: ys m fs rule: budget_fill.induct)
  case (2 b n x xs)
  let ?q = "min (min n (o_Quantity x)) (b div o_Price x)"
  obtain zs k gs where f: "budget_fill (b - o_Price x * ?q) (n - ?q) xs = (zs, k, gs)" by (metis prod_cases3)
  show ?case using "2.prems" "2.IH" [OF refl _ _ f] f by (auto simp: Let_def split: if_splits)
qed simp

text \<open>Where the fills of an operation come from.\<close>

definition fills_of :: "order list \<Rightarrow> (int \<times> order) list \<Rightarrow> bool" where
  "fills_of xs fs \<longleftrightarrow> (\<forall>(q, x) \<in> set fs. 0 < q \<and> x \<in> set xs)"

lemma fills_of_prefix:
  assumes "map snd fs = take (length fs) xs" and "\<forall>(q, x) \<in> set fs. 0 < q"
  shows "fills_of xs fs"
proof -
  have "snd ` set fs \<subseteq> set xs" using arg_cong [OF assms(1), of set] by (auto dest: in_set_takeD)
  then show ?thesis using assms(2) by (auto simp: fills_of_def)
qed
section \<open>The trades of the operations\<close>

text \<open>The unfilled rest of a limit order and the order that holds it.\<close>

definition rest_holds :: "service \<Rightarrow> ptr option \<Rightarrow> int \<Rightarrow> int \<Rightarrow> bool" where
  "rest_holds s rest n price \<longleftrightarrow>
     (case rest of None \<Rightarrow> n = 0
      | Some p \<Rightarrow> 0 < n \<and> o_Quantity (svc_heap s p) = n \<and> o_Price (svc_heap s p) = price)"

lemma side_owner:
  assumes "svc_inv s" and "o_Owner ` set ys \<subseteq> o_Owner ` set (side_orders s k sd)"
    and "sd \<in> {SideSell, SideBuy}" and "x \<in> set ys"
  shows "o_Owner x \<in> owners s"
proof -
  obtain y where "y \<in> set (side_orders s k sd)" "o_Owner x = o_Owner y" using assms(2,4) by blast
  then show ?thesis using side_orders_placed(3) [OF assms(1) _ assms(3)] by simp
qed

lemma rests_at_owner:
  assumes "svc_inv s" and "rests_at s' k sd (side_orders s k sd) r p" and "sd \<in> {SideSell, SideBuy}"
    and "x \<in> set (side_orders s' k sd)"
  shows "o_Owner x \<in> insert (o_Owner r) (owners s)"
proof -
  obtain ob ps where o: "svc_heap s' p = r" "svc_books s' k = Some ob" "map (svc_heap s') ps = side_orders s k sd"
    and pl: "placed (if sd = SideSell then sell_le else buy_le) (svc_heap s') p ps (side_of sd ob)"
    using assms(2) unfolding rests_at_def by blast
  obtain q where "q \<in> set (side_of sd ob)" "x = svc_heap s' q"
    using assms(4) o(2) by (auto simp: side_orders_def)
  moreover have "set (side_of sd ob) = insert p (set ps)" using pl by (auto simp: placed_def)
  ultimately have "x = r \<or> x \<in> set (map (svc_heap s') ps)" using o(1) by auto
  then have "x = r \<or> x \<in> set (side_orders s k sd)" by (simp only: o(3))
  then show ?thesis using side_orders_placed(3) [OF assms(1) _ assms(3)] by blast
qed

lemma sell_side_traded:
  assumes inv: "svc_inv s" "svc_inv s'" and kept: "others_kept s s' (loc, item)"
    and ok: "fill_ok stop qty (side_orders s (loc, item) SideBuy) ys n fs"
    and fill: "fill stop qty (side_orders s (loc, item) SideBuy) = (ys, n, fs)"
    and buys: "side_orders s' (loc, item) SideBuy = ys"
    and item_sum: "\<And>i. (\<Sum>x \<leftarrow> side_orders s' (loc, item) SideSell. item_escrow i x) =
      (\<Sum>x \<leftarrow> side_orders s (loc, item) SideSell. item_escrow i x) + (if i = item then dq else 0)"
    and sell_owner: "\<And>x. x \<in> set (side_orders s' (loc, item) SideSell) \<Longrightarrow> o_Owner x \<in> insert player (owners s)"
  shows "traded s s' player item dq (- cost fs)" and "fills_of (side_orders s (loc, item) SideBuy) fs"
    and "qty = n + sum_list (map fst fs)"
proof -
  let ?k = "(loc, item)"
  have i: "escrow (item_escrow i) s' = escrow (item_escrow i) s + (if i = item then dq else 0)" for i
    using escrow_change [OF inv kept, of "item_escrow i"] item_sum [of i]
    unfolding side_sums(2) [OF inv(1)] side_sums(2) [OF inv(2)] by linarith
  have c: "escrow coin_escrow s' = escrow coin_escrow s + - cost fs"
    using escrow_change [OF inv kept, of coin_escrow] fill_value [OF fill, folded buys]
    unfolding side_sums(3,4) [OF inv(1), of ?k] side_sums(3,4) [OF inv(2), of ?k] by linarith
  have "owners s' \<subseteq> insert player (owners s)"
  proof (rule owners_change [OF inv kept])
    fix sd x assume sd: "sd \<in> {SideSell, SideBuy}" and x: "x \<in> set (side_orders s' ?k sd)"
    show "o_Owner x \<in> insert player (owners s)"
    proof (cases "sd = SideSell")
      case False
      then have "x \<in> set ys" using sd x buys by auto
      then show ?thesis using side_owner [OF inv(1) fill_owners [OF fill]] by blast
    qed (use sell_owner x in blast)
  qed
  moreover have "svc_cfg s' = svc_cfg s" using kept unfolding others_kept_def by blast
  ultimately show "traded s s' player item dq (- cost fs)" using inv i c unfolding traded_def by simp
  show "fills_of (side_orders s ?k SideBuy) fs" using ok unfolding fill_ok_def by (intro fills_of_prefix) blast+
  show "qty = n + sum_list (map fst fs)" using ok by (simp add: fill_ok_def)
qed

lemma PlaceSellOrder_traded:
  assumes inv: "svc_inv s" and check: "check_place s seller price qty = None" and "in_i32 qty"
    and "svc_nextID s + 1 \<noteq> 0"
    and run: "PlaceSellOrder s seller loc item price qty now1 now2 = (s', res)"
  obtains n fs rest where "res = Inr (sell_events seller loc item fs, rest)" and "rest_holds s' rest n price"
    and "traded s s' seller item n (- cost fs)" and "fills_of (side_orders s (loc, item) SideBuy) fs"
    and "qty = n + sum_list (map fst fs)"
proof -
  let ?k = "(loc, item)" and ?stop = "\<lambda>b. o_Price b < price"
  obtain ys n fs where f: "fill ?stop qty (side_orders s ?k SideBuy) = (ys, n, fs)" by (metis prod_cases3)
  note sp = PlaceSellOrder_spec [OF assms(1-4) f run]
  have ok: "fill_ok ?stop qty (side_orders s ?k SideBuy) ys n fs"
    using fill_spec [OF _ _ f] side_orders_live [OF inv] check_placeD(2) [OF check] by simp
  let ?r = "resting_order s SideSell seller loc item price n qty now1 now2 (svc_nextID s)"
  have sp': "svc_inv s'" "others_kept s s' ?k" "side_orders s' ?k SideBuy = ys" using sp by blast+
  note tr = sell_side_traded [OF inv sp'(1,2) ok f sp'(3), of n seller]
  show thesis
  proof (cases "n = 0")
    case True
    then have same: "side_orders s' ?k SideSell = side_orders s ?k SideSell"
      and res: "res = Inr (sell_events seller loc item fs, None)" using sp by simp_all
    have own: "o_Owner x \<in> insert seller (owners s)" if "x \<in> set (side_orders s ?k SideSell)" for x
      using side_orders_placed(3) [OF inv that] by simp
    have sum: "(\<Sum>x \<leftarrow> side_orders s' ?k SideSell. item_escrow i x) =
        (\<Sum>x \<leftarrow> side_orders s ?k SideSell. item_escrow i x) + (if i = item then n else 0)" for i
      by (simp add: same True)
    have rh: "rest_holds s' None n price" using True by (simp add: rest_holds_def)
    show thesis by (rule that [OF res rh tr [OF sum own [folded same]]])
  next
    case False
    then obtain p where p: "res = Inr (sell_events seller loc item fs, Some p)"
      "rests_at s' ?k SideSell (side_orders s ?k SideSell) ?r p" using sp by auto
    have sum: "(\<Sum>x \<leftarrow> side_orders s' ?k SideSell. item_escrow i x) =
        (\<Sum>x \<leftarrow> side_orders s ?k SideSell. item_escrow i x) + (if i = item then n else 0)" for i
      using rests_at_sum [OF p(2), of "item_escrow i"] by (simp add: item_escrow_def resting_order_def)
    have own: "o_Owner x \<in> insert seller (owners s)" if "x \<in> set (side_orders s' ?k SideSell)" for x
      using rests_at_owner [OF inv p(2) _ that] by (simp add: resting_order_def)
    have rh: "rest_holds s' (Some p) n price"
      using p(2) fill_ok_bounds [OF ok] False by (simp add: rest_holds_def rests_at_def resting_order_def)
    show thesis by (rule that [OF p(1) rh tr [OF sum own]])
  qed
qed
lemma buy_side_traded:
  assumes inv: "svc_inv s" "svc_inv s'" and kept: "others_kept s s' (loc, item)"
    and total: "total_qty (side_orders s (loc, item) SideSell) = total_qty ys + sum_list (map fst fs)"
    and own: "o_Owner ` set ys \<subseteq> o_Owner ` set (side_orders s (loc, item) SideSell)"
    and sells: "side_orders s' (loc, item) SideSell = ys"
    and coin_sum: "(\<Sum>x \<leftarrow> side_orders s' (loc, item) SideBuy. coin_escrow x) =
      (\<Sum>x \<leftarrow> side_orders s (loc, item) SideBuy. coin_escrow x) + dc"
    and buy_owner: "\<And>x. x \<in> set (side_orders s' (loc, item) SideBuy) \<Longrightarrow> o_Owner x \<in> insert player (owners s)"
  shows "traded s s' player item (- sum_list (map fst fs)) dc"
proof -
  let ?k = "(loc, item)"
  have i: "escrow (item_escrow i) s' = escrow (item_escrow i) s + (if i = item then - sum_list (map fst fs) else 0)" for i
    using escrow_change [OF inv kept, of "item_escrow i"] total [folded sells]
    unfolding side_sums(1,2) [OF inv(1)] side_sums(1,2) [OF inv(2)] by (cases "i = item") simp_all
  have c: "escrow coin_escrow s' = escrow coin_escrow s + dc"
    using escrow_change [OF inv kept, of coin_escrow] coin_sum
    unfolding side_sums(3) [OF inv(1)] side_sums(3) [OF inv(2)] by linarith
  have "owners s' \<subseteq> insert player (owners s)"
  proof (rule owners_change [OF inv kept])
    fix sd x assume sd: "sd \<in> {SideSell, SideBuy}" and x: "x \<in> set (side_orders s' ?k sd)"
    show "o_Owner x \<in> insert player (owners s)"
    proof (cases "sd = SideSell")
      case True
      then have "x \<in> set ys" using x sells by simp
      then show ?thesis using side_owner [OF inv(1) own] by blast
    qed (use buy_owner sd x in auto)
  qed
  moreover have "svc_cfg s' = svc_cfg s" using kept unfolding others_kept_def by blast
  ultimately show ?thesis using inv i c unfolding traded_def by simp
qed

lemma PlaceBuyOrder_traded:
  assumes inv: "svc_inv s" and check: "check_place s buyer price qty = None" and "in_i32 qty"
    and "svc_nextID s + 1 \<noteq> 0"
    and run: "PlaceBuyOrder s buyer loc item price qty now1 now2 = (s', res)"
  obtains n fs rest where "res = Inr (buy_events buyer loc item fs, rest)" and "rest_holds s' rest n price"
    and "traded s s' buyer item (- sum_list (map fst fs)) (price * n)"
    and "fills_of (side_orders s (loc, item) SideSell) fs" and "qty = n + sum_list (map fst fs)"
    and "\<forall>(q, x) \<in> set fs. o_Price x \<le> price"
proof -
  let ?k = "(loc, item)" and ?stop = "\<lambda>b. o_Price b > price"
  obtain ys n fs where f: "fill ?stop qty (side_orders s ?k SideSell) = (ys, n, fs)" by (metis prod_cases3)
  note sp = PlaceBuyOrder_spec [OF assms(1-4) f run]
  have ok: "fill_ok ?stop qty (side_orders s ?k SideSell) ys n fs"
    using fill_spec [OF _ _ f] side_orders_live [OF inv] check_placeD(2) [OF check] by simp
  let ?r = "resting_order s SideBuy buyer loc item price n qty now1 now2 (svc_nextID s)"
  have sp': "svc_inv s'" "others_kept s s' ?k" "side_orders s' ?k SideSell = ys" using sp by blast+
  have tot: "total_qty (side_orders s ?k SideSell) = total_qty ys + sum_list (map fst fs)"
    and qt: "qty = n + sum_list (map fst fs)" using ok by (simp_all add: fill_ok_def)
  have pr: "\<forall>(q, x) \<in> set fs. o_Price x \<le> price" using ok unfolding fill_ok_def by force
  have fo: "fills_of (side_orders s ?k SideSell) fs" using ok unfolding fill_ok_def by (intro fills_of_prefix) blast+
  note tr = buy_side_traded [OF inv sp'(1,2) tot fill_owners [OF f] sp'(3), of "price * n" buyer]
  show thesis
  proof (cases "n = 0")
    case True
    then have same: "side_orders s' ?k SideBuy = side_orders s ?k SideBuy"
      and res: "res = Inr (buy_events buyer loc item fs, None)" using sp by simp_all
    have own: "o_Owner x \<in> insert buyer (owners s)" if "x \<in> set (side_orders s ?k SideBuy)" for x
      using side_orders_placed(3) [OF inv that] by simp
    have sum: "(\<Sum>x \<leftarrow> side_orders s' ?k SideBuy. coin_escrow x) = (\<Sum>x \<leftarrow> side_orders s ?k SideBuy. coin_escrow x) + price * n"
      by (simp add: same True)
    have rh: "rest_holds s' None n price" using True by (simp add: rest_holds_def)
    show thesis by (rule that [OF res rh tr [OF sum own [folded same]] fo qt pr])
  next
    case False
    then obtain p where p: "res = Inr (buy_events buyer loc item fs, Some p)"
      "rests_at s' ?k SideBuy (side_orders s ?k SideBuy) ?r p" using sp by auto
    have sum: "(\<Sum>x \<leftarrow> side_orders s' ?k SideBuy. coin_escrow x) = (\<Sum>x \<leftarrow> side_orders s ?k SideBuy. coin_escrow x) + price * n"
      using rests_at_sum [OF p(2), of coin_escrow] by (simp add: coin_escrow_def resting_order_def)
    have own: "o_Owner x \<in> insert buyer (owners s)" if "x \<in> set (side_orders s' ?k SideBuy)" for x
      using rests_at_owner [OF inv p(2) _ that] by (simp add: resting_order_def)
    have rh: "rest_holds s' (Some p) n price"
      using p(2) fill_ok_bounds [OF ok] False by (simp add: rest_holds_def rests_at_def resting_order_def)
    show thesis by (rule that [OF p(1) rh tr [OF sum own] fo qt pr])
  qed
qed

lemma InstantSell_traded:
  assumes inv: "svc_inv s" and qty: "0 < qty" "in_i32 qty"
    and run: "InstantSell s seller loc item qty = (s', res)"
  obtains n fs where "res = Inr (sell_events seller loc item fs)" and "0 \<le> n"
    and "traded s s' seller item 0 (- cost fs)" and "fills_of (side_orders s (loc, item) SideBuy) fs"
    and "qty = n + sum_list (map fst fs)"
proof -
  let ?k = "(loc, item)"
  obtain ys n fs where f: "fill (\<lambda>_. False) qty (side_orders s ?k SideBuy) = (ys, n, fs)" by (metis prod_cases3)
  have sp: "svc_inv s'" "others_kept s s' ?k" "side_orders s' ?k SideBuy = ys"
    and same: "side_orders s' ?k SideSell = side_orders s ?k SideSell"
    and res: "res = Inr (sell_events seller loc item fs)"
    using InstantSell_spec [OF inv qty f run] by blast+
  have ok: "fill_ok (\<lambda>_. False) qty (side_orders s ?k SideBuy) ys n fs"
    using fill_spec [OF _ _ f] side_orders_live [OF inv] qty(1) by simp
  have own: "o_Owner x \<in> insert seller (owners s)" if "x \<in> set (side_orders s ?k SideSell)" for x
    using side_orders_placed(3) [OF inv that] by simp
  have sum: "(\<Sum>x \<leftarrow> side_orders s' ?k SideSell. item_escrow i x) =
      (\<Sum>x \<leftarrow> side_orders s ?k SideSell. item_escrow i x) + (if i = item then 0 else 0)" for i
    by (simp add: same)
  have "0 \<le> n" using fill_ok_bounds [OF ok] by blast
  then show thesis by (rule that [OF res _ sell_side_traded [OF inv sp(1,2) ok f sp(3) sum own [folded same]]])
qed

lemma InstantBuy_traded:
  assumes inv: "svc_inv s" and qty: "0 < qty" "in_i32 qty" and price: "0 < MinPrice (svc_cfg s)"
    and budget: "0 < maxCost"
    and small: "\<forall>x \<in> set (side_orders s (loc, item) SideSell). maxCost + o_Price x * o_Quantity x < 2^63"
    and run: "InstantBuy s buyer loc item qty maxCost = (s', res)"
  obtains n fs where "res = Inr (buy_events buyer loc item fs)" and "0 \<le> n"
    and "traded s s' buyer item (- sum_list (map fst fs)) 0" and "fills_of (side_orders s (loc, item) SideSell) fs"
    and "qty = n + sum_list (map fst fs)" and "cost fs \<le> maxCost"
proof -
  let ?k = "(loc, item)"
  obtain ys n fs where f: "budget_fill maxCost qty (side_orders s ?k SideSell) = (ys, n, fs)" by (metis prod_cases3)
  have sp: "svc_inv s'" "others_kept s s' ?k" "side_orders s' ?k SideSell = ys"
    and same: "side_orders s' ?k SideBuy = side_orders s ?k SideBuy"
    and res: "res = Inr (buy_events buyer loc item fs)"
    using InstantBuy_spec [OF inv qty price small _ run, of ys n fs] f budget by simp_all
  have "\<forall>x \<in> set (side_orders s ?k SideSell). 0 < o_Quantity x \<and> 0 < o_Price x"
    using side_orders_live [OF inv] price by fastforce
  then have ok: "budget_ok maxCost qty (side_orders s ?k SideSell) ys n fs"
    using budget_fill_spec [OF _ _ _ f] qty(1) budget by simp
  have b: "0 \<le> n" "qty = n + sum_list (map fst fs)" "cost fs \<le> maxCost"
    "total_qty (side_orders s ?k SideSell) = total_qty ys + sum_list (map fst fs)"
    using ok by (simp_all add: budget_ok_def)
  have fo: "fills_of (side_orders s ?k SideSell) fs" using ok unfolding budget_ok_def by (intro fills_of_prefix) auto
  have own: "o_Owner x \<in> insert buyer (owners s)" if "x \<in> set (side_orders s ?k SideBuy)" for x
    using side_orders_placed(3) [OF inv that] by simp
  have sum: "(\<Sum>x \<leftarrow> side_orders s' ?k SideBuy. coin_escrow x) = (\<Sum>x \<leftarrow> side_orders s ?k SideBuy. coin_escrow x) + 0"
    by (simp add: same)
  show thesis
    by (rule that [OF res b(1) buy_side_traded [OF inv sp(1,2) b(4) budget_fill_owners [OF f] sp(3) sum own [folded same]] fo b(2,3)])
qed

end
