(* ===== verification/PlayerRepo.thy ===== *)
theory PlayerRepo
  imports Complex_Main GoPrelude
begin

text \<open>
  The in-memory player database of the space example
  (\<open>examples/space/internal/game/playerdb.go\<close>, \<open>playerdata.go\<close>): players by user id, the
  username index, the dirty set, and the bank and currency operations the marketplace calls.
  A nil Go map and an empty one are both the empty map here: every write in the source makes
  the map first, and reading a nil map gives zero. Positions, cells, equipment and login
  times are not part of the model.
\<close>

section \<open>State\<close>

type_synonym uuid = "128 word"
type_synonym bank = "u32 \<rightharpoonup> int"

record player_data =
  pd_UserID :: uuid
  pd_Username :: string
  pd_Currencies :: bank
  pd_Cargo :: bank
  pd_Bank :: bank

record player_repo =
  pr_players :: "uuid \<rightharpoonup> player_data"
  pr_byUsername :: "string \<rightharpoonup> uuid"
  pr_dirty :: "uuid set"

datatype bind_panic = NilUserID

text \<open>Reading a Go map gives the zero value for an absent key.\<close>

definition lookup0 :: "bank \<Rightarrow> u32 \<Rightarrow> int" where
  "lookup0 m k = (case m k of None \<Rightarrow> 0 | Some v \<Rightarrow> v)"

section \<open>Operations\<close>

definition NewPlayerRepo :: player_repo where
  "NewPlayerRepo = \<lparr>pr_players = Map.empty, pr_byUsername = Map.empty, pr_dirty = {}\<rparr>"

definition GetByUserID :: "player_repo \<Rightarrow> uuid \<Rightarrow> player_data option" where
  "GetByUserID r uid = pr_players r uid"

definition Get :: "player_repo \<Rightarrow> string \<Rightarrow> player_data option" where
  "Get r username = (case pr_byUsername r username of None \<Rightarrow> None | Some uid \<Rightarrow> pr_players r uid)"

definition Bind :: "player_repo \<Rightarrow> uuid \<Rightarrow> string \<Rightarrow> bind_panic + player_repo" where
  "Bind r uid username =
     (if uid = 0 then Inl NilUserID
      else (case pr_players r uid of
         Some p \<Rightarrow>
           if pd_Username p \<noteq> username \<and> username \<noteq> [] then
             Inr \<lparr>pr_players = (pr_players r)(uid \<mapsto> p\<lparr>pd_Username := username\<rparr>),
                  pr_byUsername = ((pr_byUsername r)(pd_Username p := None))(username \<mapsto> uid),
                  pr_dirty = insert uid (pr_dirty r)\<rparr>
           else Inr r
       | None \<Rightarrow>
           Inr \<lparr>pr_players = (pr_players r)(uid \<mapsto>
                  \<lparr>pd_UserID = uid, pd_Username = username, pd_Currencies = Map.empty,
                   pd_Cargo = Map.empty, pd_Bank = Map.empty\<rparr>),
                pr_byUsername = (if username \<noteq> [] then (pr_byUsername r)(username \<mapsto> uid) else pr_byUsername r),
                pr_dirty = insert uid (pr_dirty r)\<rparr>))"

definition MarkDirty :: "player_repo \<Rightarrow> string \<Rightarrow> player_repo" where
  "MarkDirty r username =
     (case pr_byUsername r username of
        Some uid \<Rightarrow> r\<lparr>pr_dirty := insert uid (pr_dirty r)\<rparr> | None \<Rightarrow> r)"

definition MarkDirtyByUserID :: "player_repo \<Rightarrow> uuid \<Rightarrow> player_repo" where
  "MarkDirtyByUserID r uid =
     (case pr_players r uid of
        Some _ \<Rightarrow> r\<lparr>pr_dirty := insert uid (pr_dirty r)\<rparr> | None \<Rightarrow> r)"

definition GetBankBalance :: "player_repo \<Rightarrow> string \<Rightarrow> u32 \<Rightarrow> int" where
  "GetBankBalance r player item =
     (case pr_byUsername r player of
        None \<Rightarrow> 0
      | Some uid \<Rightarrow> (case pr_players r uid of None \<Rightarrow> 0 | Some p \<Rightarrow> lookup0 (pd_Bank p) item))"

definition ModifyBank :: "player_repo \<Rightarrow> string \<Rightarrow> (bank \<Rightarrow> bank) \<Rightarrow> player_repo" where
  "ModifyBank r player fn =
     (case pr_byUsername r player of
        None \<Rightarrow> r
      | Some uid \<Rightarrow>
          (case pr_players r uid of
             None \<Rightarrow> r
           | Some p \<Rightarrow> r\<lparr>pr_players := (pr_players r)(uid \<mapsto> p\<lparr>pd_Bank := fn (pd_Bank p)\<rparr>)\<rparr>))"

definition pd_GetCurrency :: "player_data \<Rightarrow> u32 \<Rightarrow> int" where
  "pd_GetCurrency p c = lookup0 (pd_Currencies p) c"

definition GetCurrency :: "player_repo \<Rightarrow> string \<Rightarrow> u32 \<Rightarrow> int" where
  "GetCurrency r player c =
     (case pr_byUsername r player of
        None \<Rightarrow> 0
      | Some uid \<Rightarrow> (case pr_players r uid of None \<Rightarrow> 0 | Some p \<Rightarrow> pd_GetCurrency p c))"

definition ModifyCurrency :: "player_repo \<Rightarrow> string \<Rightarrow> u32 \<Rightarrow> int \<Rightarrow> player_repo" where
  "ModifyCurrency r player c delta =
     (case pr_byUsername r player of
        None \<Rightarrow> r
      | Some uid \<Rightarrow>
          (case pr_players r uid of
             None \<Rightarrow> r
           | Some p \<Rightarrow> r\<lparr>pr_players := (pr_players r)(uid \<mapsto>
               p\<lparr>pd_Currencies := (pd_Currencies p)(c \<mapsto> wrap64 (lookup0 (pd_Currencies p) c + delta))\<rparr>)\<rparr>))"

definition AddCurrency :: "player_data \<Rightarrow> u32 \<Rightarrow> int \<Rightarrow> player_data" where
  "AddCurrency p c amount =
     p\<lparr>pd_Currencies := (pd_Currencies p)(c \<mapsto> wrap64 (lookup0 (pd_Currencies p) c + amount))\<rparr>"

definition SpendCurrency :: "player_data \<Rightarrow> u32 \<Rightarrow> int \<Rightarrow> player_data \<times> bool" where
  "SpendCurrency p c amount =
     (if pd_GetCurrency p c < amount then (p, False)
      else (p\<lparr>pd_Currencies := (pd_Currencies p)(c \<mapsto> wrap64 (lookup0 (pd_Currencies p) c - amount))\<rparr>, True))"

definition WithdrawFromBank :: "player_data \<Rightarrow> u32 \<Rightarrow> int \<Rightarrow> player_data \<times> int" where
  "WithdrawFromBank p item amount =
     (if amount \<le> 0 then (p, 0)
      else (let have_qty = lookup0 (pd_Bank p) item in
        if have_qty \<le> 0 then (p, 0)
        else (let amount' = (if amount > have_qty then have_qty else amount);
                  left_qty = wrap32 (have_qty - amount');
                  b = (pd_Bank p)(item \<mapsto> left_qty)
              in (p\<lparr>pd_Bank := (if left_qty \<le> 0 then b(item := None) else b)\<rparr>, amount'))))"

text \<open>
  The two closures the marketplace passes to \<open>ModifyBank\<close>: \<open>bank[item] += q\<close>, and
  \<open>bank[item] -= q\<close> with the entry deleted once it is not positive.
\<close>

definition bank_add :: "u32 \<Rightarrow> int \<Rightarrow> bank \<Rightarrow> bank" where
  "bank_add item q b = b(item \<mapsto> wrap32 (lookup0 b item + q))"

definition bank_take :: "u32 \<Rightarrow> int \<Rightarrow> bank \<Rightarrow> bank" where
  "bank_take item q b =
     (let left_qty = wrap32 (lookup0 b item - q); b' = b(item \<mapsto> left_qty)
      in if left_qty \<le> 0 then b'(item := None) else b')"

section \<open>Totals\<close>

definition bank_total :: "player_repo \<Rightarrow> u32 \<Rightarrow> int" where
  "bank_total r item = (\<Sum>uid \<in> dom (pr_players r). lookup0 (pd_Bank (the (pr_players r uid))) item)"

definition currency_total :: "player_repo \<Rightarrow> u32 \<Rightarrow> int" where
  "currency_total r c = (\<Sum>uid \<in> dom (pr_players r). lookup0 (pd_Currencies (the (pr_players r uid))) c)"

definition known :: "player_repo \<Rightarrow> string \<Rightarrow> bool" where
  "known r u \<longleftrightarrow> (\<exists>uid p. pr_byUsername r u = Some uid \<and> pr_players r uid = Some p)"

text \<open>Finitely many players, nobody in debt.\<close>

definition repo_ok :: "player_repo \<Rightarrow> bool" where
  "repo_ok r \<longleftrightarrow> finite (dom (pr_players r)) \<and>
     (\<forall>uid p. pr_players r uid = Some p \<longrightarrow> (\<forall>i. 0 \<le> lookup0 (pd_Bank p) i \<and> 0 \<le> lookup0 (pd_Currencies p) i))"

lemma sum_player_update:
  fixes f :: "'b \<Rightarrow> int"
  assumes "finite (dom m)" and "m uid = Some p"
  shows "(\<Sum>u \<in> dom (m(uid \<mapsto> p')). f (the ((m(uid \<mapsto> p')) u))) = (\<Sum>u \<in> dom m. f (the (m u))) + (f p' - f p)"
    (is "?l = ?r")
proof -
  have uid: "uid \<in> dom m" using assms(2) by blast
  have "?l = f p' + (\<Sum>u \<in> dom m - {uid}. f (the (m u)))"
    using sum.remove [OF assms(1) uid, of "\<lambda>u. f (the ((m(uid \<mapsto> p')) u))"] uid by (simp add: insert_absorb)
  moreover have "(\<Sum>u \<in> dom m. f (the (m u))) = f p + (\<Sum>u \<in> dom m - {uid}. f (the (m u)))"
    using sum.remove [OF assms(1) uid, of "\<lambda>u. f (the (m u))"] assms(2) by simp
  ultimately show ?thesis by simp
qed

lemma balance_le_total:
  assumes "repo_ok r"
  shows "pr_players r uid = Some p \<Longrightarrow> lookup0 (pd_Bank p) i \<le> bank_total r i"
    and "pr_players r uid = Some p \<Longrightarrow> lookup0 (pd_Currencies p) i \<le> currency_total r i"
proof -
  assume p: "pr_players r uid = Some p"
  have "0 \<le> lookup0 (pd_Bank (the (pr_players r u))) i \<and> 0 \<le> lookup0 (pd_Currencies (the (pr_players r u))) i"
    if "u \<in> dom (pr_players r)" for u
    using assms that by (auto simp: repo_ok_def)
  then show "lookup0 (pd_Bank p) i \<le> bank_total r i" "lookup0 (pd_Currencies p) i \<le> currency_total r i"
    using member_le_sum [of uid "dom (pr_players r)" "\<lambda>u. lookup0 (pd_Bank (the (pr_players r u))) i"]
      member_le_sum [of uid "dom (pr_players r)" "\<lambda>u. lookup0 (pd_Currencies (the (pr_players r u))) i"]
      p assms unfolding bank_total_def currency_total_def by (auto simp: repo_ok_def)
qed

text \<open>
  What the four balance changes of the marketplace do: the player they name changes, the total
  moves by the amount, every other total, balance and name stays.
\<close>

definition same_names :: "player_repo \<Rightarrow> player_repo \<Rightarrow> bool" where
  "same_names r r' \<longleftrightarrow> (\<forall>u. known r' u = known r u)"

lemma lookup0_upd: "lookup0 (m(k \<mapsto> v)) i = (if i = k then v else lookup0 m i)"
  by (simp add: lookup0_def)

lemma lookup0_bank_add:
  assumes "0 \<le> lookup0 b item + q" and "lookup0 b item + q < 2^31"
  shows "lookup0 (bank_add item q b) i = lookup0 b i + (if i = item then q else 0)"
  using assms by (simp add: bank_add_def lookup0_upd wrap32_nonneg)

lemma lookup0_bank_take:
  assumes "0 \<le> q" and "q \<le> lookup0 b item" and "lookup0 b item < 2^31"
  shows "lookup0 (bank_take item q b) i = lookup0 b i - (if i = item then q else 0)"
proof -
  have "wrap32 (lookup0 b item - q) = lookup0 b item - q" using assms by (intro wrap32_nonneg) simp_all
  then show ?thesis using assms by (auto simp: bank_take_def Let_def lookup0_def split: option.splits)
qed

lemma modify_bank_totals:
  assumes ok: "repo_ok r" and "known r u" and r': "r' = ModifyBank r u f"
    and delta: "\<And>uid p i. pr_byUsername r u = Some uid \<Longrightarrow> pr_players r uid = Some p \<Longrightarrow>
      lookup0 (f (pd_Bank p)) i = lookup0 (pd_Bank p) i + d i"
    and pos: "\<And>i. 0 \<le> GetBankBalance r u i + d i"
  shows "repo_ok r'" and "bank_total r' i = bank_total r i + d i" and "currency_total r' c = currency_total r c"
    and "same_names r r'" and "GetCurrency r' v c = GetCurrency r v c"
    and "GetBankBalance r' u i = GetBankBalance r u i + d i"
    and "0 \<le> d i \<Longrightarrow> GetBankBalance r v i \<le> GetBankBalance r' v i"
proof -
  obtain uid p where u: "pr_byUsername r u = Some uid" "pr_players r uid = Some p" using assms(2) by (auto simp: known_def)
  note dl = delta [OF u]
  have eq: "r' = r\<lparr>pr_players := (pr_players r)(uid \<mapsto> p\<lparr>pd_Bank := f (pd_Bank p)\<rparr>)\<rparr>"
    using u by (simp add: r' ModifyBank_def)
  have fin: "finite (dom (pr_players r))" using ok by (simp add: repo_ok_def)
  show "repo_ok r'"
    using ok u pos dl by (auto simp: repo_ok_def eq GetBankBalance_def)
  show "bank_total r' i = bank_total r i + d i"
    using sum_player_update [OF fin u(2), of "\<lambda>x. lookup0 (pd_Bank x) i"] dl by (simp add: bank_total_def eq)
  show "currency_total r' c = currency_total r c"
    using sum_player_update [OF fin u(2), of "\<lambda>x. lookup0 (pd_Currencies x) c" "p\<lparr>pd_Bank := f (pd_Bank p)\<rparr>"]
    by (simp add: currency_total_def eq)
  show "same_names r r'" using u by (auto simp: same_names_def known_def eq)
  show "GetCurrency r' v c = GetCurrency r v c" using u by (auto simp: GetCurrency_def pd_GetCurrency_def eq split: option.splits)
  show "GetBankBalance r' u i = GetBankBalance r u i + d i" using u dl by (simp add: GetBankBalance_def eq)
  show "0 \<le> d i \<Longrightarrow> GetBankBalance r v i \<le> GetBankBalance r' v i"
    using u dl by (auto simp: GetBankBalance_def eq split: option.splits)
qed

lemma modify_currency_totals:
  assumes ok: "repo_ok r" and "known r u" and r': "r' = ModifyCurrency r u c d"
    and pos: "0 \<le> GetCurrency r u c + d" and small: "currency_total r c + d < 2^63"
  shows "repo_ok r'" and "currency_total r' c' = currency_total r c' + (if c' = c then d else 0)"
    and "bank_total r' i = bank_total r i" and "same_names r r'"
    and "GetBankBalance r' v i = GetBankBalance r v i"
    and "GetCurrency r' u c = GetCurrency r u c + d"
    and "0 \<le> d \<Longrightarrow> GetCurrency r v c \<le> GetCurrency r' v c"
proof -
  obtain uid p where u: "pr_byUsername r u = Some uid" "pr_players r uid = Some p" using assms(2) by (auto simp: known_def)
  let ?p = "p\<lparr>pd_Currencies := (pd_Currencies p)(c \<mapsto> lookup0 (pd_Currencies p) c + d)\<rparr>"
  have bal: "GetCurrency r u c = lookup0 (pd_Currencies p) c" using u by (simp add: GetCurrency_def pd_GetCurrency_def)
  have "lookup0 (pd_Currencies p) c \<le> currency_total r c" by (rule balance_le_total(2) [OF ok u(2)])
  then have "wrap64 (lookup0 (pd_Currencies p) c + d) = lookup0 (pd_Currencies p) c + d"
    using pos small bal by (intro wrap64_nonneg) simp_all
  then have eq: "r' = r\<lparr>pr_players := (pr_players r)(uid \<mapsto> ?p)\<rparr>"
    using u by (simp add: r' ModifyCurrency_def)
  have fin: "finite (dom (pr_players r))" using ok by (simp add: repo_ok_def)
  show "repo_ok r'" using ok u pos bal by (auto simp: repo_ok_def eq lookup0_upd)
  show "currency_total r' c' = currency_total r c' + (if c' = c then d else 0)"
    using sum_player_update [OF fin u(2), of "\<lambda>x. lookup0 (pd_Currencies x) c'" ?p]
    by (simp add: currency_total_def eq lookup0_upd)
  show "bank_total r' i = bank_total r i"
    using sum_player_update [OF fin u(2), of "\<lambda>x. lookup0 (pd_Bank x) i" ?p] by (simp add: bank_total_def eq)
  show "same_names r r'" using u by (auto simp: same_names_def known_def eq)
  show "GetBankBalance r' v i = GetBankBalance r v i" using u by (auto simp: GetBankBalance_def eq split: option.splits)
  show "GetCurrency r' u c = GetCurrency r u c + d"
    using u by (simp add: GetCurrency_def pd_GetCurrency_def eq lookup0_upd)
  show "0 \<le> d \<Longrightarrow> GetCurrency r v c \<le> GetCurrency r' v c"
    using u by (auto simp: GetCurrency_def pd_GetCurrency_def eq lookup0_upd split: option.splits)
qed

end
