(* ===== verification/GoFloat.thy ===== *)
theory GoFloat
  imports Complex_Main GoPrelude "HOL-Library.Log_Nat"
begin

text \<open>
  The \<open>float64\<close> and \<open>float32\<close> arithmetic the sources use, on rationals: every operation is exact
  and then rounded to 53 (or 24) significant bits, to nearest, ties to even. The exponent is
  unbounded: the values the model meets lie far inside the range of the types. A conversion to
  \<open>int64\<close> truncates; outside the range it gives the value the amd64 instruction gives.
\<close>

section \<open>Rounding\<close>

text \<open>The nearest integer, ties to even.\<close>

definition rne :: "rat \<Rightarrow> int" where
  "rne x =
     (let f = \<lfloor>x\<rfloor>; r = x - of_int f in
      if r < 1/2 then f else if r > 1/2 then f + 1 else if even f then f else f + 1)"

text \<open>\<open>ilog2 x\<close> is the exponent of the binade of \<open>x > 0\<close>.\<close>

definition ilog2 :: "rat \<Rightarrow> int" where
  "ilog2 x =
     (let (n, d) = quotient_of x;
          k = int (floorlog 2 (nat n)) - int (floorlog 2 (nat d))
      in if 2 powi k \<le> x then k else k - 1)"

lemma ilog2_bitlen [code]:
  "ilog2 x = (let (n, d) = quotient_of x; k = bitlen n - bitlen d in if 2 powi k \<le> x then k else k - 1)"
  by (simp add: ilog2_def bitlen_def)

text \<open>\<open>fl p\<close> rounds to \<open>p + 1\<close> significant bits.\<close>

definition fl_pos :: "nat \<Rightarrow> rat \<Rightarrow> rat" where
  "fl_pos p x = (let e = ilog2 x - int p in of_int (rne (x / 2 powi e)) * 2 powi e)"

definition fl :: "nat \<Rightarrow> rat \<Rightarrow> rat" where
  "fl p x = (if x = 0 then 0 else if x > 0 then fl_pos p x else - fl_pos p (- x))"

definition f64 :: "rat \<Rightarrow> rat" where
  "f64 x = fl 52 x"

definition f32 :: "rat \<Rightarrow> rat" where
  "f32 x = fl 23 x"

definition f64_mul :: "rat \<Rightarrow> rat \<Rightarrow> rat" where
  "f64_mul x y = f64 (x * y)"

definition f64_sub :: "rat \<Rightarrow> rat \<Rightarrow> rat" where
  "f64_sub x y = f64 (x - y)"

definition f64_of_int :: "int \<Rightarrow> rat" where
  "f64_of_int i = f64 (of_int i)"

definition int64_of_f64 :: "rat \<Rightarrow> int" where
  "int64_of_f64 x =
     (let t = (if x \<ge> 0 then \<lfloor>x\<rfloor> else \<lceil>x\<rceil>) in if in_i64 t then t else - (2^63))"

section \<open>Monotonicity and exactness\<close>

lemma rne_bounds: "\<lfloor>x\<rfloor> \<le> rne x" "rne x \<le> \<lfloor>x\<rfloor> + 1"
  by (auto simp: rne_def Let_def)

lemma rne_int [simp]: "rne (of_int i) = i"
  by (simp add: rne_def)

lemma rne_mono: "x \<le> y \<Longrightarrow> rne x \<le> rne y"
proof -
  assume xy: "x \<le> y"
  show ?thesis
  proof (cases "\<lfloor>x\<rfloor> = \<lfloor>y\<rfloor>")
    case True
    with xy show ?thesis by (auto simp: rne_def Let_def)
  next
    case False
    then have "\<lfloor>x\<rfloor> + 1 \<le> \<lfloor>y\<rfloor>" using floor_mono [OF xy] by linarith
    then show ?thesis using rne_bounds [of x] rne_bounds [of y] by linarith
  qed
qed

lemma floorlog_rat:
  assumes "0 < n"
  shows "2 powi (int (floorlog 2 (nat n)) - 1) \<le> (of_int n :: rat)"
    and "(of_int n :: rat) < 2 powi (int (floorlog 2 (nat n)))"
proof -
  let ?b = "floorlog 2 (nat n)"
  have pos: "0 < ?b" using assms by (simp add: floorlog_def)
  have b: "2 ^ (?b - 1) \<le> nat n" "nat n < 2 ^ ?b"
    using floorlog_bounds [where b = 2 and x = "nat n"] assms by simp_all
  have "(2 :: int) ^ (?b - 1) \<le> n" "n < 2 ^ ?b"
    using b assms by (simp_all add: nat_less_iff le_nat_iff)
  then have "(2 :: rat) ^ (?b - 1) \<le> of_int n" "(of_int n :: rat) < 2 ^ ?b"
    by (metis of_int_le_iff of_int_numeral of_int_power, metis of_int_less_iff of_int_numeral of_int_power)
  moreover have "int ?b - 1 = int (?b - 1)" using pos by simp
  ultimately show "2 powi (int ?b - 1) \<le> (of_int n :: rat)" and "(of_int n :: rat) < 2 powi (int ?b)"
    by (simp_all add: power_int_def del: of_nat_diff)
qed

lemma powi_add: "(2 :: rat) powi a * 2 powi b = 2 powi (a + b)"
  by (simp add: power_int_add)

lemma ilog2_bounds:
  assumes "0 < x"
  shows "2 powi (ilog2 x) \<le> x" and "x < 2 powi (ilog2 x + 1)"
proof -
  obtain n d where q: "quotient_of x = (n, d)" by fastforce
  then have x: "x = of_int n / of_int d" and d: "0 < d" using quotient_of_div quotient_of_denom_pos by blast+
  have n: "0 < n" using assms d unfolding x by (simp add: zero_less_divide_iff)
  let ?bn = "int (floorlog 2 (nat n))" and ?bd = "int (floorlog 2 (nat d))"
  let ?k = "?bn - ?bd"
  note fn = floorlog_rat [OF n] and fd = floorlog_rat [OF d]
  have dr: "(0 :: rat) < of_int d" using d by simp
  have pw: "(0 :: rat) < 2 powi i" for i by simp
  have "2 powi (?k - 1) * of_int d \<le> 2 powi (?k - 1) * (2 powi ?bd :: rat)"
    using fd(2) by (intro mult_left_mono) simp_all
  also have "\<dots> = 2 powi (?bn - 1)" unfolding powi_add by (rule arg_cong [of _ _ "(powi) 2"]) simp
  also have "\<dots> \<le> of_int n" by (rule fn(1))
  finally have lo: "2 powi (?k - 1) \<le> x" unfolding x using dr by (simp add: pos_le_divide_eq)
  have "of_int n < (2 powi ?bn :: rat)" by (rule fn(2))
  also have "\<dots> = 2 powi (?k + 1) * 2 powi (?bd - 1)" unfolding powi_add by (rule arg_cong [of _ _ "(powi) 2"]) simp
  also have "\<dots> \<le> 2 powi (?k + 1) * of_int d" using fd(1) by (intro mult_left_mono) simp_all
  finally have hi: "x < 2 powi (?k + 1)" unfolding x using dr by (simp add: pos_divide_less_eq)
  show "2 powi (ilog2 x) \<le> x" "x < 2 powi (ilog2 x + 1)"
    using lo hi by (auto simp: ilog2_def q Let_def)
qed

lemma ilog2_mono:
  assumes "0 < x" and "x \<le> y"
  shows "ilog2 x \<le> ilog2 y"
proof (rule ccontr)
  assume "\<not> ilog2 x \<le> ilog2 y"
  then have "2 powi (ilog2 y + 1) \<le> (2 powi (ilog2 x) :: rat)" by (intro power_int_increasing) simp_all
  then show False using ilog2_bounds [of x] ilog2_bounds [of y] assms by linarith
qed

lemma fl_pos_bounds:
  assumes "0 < x"
  shows "2 powi (ilog2 x) \<le> fl_pos p x" and "fl_pos p x \<le> 2 powi (ilog2 x + 1)"
proof -
  let ?e = "ilog2 x - int p"
  have pos: "(0 :: rat) < 2 powi ?e" by simp
  have pw: "(2 :: rat) powi (int k) = of_int (2 ^ k)" for k by (simp add: power_int_def)
  have s: "of_int (2 ^ p) * (2 :: rat) powi ?e = 2 powi (ilog2 x)" "of_int (2 ^ Suc p) * (2 :: rat) powi ?e = 2 powi (ilog2 x + 1)"
    unfolding pw [symmetric] powi_add by (simp_all add: add.commute)
  have lo: "of_int (2 ^ p) \<le> x / 2 powi ?e" and hi: "x / 2 powi ?e \<le> of_int (2 ^ Suc p)"
    unfolding pos_le_divide_eq [OF pos] pos_divide_le_eq [OF pos] s using ilog2_bounds [OF assms] by simp_all
  have "(2 :: int) ^ p \<le> rne (x / 2 powi ?e)" "rne (x / 2 powi ?e) \<le> 2 ^ Suc p"
    using rne_mono [OF lo] rne_mono [OF hi] by (simp_all only: rne_int)
  then have r: "of_int (2 ^ p) \<le> (of_int (rne (x / 2 powi ?e)) :: rat)" "(of_int (rne (x / 2 powi ?e)) :: rat) \<le> of_int (2 ^ Suc p)"
    by (simp_all only: of_int_le_iff)
  show "2 powi (ilog2 x) \<le> fl_pos p x" "fl_pos p x \<le> 2 powi (ilog2 x + 1)"
    unfolding fl_pos_def Let_def s [symmetric]
    by (rule mult_right_mono [OF r(1)], simp) (rule mult_right_mono [OF r(2)], simp)
qed

lemma fl_pos_gt_0: "0 < x \<Longrightarrow> 0 < fl_pos p x"
  using fl_pos_bounds(1) [of x p] by (meson less_le_trans zero_less_numeral zero_less_power_int)

lemma fl_pos_mono:
  assumes "0 < x" and "x \<le> y"
  shows "fl_pos p x \<le> fl_pos p y"
proof (cases "ilog2 x = ilog2 y")
  case True
  have "x / 2 powi (ilog2 y - int p) \<le> y / 2 powi (ilog2 y - int p)" using assms by (simp add: divide_right_mono)
  then show ?thesis unfolding fl_pos_def Let_def True by (simp add: rne_mono mult_right_mono)
next
  case False
  then have "ilog2 x + 1 \<le> ilog2 y" using ilog2_mono [OF assms] by simp
  then have "2 powi (ilog2 x + 1) \<le> (2 powi (ilog2 y) :: rat)" by (intro power_int_increasing) simp_all
  then show ?thesis using fl_pos_bounds(2) [OF assms(1), of p] fl_pos_bounds(1) [of y p] assms by linarith
qed

lemma fl_sign: "fl p x \<le> 0 \<longleftrightarrow> x \<le> 0" "0 \<le> fl p x \<longleftrightarrow> 0 \<le> x"
  using fl_pos_gt_0 [of x p] fl_pos_gt_0 [of "- x" p] by (auto simp: fl_def)

lemma fl_mono:
  assumes "x \<le> y" shows "fl p x \<le> fl p y"
  using assms fl_pos_mono [of x y p] fl_pos_mono [of "- y" "- x" p] fl_pos_gt_0 [of y p] fl_pos_gt_0 [of "- x" p]
  by (auto simp: fl_def)

text \<open>A number with at most \<open>p + 1\<close> significant bits is its own rounding.\<close>

lemma fl_exact_pos:
  assumes "0 < m" and "m < 2 ^ Suc p"
  shows "fl_pos p (of_int m * 2 powi e) = of_int m * 2 powi e"
proof -
  let ?x = "of_int m * 2 powi e :: rat"
  have pos: "0 < ?x" using assms(1) by simp
  have "?x < of_int (2 ^ Suc p) * 2 powi e" using assms(2) by (intro mult_strict_right_mono) (simp_all only: of_int_less_iff, simp)
  also have "\<dots> = 2 powi (int (Suc p)) * 2 powi e" unfolding power_int_of_nat by simp
  also have "\<dots> = 2 powi (int (Suc p) + e)" by (rule powi_add)
  finally have "2 powi (ilog2 ?x) < (2 powi (int (Suc p) + e) :: rat)" using ilog2_bounds(1) [OF pos] by linarith
  then have "ilog2 ?x < int (Suc p) + e"
    using power_int_increasing [of "int (Suc p) + e" "ilog2 ?x" "2 :: rat"] by (meson not_le one_le_numeral)
  then obtain j where j: "e - (ilog2 ?x - int p) = int j" using nonneg_int_cases [of "e - (ilog2 ?x - int p)"] by auto
  have "?x / 2 powi (ilog2 ?x - int p) = of_int m * 2 powi (int j)" by (simp add: power_int_diff flip: j)
  also have "\<dots> = of_int (m * 2 ^ j)" by (simp add: power_int_def)
  finally have q: "?x / 2 powi (ilog2 ?x - int p) = of_int (m * 2 ^ j)" .
  then have "rne (?x / 2 powi (ilog2 ?x - int p)) = m * 2 ^ j" by (simp only: rne_int)
  then have "fl_pos p ?x = ?x / 2 powi (ilog2 ?x - int p) * 2 powi (ilog2 ?x - int p)"
    unfolding fl_pos_def Let_def q by simp
  then show ?thesis by simp
qed

lemma fl_exact:
  assumes "\<bar>m\<bar> < 2 ^ Suc p"
  shows "fl p (of_int m * 2 powi e) = of_int m * 2 powi e"
proof (cases m "0 :: int" rule: linorder_cases)
  case less
  have "(of_int m * 2 powi e :: rat) < 0" using less by (simp add: mult_neg_pos)
  then show ?thesis using fl_exact_pos [of "- m" p e] assms less by (simp add: fl_def)
next
  case greater
  then show ?thesis using fl_exact_pos [of m p e] assms by (simp add: fl_def zero_less_mult_iff)
qed (simp add: fl_def)

lemma f64_nonneg: "0 \<le> x \<Longrightarrow> 0 \<le> f64 x"
  by (simp add: f64_def fl_sign)

lemma f64_mono: "x \<le> y \<Longrightarrow> f64 x \<le> f64 y"
  by (simp add: f64_def fl_mono)

text \<open>Integers of at most 53 bits are floats.\<close>

lemma f64_exact_int: "0 \<le> i \<Longrightarrow> i < 2^53 \<Longrightarrow> f64 (of_int i) = of_int i"
  using fl_exact [of i 52 0] by (simp add: f64_def)

lemma f32_exact: "\<bar>m\<bar> < 2^24 \<Longrightarrow> f32 (of_int m * 2 powi e) = of_int m * 2 powi e"
  using fl_exact [of m 23 e] by (simp add: f32_def)

lemmas f32_sign = fl_sign [of 23, folded f32_def]

lemma int64_of_f64_range:
  assumes "0 \<le> x" and "x \<le> of_int i" and "in_i64 i"
  shows "0 \<le> int64_of_f64 x" and "int64_of_f64 x \<le> i"
proof -
  have "0 \<le> \<lfloor>x\<rfloor>" "\<lfloor>x\<rfloor> \<le> i" using assms(1,2) by (simp_all add: floor_le_iff le_less_trans)
  moreover from this have "in_i64 \<lfloor>x\<rfloor>" using assms(3) by (rule in_i64_between)
  ultimately show "0 \<le> int64_of_f64 x" "int64_of_f64 x \<le> i"
    using assms(1) by (simp_all add: int64_of_f64_def)
qed

end
