(* ===== verification/Settlement.thy ===== *)
theory Settlement
  imports OrderEscrow PlayerRepo GoFloat
begin

text \<open>
  The marketplace of the space example (\<open>examples/space/internal/marketplace/settlement.go\<close>),
  which settles the matches of the order service against player banks and currency balances
  and mirrors the resting orders in a database table
  (\<open>examples/space/internal/persist/postgres/market_repo.go\<close>).

  The state joins the order service, the player database, the order table, the audit log of
  trades and the messages sent to players. Every error of the table is only logged by the
  source, so a failing statement is one that changes nothing. Log lines are not modelled. The
  results of \<open>time.Now().Unix()\<close> are arguments; \<open>ts k\<close> is the one taken for the \<open>k\<close>-th trade.
\<close>

section \<open>Records of the table\<close>

text \<open>
  A \<open>time.Time\<close> of whole seconds is its Unix time; Go's zero time is 1 January of year 1.
\<close>

definition zero_time :: int where
  "zero_time = -62135596800"

definition IsZero :: "int \<Rightarrow> bool" where
  "IsZero t \<longleftrightarrow> t = zero_time"

record order_record =
  r_ID :: u64
  r_Side :: u8
  r_Owner :: string
  r_LocationID :: u32
  r_ItemID :: u32
  r_Price :: int
  r_Quantity :: int
  r_OrigQty :: int
  r_CreatedAt :: int
  r_ExpiresAt :: int

record trade_record =
  t_ItemID :: u32
  t_LocationID :: u32
  t_Price :: int
  t_Quantity :: int
  t_Buyer :: string
  t_Seller :: string
  t_OccurredAt :: int

definition orderToRecord :: "order \<Rightarrow> order_record" where
  "orderToRecord r =
     \<lparr>r_ID = o_ID r, r_Side = o_Side r, r_Owner = o_Owner r, r_LocationID = o_LocationID r,
      r_ItemID = o_ItemID r, r_Price = o_Price r, r_Quantity = o_Quantity r, r_OrigQty = o_OrigQty r,
      r_CreatedAt = o_CreatedAt r, r_ExpiresAt = (if o_ExpiresAt r > 0 then o_ExpiresAt r else zero_time)\<rparr>"

definition recordToOrder :: "order_record \<Rightarrow> order" where
  "recordToOrder r =
     \<lparr>o_ID = r_ID r, o_Side = r_Side r, o_Owner = r_Owner r, o_LocationID = r_LocationID r,
      o_ItemID = r_ItemID r, o_Price = r_Price r, o_Quantity = r_Quantity r, o_OrigQty = r_OrigQty r,
      o_CreatedAt = r_CreatedAt r, o_ExpiresAt = (if \<not> IsZero (r_ExpiresAt r) then r_ExpiresAt r else 0)\<rparr>"

definition tradeToRecord :: "u32 \<Rightarrow> u32 \<Rightarrow> int \<Rightarrow> int \<Rightarrow> string \<Rightarrow> string \<Rightarrow> int \<Rightarrow> trade_record" where
  "tradeToRecord item loc price qty buyer seller timestamp =
     \<lparr>t_ItemID = item, t_LocationID = loc, t_Price = price, t_Quantity = qty, t_Buyer = buyer,
      t_Seller = seller, t_OccurredAt = timestamp\<rparr>"

section \<open>The order table\<close>

type_synonym order_table = "(u64 \<times> order_record) list"

text \<open>\<open>id\<close> is the primary key: inserting a present one fails and changes nothing.\<close>

definition db_PlaceOrder :: "order_record \<Rightarrow> order_table \<Rightarrow> order_table" where
  "db_PlaceOrder r t = (if map_of t (r_ID r) = None then AList.update (r_ID r) r t else t)"

definition db_UpdateQuantity :: "u64 \<Rightarrow> int \<Rightarrow> order_table \<Rightarrow> order_table" where
  "db_UpdateQuantity i q t = map (\<lambda>(j, r). if j = i then (j, r\<lparr>r_Quantity := q\<rparr>) else (j, r)) t"

definition db_DeleteOrder :: "u64 \<Rightarrow> order_table \<Rightarrow> order_table" where
  "db_DeleteOrder i t = AList.delete i t"

definition db_LoadMaxOrderID :: "order_table \<Rightarrow> u64" where
  "db_LoadMaxOrderID t = fold (\<lambda>(i, _) m. max i m) t 0"

text \<open>\<open>WHERE expires_at IS NULL OR expires_at > NOW() ORDER BY id\<close>.\<close>

definition db_LoadActiveOrders :: "int \<Rightarrow> order_table \<Rightarrow> order_record list" where
  "db_LoadActiveOrders now t =
     map snd (sort_key fst (filter (\<lambda>(_, r). IsZero (r_ExpiresAt r) \<or> r_ExpiresAt r > now) t))"

section \<open>State and messages\<close>

datatype market_msg =
    TradeNotification string u64 u32 int int bool int u32
  | BankUpdate string

record market =
  mk_ob :: service
  mk_repo :: player_repo
  mk_db :: order_table
  mk_trades :: "trade_record list"
  mk_out :: "market_msg list"
  mk_TaxPct :: rat
  mk_currencyID :: u32

record place_result =
  OrderID :: u64
  FilledQty :: int
  AvgPrice :: int
  TotalCost :: int

definition zero_result :: place_result where
  "zero_result = \<lparr>OrderID = 0, FilledQty = 0, AvgPrice = 0, TotalCost = 0\<rparr>"

datatype market_error =
    CurrencyNotTradable
  | InsufficientBank int int
  | InsufficientCurrency int int
  | BookError book_error

text \<open>\<open>int64(float64(q) * float64(p) * (1.0 - TaxPct))\<close>.\<close>

definition net_price :: "rat \<Rightarrow> int \<Rightarrow> int \<Rightarrow> int" where
  "net_price tax q p =
     int64_of_f64 (f64_mul (f64_mul (f64_of_int q) (f64_of_int p)) (f64_sub 1 tax))"

definition modify_bank :: "string \<Rightarrow> (bank \<Rightarrow> bank) \<Rightarrow> market \<Rightarrow> market" where
  "modify_bank u f m = m\<lparr>mk_repo := ModifyBank (mk_repo m) u f\<rparr>"

definition modify_currency :: "string \<Rightarrow> int \<Rightarrow> market \<Rightarrow> market" where
  "modify_currency u d m = m\<lparr>mk_repo := ModifyCurrency (mk_repo m) u (mk_currencyID m) d\<rparr>"

definition mark_dirty :: "string \<Rightarrow> market \<Rightarrow> market" where
  "mark_dirty u m = m\<lparr>mk_repo := MarkDirty (mk_repo m) u\<rparr>"

definition record_trade :: "trade_record \<Rightarrow> market \<Rightarrow> market" where
  "record_trade t m = m\<lparr>mk_trades := mk_trades m @ [t]\<rparr>"

definition send_msg :: "market_msg \<Rightarrow> market \<Rightarrow> market" where
  "send_msg x m = m\<lparr>mk_out := mk_out m @ [x]\<rparr>"

text \<open>
  After a fill the table row of the resting order is updated to its remaining quantity, or
  deleted when the order is no longer indexed.
\<close>

definition persist_fill :: "u64 \<Rightarrow> market \<Rightarrow> market" where
  "persist_fill oid m =
     (case GetOrder (mk_ob m) oid of
        Some p \<Rightarrow> m\<lparr>mk_db := db_UpdateQuantity (o_ID (svc_heap (mk_ob m) p)) (o_Quantity (svc_heap (mk_ob m) p)) (mk_db m)\<rparr>
      | None \<Rightarrow> m\<lparr>mk_db := db_DeleteOrder oid (mk_db m)\<rparr>)"

section \<open>Settling the fills\<close>

text \<open>One iteration of the loop over the matches of a sale.\<close>

definition settle_sale :: "string \<Rightarrow> u32 \<Rightarrow> u32 \<Rightarrow> int \<Rightarrow> match_event \<Rightarrow> market \<Rightarrow> market" where
  "settle_sale player station item timestamp ev m =
     (let flux = net_price (mk_TaxPct m) (m_Quantity ev) (m_Price ev);
          m = modify_currency player flux m;
          m = mark_dirty player m;
          m = modify_bank (m_BuyerID ev) (bank_add item (m_Quantity ev)) m;
          m = mark_dirty (m_BuyerID ev) m;
          m = record_trade (tradeToRecord item station (m_Price ev) (m_Quantity ev) (m_BuyerID ev) player timestamp) m;
          m = send_msg (TradeNotification (m_BuyerID ev) (m_BuyOrderID ev) item (m_Quantity ev) (m_Price ev)
                          False (m_Quantity ev) (mk_currencyID m)) m
      in persist_fill (m_BuyOrderID ev) m)"

fun settle_sales :: "string \<Rightarrow> u32 \<Rightarrow> u32 \<Rightarrow> (nat \<Rightarrow> int) \<Rightarrow> match_event list \<Rightarrow> market \<times> int \<times> int \<Rightarrow> market \<times> int \<times> int" where
  "settle_sales player station item ts [] acc = acc"
| "settle_sales player station item ts (ev # evs) (m, totalFlux, filled) =
     settle_sales player station item (\<lambda>k. ts (k + 1)) evs
       (settle_sale player station item (ts 0) ev m,
        wrap64 (totalFlux + net_price (mk_TaxPct m) (m_Quantity ev) (m_Price ev)),
        wrap32 (filled + m_Quantity ev))"

text \<open>One iteration of the loop over the matches of a purchase.\<close>

definition settle_purchase :: "string \<Rightarrow> u32 \<Rightarrow> u32 \<Rightarrow> int \<Rightarrow> match_event \<Rightarrow> market \<Rightarrow> market" where
  "settle_purchase player station item timestamp ev m =
     (let tradeCost = wrap64 (m_Price ev * m_Quantity ev);
          m = modify_bank player (bank_add item (m_Quantity ev)) m;
          m = modify_currency player (wrap64 (- tradeCost)) m;
          m = mark_dirty player m;
          sellerFlux = net_price (mk_TaxPct m) (m_Quantity ev) (m_Price ev);
          m = modify_currency (m_SellerID ev) sellerFlux m;
          m = mark_dirty (m_SellerID ev) m;
          m = record_trade (tradeToRecord item station (m_Price ev) (m_Quantity ev) player (m_SellerID ev) timestamp) m;
          m = send_msg (TradeNotification (m_SellerID ev) (m_SellOrderID ev) item (m_Quantity ev) (m_Price ev)
                          True sellerFlux (mk_currencyID m)) m
      in persist_fill (m_SellOrderID ev) m)"

fun settle_purchases :: "string \<Rightarrow> u32 \<Rightarrow> u32 \<Rightarrow> (nat \<Rightarrow> int) \<Rightarrow> match_event list \<Rightarrow> market \<times> int \<times> int \<Rightarrow> market \<times> int \<times> int" where
  "settle_purchases player station item ts [] acc = acc"
| "settle_purchases player station item ts (ev # evs) (m, totalCost, filled) =
     settle_purchases player station item (\<lambda>k. ts (k + 1)) evs
       (settle_purchase player station item (ts 0) ev m,
        wrap64 (totalCost + wrap64 (m_Price ev * m_Quantity ev)),
        wrap32 (filled + m_Quantity ev))"

definition fill_result :: "int \<Rightarrow> int \<Rightarrow> place_result" where
  "fill_result amount filled =
     (if filled > 0
      then zero_result\<lparr>FilledQty := filled, AvgPrice := go_div amount filled, TotalCost := amount\<rparr>
      else zero_result\<lparr>FilledQty := filled\<rparr>)"

text \<open>\<open>bank[item] -= sold\<close>, only when something was sold.\<close>

definition withdraw_sold :: "string \<Rightarrow> u32 \<Rightarrow> int \<Rightarrow> market \<Rightarrow> market" where
  "withdraw_sold player item sold m =
     (if sold > 0 then mark_dirty player (modify_bank player (bank_take item sold) m) else m)"

definition persist_resting :: "ptr \<Rightarrow> market \<Rightarrow> market" where
  "persist_resting p m = m\<lparr>mk_db := db_PlaceOrder (orderToRecord (svc_heap (mk_ob m) p)) (mk_db m)\<rparr>"

section \<open>Operations\<close>

definition mk_PlaceSellOrder ::
  "market \<Rightarrow> string \<Rightarrow> u32 \<Rightarrow> u32 \<Rightarrow> int \<Rightarrow> int \<Rightarrow> int \<Rightarrow> int \<Rightarrow> (nat \<Rightarrow> int) \<Rightarrow> market \<times> (market_error + place_result)" where
  "mk_PlaceSellOrder m player station item price qty now1 now2 ts =
     (if item = mk_currencyID m then (m, Inl CurrencyNotTradable)
      else if GetBankBalance (mk_repo m) player item < qty
      then (m, Inl (InsufficientBank (GetBankBalance (mk_repo m) player item) qty))
      else
        (case PlaceSellOrder (mk_ob m) player station item price qty now1 now2 of
           (ob, Inl e) \<Rightarrow> (m\<lparr>mk_ob := ob\<rparr>, Inl (BookError e))
         | (ob, Inr (evs, resting)) \<Rightarrow>
             (let (m, flux, sold) = settle_sales player station item ts evs (m\<lparr>mk_ob := ob\<rparr>, 0, 0);
                  m = withdraw_sold player item sold m;
                  res = fill_result flux sold;
                  (m, res) = (case resting of
                      None \<Rightarrow> (m, res)
                    | Some p \<Rightarrow>
                        (persist_resting p (mark_dirty player (modify_bank player
                           (bank_take item (o_Quantity (svc_heap ob p))) m)),
                         res\<lparr>OrderID := o_ID (svc_heap ob p)\<rparr>))
              in (send_msg (BankUpdate player) m, Inr res))))"

definition mk_PlaceBuyOrder ::
  "market \<Rightarrow> string \<Rightarrow> u32 \<Rightarrow> u32 \<Rightarrow> int \<Rightarrow> int \<Rightarrow> int \<Rightarrow> int \<Rightarrow> (nat \<Rightarrow> int) \<Rightarrow> market \<times> (market_error + place_result)" where
  "mk_PlaceBuyOrder m player station item price qty now1 now2 ts =
     (if item = mk_currencyID m then (m, Inl CurrencyNotTradable)
      else
        (let maxCost = wrap64 (price * qty); bal = GetCurrency (mk_repo m) player (mk_currencyID m) in
         if bal < maxCost then (m, Inl (InsufficientCurrency bal maxCost))
         else
           (case PlaceBuyOrder (mk_ob m) player station item price qty now1 now2 of
              (ob, Inl e) \<Rightarrow> (m\<lparr>mk_ob := ob\<rparr>, Inl (BookError e))
            | (ob, Inr (evs, resting)) \<Rightarrow>
                (let (m, amount, bought) = settle_purchases player station item ts evs (m\<lparr>mk_ob := ob\<rparr>, 0, 0);
                     res = fill_result amount bought;
                     (m, res) = (case resting of
                         None \<Rightarrow> (m, res)
                       | Some p \<Rightarrow>
                           (let escrowCost = wrap64 (price * o_Quantity (svc_heap ob p)) in
                            (persist_resting p (mark_dirty player (modify_currency player (wrap64 (- escrowCost)) m)),
                             res\<lparr>OrderID := o_ID (svc_heap ob p)\<rparr>)))
                 in (send_msg (BankUpdate player) m, Inr res)))))"

definition mk_InstantSell ::
  "market \<Rightarrow> string \<Rightarrow> u32 \<Rightarrow> u32 \<Rightarrow> int \<Rightarrow> (nat \<Rightarrow> int) \<Rightarrow> market \<times> (market_error + place_result)" where
  "mk_InstantSell m player station item qty ts =
     (if item = mk_currencyID m then (m, Inl CurrencyNotTradable)
      else if GetBankBalance (mk_repo m) player item < qty
      then (m, Inl (InsufficientBank (GetBankBalance (mk_repo m) player item) qty))
      else
        (case InstantSell (mk_ob m) player station item qty of
           (ob, Inl e) \<Rightarrow> (m\<lparr>mk_ob := ob\<rparr>, Inl (BookError e))
         | (ob, Inr evs) \<Rightarrow>
             (let (m, flux, sold) = settle_sales player station item ts evs (m\<lparr>mk_ob := ob\<rparr>, 0, 0)
              in (send_msg (BankUpdate player) (withdraw_sold player item sold m), Inr (fill_result flux sold)))))"

text \<open>The budget of an instant purchase is the balance, whatever its sign.\<close>

definition mk_InstantBuy ::
  "market \<Rightarrow> string \<Rightarrow> u32 \<Rightarrow> u32 \<Rightarrow> int \<Rightarrow> (nat \<Rightarrow> int) \<Rightarrow> market \<times> (market_error + place_result)" where
  "mk_InstantBuy m player station item qty ts =
     (if item = mk_currencyID m then (m, Inl CurrencyNotTradable)
      else
        (case InstantBuy (mk_ob m) player station item qty (GetCurrency (mk_repo m) player (mk_currencyID m)) of
           (ob, Inl e) \<Rightarrow> (m\<lparr>mk_ob := ob\<rparr>, Inl (BookError e))
         | (ob, Inr evs) \<Rightarrow>
             (let (m, amount, bought) = settle_purchases player station item ts evs (m\<lparr>mk_ob := ob\<rparr>, 0, 0)
              in (send_msg (BankUpdate player) m, Inr (fill_result amount bought)))))"

text \<open>The escrow of an order that leaves the book unfilled goes back to a player.\<close>

definition refund :: "string \<Rightarrow> order \<Rightarrow> market \<Rightarrow> market" where
  "refund player r m =
     mark_dirty player
       (if o_Side r = SideSell then modify_bank player (bank_add (o_ItemID r) (o_Quantity r)) m
        else modify_currency player (wrap64 (o_Price r * o_Quantity r)) m)"

definition db_delete :: "u64 \<Rightarrow> market \<Rightarrow> market" where
  "db_delete oid m = m\<lparr>mk_db := db_DeleteOrder oid (mk_db m)\<rparr>"

definition mk_CancelOrder :: "market \<Rightarrow> string \<Rightarrow> u64 \<Rightarrow> market \<times> (market_error + unit)" where
  "mk_CancelOrder m player oid =
     (case CancelOrder (mk_ob m) player oid of
        (ob, Inl e) \<Rightarrow> (m\<lparr>mk_ob := ob\<rparr>, Inl (BookError e))
      | (ob, Inr p) \<Rightarrow>
          (send_msg (BankUpdate player) (refund player (svc_heap ob p) (db_delete oid (m\<lparr>mk_ob := ob\<rparr>))), Inr ()))"

definition mk_ExpireOrders :: "market \<Rightarrow> u64 list \<Rightarrow> int \<Rightarrow> market" where
  "mk_ExpireOrders m ids now =
     (case ExpireOrders (mk_ob m) ids now of
        (ob, expired) \<Rightarrow>
          fold (\<lambda>p m. refund (o_Owner (svc_heap ob p)) (svc_heap ob p) (db_delete (o_ID (svc_heap ob p)) m))
            expired (m\<lparr>mk_ob := ob\<rparr>))"

text \<open>\<open>LoadAll\<close> seeds the id counter from the table, then inserts the active rows.\<close>

definition mk_LoadAll :: "market \<Rightarrow> int \<Rightarrow> market" where
  "mk_LoadAll m now =
     (let maxID = db_LoadMaxOrderID (mk_db m);
          ob = (if maxID > 0 then SetNextID (mk_ob m) (maxID + 1) else mk_ob m)
      in m\<lparr>mk_ob := fold (\<lambda>r s. InsertLoadedOrder s (recordToOrder r)) (db_LoadActiveOrders now (mk_db m)) ob\<rparr>)"

section \<open>Tax\<close>

lemma net_price_bounds:
  assumes "0 \<le> tax" and "tax \<le> 1" and "0 < q" and "0 < p" and "p * q < 2^53"
  shows "0 \<le> net_price tax q p" and "net_price tax q p \<le> p * q"
proof -
  have "q * 1 \<le> q * p" "p * 1 \<le> p * q" using assms by (simp_all add: mult_left_mono)
  then have small: "q < 2^53" "p < 2^53" "q * p < 2^53" using assms(5) by (simp_all add: mult.commute)
  have fq: "f64_of_int q = of_int q" "f64_of_int p = of_int p"
    unfolding f64_of_int_def using assms small by (simp_all add: f64_exact_int)
  have prod: "f64_mul (of_int q) (of_int p) = of_int (q * p)"
    unfolding f64_mul_def using f64_exact_int [of "q * p"] assms small(3) by simp
  have "f64 (1 - tax) \<le> f64 1" "0 \<le> f64 (1 - tax)" using assms by (simp_all add: f64_mono f64_nonneg)
  moreover have "f64 1 = 1" using f64_exact_int [of 1] by simp
  ultimately have k: "0 \<le> f64_sub 1 tax" "f64_sub 1 tax \<le> 1" by (simp_all add: f64_sub_def)
  let ?x = "of_int (q * p) * f64_sub 1 tax"
  have x: "0 \<le> ?x" "?x \<le> of_int (q * p)"
    using k assms by (simp_all add: mult_left_le)
  have "f64 ?x \<le> f64 (of_int (q * p))" "0 \<le> f64 ?x" using x by (simp_all only: f64_mono f64_nonneg)
  then have b: "0 \<le> f64 ?x" "f64 ?x \<le> of_int (q * p)" using f64_exact_int [of "q * p"] assms small(3) by simp_all
  have "0 \<le> q * p" using assms by simp
  then have "in_i64 (q * p)" using small(3) by (auto simp: in_i64_def)
  from int64_of_f64_range [OF b this] have "0 \<le> int64_of_f64 (f64 ?x)" "int64_of_f64 (f64 ?x) \<le> p * q"
    by (simp_all only: mult.commute [of p q])
  moreover have "net_price tax q p = int64_of_f64 (f64 ?x)"
    unfolding net_price_def fq prod by (simp only: f64_mul_def)
  ultimately show "0 \<le> net_price tax q p" "net_price tax q p \<le> p * q" by simp_all
qed

lemma MarkDirty_sel [simp]:
  "pr_players (MarkDirty r u) = pr_players r" "pr_byUsername (MarkDirty r u) = pr_byUsername r"
  by (simp_all add: MarkDirty_def split: option.splits)

lemma MarkDirty_keeps [simp]:
  "repo_ok (MarkDirty r u) = repo_ok r" "bank_total (MarkDirty r u) = bank_total r"
  "currency_total (MarkDirty r u) = currency_total r" "known (MarkDirty r u) = known r"
  "GetBankBalance (MarkDirty r u) = GetBankBalance r" "GetCurrency (MarkDirty r u) = GetCurrency r"
  by (auto simp: repo_ok_def bank_total_def currency_total_def known_def GetBankBalance_def GetCurrency_def fun_eq_iff
      split: option.splits)

lemmas market_step_defs =
  modify_bank_def modify_currency_def mark_dirty_def record_trade_def send_msg_def

lemma persist_fill_sel [simp]:
  "mk_ob (persist_fill oid m) = mk_ob m" "mk_repo (persist_fill oid m) = mk_repo m"
  "mk_TaxPct (persist_fill oid m) = mk_TaxPct m" "mk_currencyID (persist_fill oid m) = mk_currencyID m"
  by (simp_all add: persist_fill_def split: option.splits)

section \<open>Balances through a settlement\<close>

text \<open>Both bounds a balance change needs, in one place.\<close>

definition room :: "player_repo \<Rightarrow> u32 \<Rightarrow> u32 \<Rightarrow> int \<Rightarrow> int \<Rightarrow> bool" where
  "room r item cur q c \<longleftrightarrow> bank_total r item + q < 2^31 \<and> currency_total r cur + c < 2^53"

lemma credit_bank:
  assumes ok: "repo_ok r" and u: "known r u" and q: "0 \<le> q" "bank_total r item + q < 2^31"
    and r': "r' = ModifyBank r u (bank_add item q)"
  shows "repo_ok r'" and "bank_total r' i = bank_total r i + (if i = item then q else 0)"
    and "currency_total r' c = currency_total r c" and "known r' v = known r v"
    and "GetCurrency r' v c = GetCurrency r v c" and "GetBankBalance r v i \<le> GetBankBalance r' v i"
proof -
  let ?d = "\<lambda>i. if i = item then q else 0"
  have "lookup0 (bank_add item q (pd_Bank p)) i = lookup0 (pd_Bank p) i + ?d i"
    if "pr_players r uid = Some p" for uid p i
    using balance_le_total(1) [OF ok that, of item] ok that q by (intro lookup0_bank_add) (auto simp: repo_ok_def)
  moreover have "0 \<le> GetBankBalance r u i + ?d i" for i
    using ok q(1) by (auto simp: GetBankBalance_def repo_ok_def split: option.splits)
  ultimately have m: "repo_ok r'" "bank_total r' i = bank_total r i + ?d i" "currency_total r' c = currency_total r c"
    "same_names r r'" "GetCurrency r' v c = GetCurrency r v c" "0 \<le> ?d i \<Longrightarrow> GetBankBalance r v i \<le> GetBankBalance r' v i"
    using modify_bank_totals [OF ok u r', of ?d] by blast+
  show "repo_ok r'" "bank_total r' i = bank_total r i + ?d i" "currency_total r' c = currency_total r c"
    "known r' v = known r v" "GetCurrency r' v c = GetCurrency r v c" "GetBankBalance r v i \<le> GetBankBalance r' v i"
    using m q(1) by (auto simp: same_names_def)
qed

lemma debit_bank:
  assumes ok: "repo_ok r" and u: "known r u" and q: "0 \<le> q" "q \<le> GetBankBalance r u item"
    and small: "bank_total r item < 2^31" and r': "r' = ModifyBank r u (bank_take item q)"
  shows "repo_ok r'" and "bank_total r' i = bank_total r i - (if i = item then q else 0)"
    and "currency_total r' c = currency_total r c" and "known r' v = known r v"
    and "GetCurrency r' v c = GetCurrency r v c"
    and "GetBankBalance r' u item = GetBankBalance r u item - q"
proof -
  let ?d = "\<lambda>i. - (if i = item then q else 0)"
  have "lookup0 (bank_take item q (pd_Bank p)) i = lookup0 (pd_Bank p) i + ?d i"
    if "pr_byUsername r u = Some uid" "pr_players r uid = Some p" for uid p i
    using lookup0_bank_take [OF q(1), of "pd_Bank p" item i] balance_le_total(1) [OF ok that(2), of item] small that q(2)
    by (simp add: GetBankBalance_def)
  moreover have "0 \<le> GetBankBalance r u i + ?d i" for i
    using ok q by (auto simp: GetBankBalance_def repo_ok_def split: option.splits)
  ultimately have m: "repo_ok r'" "bank_total r' i = bank_total r i + ?d i" "currency_total r' c = currency_total r c"
    "same_names r r'" "GetCurrency r' v c = GetCurrency r v c" "GetBankBalance r' u item = GetBankBalance r u item + ?d item"
    using modify_bank_totals [OF ok u r', of ?d] by blast+
  show "repo_ok r'" "bank_total r' i = bank_total r i - (if i = item then q else 0)" "currency_total r' c = currency_total r c"
    "known r' v = known r v" "GetCurrency r' v c = GetCurrency r v c" "GetBankBalance r' u item = GetBankBalance r u item - q"
    using m by (auto simp: same_names_def)
qed
lemma credit_currency:
  assumes "repo_ok r" and "known r u" and "0 \<le> d" and "currency_total r cur + d < 2^53"
    and "r' = ModifyCurrency r u cur d"
  shows "repo_ok r'" and "currency_total r' c = currency_total r c + (if c = cur then d else 0)"
    and "bank_total r' i = bank_total r i" and "known r' v = known r v"
    and "GetBankBalance r' v i = GetBankBalance r v i" and "GetCurrency r v cur \<le> GetCurrency r' v cur"
proof -
  have "0 \<le> GetCurrency r u cur"
    using assms(1) by (auto simp: GetCurrency_def pd_GetCurrency_def repo_ok_def split: option.splits)
  then have p: "0 \<le> GetCurrency r u cur + d" using assms(3) by simp
  have "currency_total r cur + d < 2^63" using assms(4) by simp
  note m = modify_currency_totals [OF assms(1,2,5) p this]
  show "repo_ok r'" "currency_total r' c = currency_total r c + (if c = cur then d else 0)"
    "bank_total r' i = bank_total r i" "known r' v = known r v" "GetBankBalance r' v i = GetBankBalance r v i"
    "GetCurrency r v cur \<le> GetCurrency r' v cur"
    using m assms(3) by (auto simp: same_names_def)
qed

lemma debit_currency:
  assumes "repo_ok r" and "known r u" and "0 \<le> d" and "d \<le> GetCurrency r u cur"
    and "currency_total r cur < 2^53" and "r' = ModifyCurrency r u cur (- d)"
  shows "repo_ok r'" and "currency_total r' c = currency_total r c - (if c = cur then d else 0)"
    and "bank_total r' i = bank_total r i" and "known r' v = known r v"
    and "GetBankBalance r' v i = GetBankBalance r v i" and "GetCurrency r' u cur = GetCurrency r u cur - d"
proof -
  have p: "0 \<le> GetCurrency r u cur + - d" and s: "currency_total r cur + - d < 2^63" using assms(3-5) by simp_all
  note m = modify_currency_totals [OF assms(1,2,6) p s]
  show "repo_ok r'" "currency_total r' c = currency_total r c - (if c = cur then d else 0)"
    "bank_total r' i = bank_total r i" "known r' v = known r v" "GetBankBalance r' v i = GetBankBalance r v i"
    "GetCurrency r' u cur = GetCurrency r u cur - d"
    using m by (auto simp: same_names_def)
qed

text \<open>The fixed parts of a market during a settlement.\<close>

definition same_frame :: "market \<Rightarrow> market \<Rightarrow> bool" where
  "same_frame m m' \<longleftrightarrow> mk_ob m' = mk_ob m \<and> mk_TaxPct m' = mk_TaxPct m \<and> mk_currencyID m' = mk_currencyID m \<and>
     (\<forall>u. known (mk_repo m') u = known (mk_repo m) u)"

definition sound :: "market \<Rightarrow> bool" where
  "sound m \<longleftrightarrow> repo_ok (mk_repo m) \<and> 0 \<le> mk_TaxPct m \<and> mk_TaxPct m \<le> 1"

text \<open>
  What the settlement of fills \<open>fs\<close> of an item moves: \<open>dq\<close> units into banks, \<open>dc\<close> coins into
  purses.
\<close>

definition moved :: "market \<Rightarrow> market \<Rightarrow> u32 \<Rightarrow> int \<Rightarrow> int \<Rightarrow> bool" where
  "moved m m' item dq dc \<longleftrightarrow> same_frame m m' \<and> sound m' \<and>
     (\<forall>i. bank_total (mk_repo m') i = bank_total (mk_repo m) i + (if i = item then dq else 0)) \<and>
     (\<forall>c. currency_total (mk_repo m') c = currency_total (mk_repo m) c + (if c = mk_currencyID m then dc else 0))"

lemma moved_trans:
  "moved m m1 item q1 c1 \<Longrightarrow> moved m1 m2 item q2 c2 \<Longrightarrow> moved m m2 item (q1 + q2) (c1 + c2)"
  unfolding moved_def same_frame_def by (simp add: add.assoc)

lemma settle_sale_moves:
  assumes "sound m" and "known (mk_repo m) player" and "known (mk_repo m) (m_BuyerID ev)"
    and "0 < m_Quantity ev" and "0 < m_Price ev"
    and room: "bank_total (mk_repo m) item + m_Quantity ev < 2^31"
      "currency_total (mk_repo m) (mk_currencyID m) + m_Price ev * m_Quantity ev < 2^53"
    and cur: "0 \<le> currency_total (mk_repo m) (mk_currencyID m)"
    and m': "m' = settle_sale player station item t ev m"
  shows "moved m m' item (m_Quantity ev) (net_price (mk_TaxPct m) (m_Quantity ev) (m_Price ev))"
    and "\<forall>u i. GetBankBalance (mk_repo m) u i \<le> GetBankBalance (mk_repo m') u i"
proof -
  let ?flux = "net_price (mk_TaxPct m) (m_Quantity ev) (m_Price ev)" and ?r = "mk_repo m"
  define r1 where "r1 = ModifyCurrency ?r player (mk_currencyID m) ?flux"
  define r2 where "r2 = ModifyBank (MarkDirty r1 player) (m_BuyerID ev) (bank_add item (m_Quantity ev))"
  have ok: "repo_ok ?r" and tax: "0 \<le> mk_TaxPct m" "mk_TaxPct m \<le> 1" using assms(1) by (simp_all add: sound_def)
  have "m_Price ev * m_Quantity ev < 2^53" using room(2) cur by simp
  from net_price_bounds [OF tax assms(4,5) this]
  have flux: "0 \<le> ?flux" "currency_total ?r (mk_currencyID m) + ?flux < 2^53" using room(2) by simp_all
  note c = credit_currency [OF ok assms(2) flux r1_def]
  have "known (MarkDirty r1 player) (m_BuyerID ev)" "repo_ok (MarkDirty r1 player)"
    "bank_total (MarkDirty r1 player) item + m_Quantity ev < 2^31" "0 \<le> m_Quantity ev"
    using assms(3,4) room(1) c by simp_all
  note b = credit_bank [OF this(2,1,4,3) r2_def]
  have repo: "mk_repo m' = MarkDirty r2 (m_BuyerID ev)"
    by (simp add: m' settle_sale_def Let_def market_step_defs r2_def r1_def)
  have rest: "mk_ob m' = mk_ob m" "mk_TaxPct m' = mk_TaxPct m" "mk_currencyID m' = mk_currencyID m"
    by (simp_all add: m' settle_sale_def Let_def market_step_defs)
  show "moved m m' item (m_Quantity ev) ?flux"
    using b c tax by (simp add: moved_def same_frame_def sound_def repo rest)
  show "\<forall>u i. GetBankBalance ?r u i \<le> GetBankBalance (mk_repo m') u i"
    using b(6) c(5) by (simp add: repo)
qed
lemma totals_nonneg:
  assumes "repo_ok r"
  shows "0 \<le> bank_total r i" and "0 \<le> currency_total r c"
  using assms unfolding bank_total_def currency_total_def repo_ok_def by (auto intro!: sum_nonneg)

definition qtys :: "(int \<times> order) list \<Rightarrow> int" where
  "qtys fs = sum_list (map fst fs)"

text \<open>What the sellers of the fills receive.\<close>

definition nets :: "rat \<Rightarrow> (int \<times> order) list \<Rightarrow> int" where
  "nets tax fs = (\<Sum>(q, x) \<leftarrow> fs. net_price tax q (o_Price x))"

definition fair_fills :: "player_repo \<Rightarrow> (int \<times> order) list \<Rightarrow> bool" where
  "fair_fills r fs \<longleftrightarrow> (\<forall>(q, x) \<in> set fs. 0 < q \<and> 0 < o_Price x \<and> known r (o_Owner x))"

lemma fills_Cons [simp]:
  "qtys ((q, x) # fs) = q + qtys fs" "cost ((q, x) # fs) = o_Price x * q + cost fs"
  "nets tax ((q, x) # fs) = net_price tax q (o_Price x) + nets tax fs"
  "fair_fills r ((q, x) # fs) \<longleftrightarrow> 0 < q \<and> 0 < o_Price x \<and> known r (o_Owner x) \<and> fair_fills r fs"
  by (simp_all add: qtys_def cost_def nets_def fair_fills_def)

lemma fills_Nil [simp]: "qtys [] = 0" "cost [] = 0" "nets tax [] = 0" "fair_fills r []"
  by (simp_all add: qtys_def cost_def nets_def fair_fills_def)

lemma fills_nonneg:
  "fair_fills r fs \<Longrightarrow> 0 \<le> qtys fs \<and> 0 \<le> cost fs"
  by (induction fs) (auto simp: add_nonneg_nonneg)

lemma nets_bounds:
  assumes "0 \<le> tax" and "tax \<le> 1" and "fair_fills r fs" and "cost fs < 2^53"
  shows "0 \<le> nets tax fs \<and> nets tax fs \<le> cost fs"
  using assms(3,4)
proof (induction fs)
  case (Cons f fs)
  obtain q x where f: "f = (q, x)" by fastforce
  have "0 < o_Price x * q" "0 \<le> cost fs" using Cons.prems fills_nonneg [of r fs] by (auto simp: f)
  then have "o_Price x * q < 2^53" "cost fs < 2^53" using Cons.prems(2) unfolding f fills_Cons by linarith+
  with Cons net_price_bounds [OF assms(1,2), of q "o_Price x"]
  show ?case by (auto simp: f)
qed simp

lemma fair_fills_frame: "same_frame m m' \<Longrightarrow> fair_fills (mk_repo m') fs = fair_fills (mk_repo m) fs"
  by (simp add: fair_fills_def same_frame_def)

lemma settle_sales_moves:
  assumes "sound m" and "known (mk_repo m) player" and "fair_fills (mk_repo m) fs"
    and "bank_total (mk_repo m) item + qtys fs < 2^31"
    and "currency_total (mk_repo m) (mk_currencyID m) + cost fs < 2^53"
    and "0 \<le> filled" and "filled + qtys fs < 2^31"
    and "settle_sales player station item ts (sell_events player loc item fs) (m, flux, filled) = (m', flux', filled')"
  shows "moved m m' item (qtys fs) (nets (mk_TaxPct m) fs) \<and> filled' = filled + qtys fs \<and>
    (\<forall>u i. GetBankBalance (mk_repo m) u i \<le> GetBankBalance (mk_repo m') u i)"
  using assms
proof (induction fs arbitrary: m ts flux filled)
  case Nil
  then show ?case by (auto simp: sell_events_def moved_def same_frame_def)
next
  case (Cons f fs)
  obtain q x where f: "f = (q, x)" by fastforce
  let ?ev = "sell_event player loc item q x"
  define m1 where "m1 = settle_sale player station item (ts 0) ?ev m"
  have tot: "0 \<le> currency_total (mk_repo m) (mk_currencyID m)"
    using totals_nonneg(2) Cons.prems(1) by (simp add: sound_def)
  have pos: "0 < q" "0 < o_Price x" "0 < o_Price x * q" "0 \<le> qtys fs" "0 \<le> cost fs"
    using Cons.prems(3) fills_nonneg [of "mk_repo m" fs] by (auto simp: f)
  then have small: "o_Price x * q < 2^53" using Cons.prems(5) tot by (simp add: f)
  have s: "moved m m1 item q (net_price (mk_TaxPct m) q (o_Price x))"
    "\<forall>u i. GetBankBalance (mk_repo m) u i \<le> GetBankBalance (mk_repo m1) u i"
    using settle_sale_moves [OF Cons.prems(1,2), of ?ev item m1 station "ts 0"] Cons.prems(3-5) pos tot
    by (simp_all add: f sell_event_def m1_def sound_def)
  have fr: "same_frame m m1" using s(1) by (simp add: moved_def)
  have net: "net_price (mk_TaxPct m) q (o_Price x) \<le> o_Price x * q"
    using net_price_bounds(2) [OF _ _ pos(1,2) small] Cons.prems(1) by (simp add: sound_def)
  have w: "wrap32 (filled + q) = filled + q"
    using Cons.prems(6,7) pos by (intro wrap32_nonneg) (simp_all add: f)
  have "settle_sales player station item (\<lambda>k. ts (k + 1)) (sell_events player loc item fs)
      (m1, wrap64 (flux + net_price (mk_TaxPct m) q (o_Price x)), filled + q) = (m', flux', filled')"
    using Cons.prems(8) w by (simp add: f sell_events_def m1_def sell_event_def)
  moreover have "sound m1" "known (mk_repo m1) player" "fair_fills (mk_repo m1) fs" "mk_TaxPct m1 = mk_TaxPct m"
    "bank_total (mk_repo m1) item + qtys fs < 2^31" "currency_total (mk_repo m1) (mk_currencyID m1) + cost fs < 2^53"
    "0 \<le> filled + q" "filled + q + qtys fs < 2^31"
    using s(1) Cons.prems pos net fair_fills_frame [OF fr, of fs] by (simp_all add: f moved_def same_frame_def)
  ultimately have IH: "moved m1 m' item (qtys fs) (nets (mk_TaxPct m) fs)" "filled' = filled + q + qtys fs"
    "\<forall>u i. GetBankBalance (mk_repo m1) u i \<le> GetBankBalance (mk_repo m') u i"
    using Cons.IH [of m1] by metis+
  have "\<forall>u i. GetBankBalance (mk_repo m) u i \<le> GetBankBalance (mk_repo m') u i"
    using s(2) IH(3) order_trans by blast
  with moved_trans [OF s(1) IH(1)] IH(2) show ?case by (simp add: f)
qed
lemma settle_purchase_moves:
  assumes "sound m" and "known (mk_repo m) player" and "known (mk_repo m) (m_SellerID ev)"
    and q: "0 < m_Quantity ev" "0 < m_Price ev"
    and room: "bank_total (mk_repo m) item + m_Quantity ev < 2^31" "currency_total (mk_repo m) (mk_currencyID m) < 2^53"
    and funds: "m_Price ev * m_Quantity ev \<le> GetCurrency (mk_repo m) player (mk_currencyID m)"
      "GetCurrency (mk_repo m) player (mk_currencyID m) \<le> currency_total (mk_repo m) (mk_currencyID m)"
    and m': "m' = settle_purchase player station item t ev m"
  shows "moved m m' item (m_Quantity ev)
      (net_price (mk_TaxPct m) (m_Quantity ev) (m_Price ev) - m_Price ev * m_Quantity ev)"
    and "GetCurrency (mk_repo m) player (mk_currencyID m) - m_Price ev * m_Quantity ev
      \<le> GetCurrency (mk_repo m') player (mk_currencyID m')"
proof -
  let ?c = "m_Price ev * m_Quantity ev" and ?r = "mk_repo m" and ?cur = "mk_currencyID m"
  let ?net = "net_price (mk_TaxPct m) (m_Quantity ev) (m_Price ev)"
  have ok: "repo_ok ?r" and tax: "0 \<le> mk_TaxPct m" "mk_TaxPct m \<le> 1" using assms(1) by (simp_all add: sound_def)
  have c: "0 < ?c" "?c < 2^53" using q funds room(2) by simp_all
  then have w: "wrap64 ?c = ?c" "wrap64 (- ?c) = - ?c" by (simp_all add: wrap64_id in_i64_def)
  define r1 where "r1 = ModifyBank ?r player (bank_add item (m_Quantity ev))"
  define r2 where "r2 = ModifyCurrency r1 player ?cur (- ?c)"
  define r3 where "r3 = ModifyCurrency (MarkDirty r2 player) (m_SellerID ev) ?cur ?net"
  note b = credit_bank [OF ok assms(2) order_less_imp_le [OF q(1)] room(1) r1_def]
  have "known r1 player" "0 \<le> ?c" "?c \<le> GetCurrency r1 player ?cur" "currency_total r1 ?cur < 2^53"
    using b assms(2) c funds(1) room(2) by simp_all
  note d = debit_currency [OF b(1) this r2_def]
  note n = net_price_bounds [OF tax q c(2)]
  have "repo_ok (MarkDirty r2 player)" "known (MarkDirty r2 player) (m_SellerID ev)"
    "currency_total (MarkDirty r2 player) ?cur + ?net < 2^53"
    using b d assms(3) n room(2) by simp_all
  note e = credit_currency [OF this(1,2) n(1) this(3) r3_def]
  have repo: "mk_repo m' = MarkDirty r3 (m_SellerID ev)"
    by (simp add: m' settle_purchase_def Let_def market_step_defs r3_def r2_def r1_def w)
  have rest: "mk_ob m' = mk_ob m" "mk_TaxPct m' = mk_TaxPct m" "mk_currencyID m' = mk_currencyID m"
    by (simp_all add: m' settle_purchase_def Let_def market_step_defs)
  show "moved m m' item (m_Quantity ev) (?net - ?c)"
    using b d e tax by (simp add: moved_def same_frame_def sound_def repo rest)
  show "GetCurrency ?r player ?cur - ?c \<le> GetCurrency (mk_repo m') player (mk_currencyID m')"
    using e(6) [of player] d(6) b(5) by (simp add: repo rest)
qed

lemma currency_le_total: "repo_ok r \<Longrightarrow> GetCurrency r u c \<le> currency_total r c"
  using balance_le_total(2) totals_nonneg(2)
  by (auto simp: GetCurrency_def pd_GetCurrency_def split: option.splits)

lemma settle_purchases_moves:
  assumes "sound m" and "known (mk_repo m) player" and "fair_fills (mk_repo m) fs"
    and "bank_total (mk_repo m) item + qtys fs < 2^31"
    and "currency_total (mk_repo m) (mk_currencyID m) < 2^53"
    and "cost fs \<le> GetCurrency (mk_repo m) player (mk_currencyID m)"
    and "settle_purchases player station item ts (buy_events player loc item fs) (m, amount, filled) = (m', amount', filled')"
  shows "moved m m' item (qtys fs) (nets (mk_TaxPct m) fs - cost fs) \<and>
    GetCurrency (mk_repo m) player (mk_currencyID m) - cost fs \<le> GetCurrency (mk_repo m') player (mk_currencyID m')"
  using assms
proof (induction fs arbitrary: m ts amount filled)
  case Nil
  then show ?case by (auto simp: buy_events_def moved_def same_frame_def)
next
  case (Cons f fs)
  obtain q x where f: "f = (q, x)" by fastforce
  let ?ev = "buy_event player loc item q x"
  define m1 where "m1 = settle_purchase player station item (ts 0) ?ev m"
  have pos: "0 < q" "0 < o_Price x" "0 < o_Price x * q" "0 \<le> qtys fs" "0 \<le> cost fs"
    using Cons.prems(3) fills_nonneg [of "mk_repo m" fs] by (auto simp: f)
  have ok: "repo_ok (mk_repo m)" using Cons.prems(1) by (simp add: sound_def)
  have small: "o_Price x * q < 2^53"
    using Cons.prems(5,6) pos currency_le_total [OF ok, of player "mk_currencyID m"] unfolding f fills_Cons by linarith
  have s: "moved m m1 item q (net_price (mk_TaxPct m) q (o_Price x) - o_Price x * q)"
    "GetCurrency (mk_repo m) player (mk_currencyID m) - o_Price x * q \<le> GetCurrency (mk_repo m1) player (mk_currencyID m1)"
    using settle_purchase_moves [OF Cons.prems(1,2), of ?ev item m1 station "ts 0"] Cons.prems(3-6) pos
      currency_le_total [OF ok, of player "mk_currencyID m"]
    by (simp_all add: f buy_event_def m1_def)
  have fr: "same_frame m m1" using s(1) by (simp add: moved_def)
  have net: "net_price (mk_TaxPct m) q (o_Price x) \<le> o_Price x * q"
    using net_price_bounds(2) [OF _ _ pos(1,2) small] Cons.prems(1) by (simp add: sound_def)
  have "settle_purchases player station item (\<lambda>k. ts (k + 1)) (buy_events player loc item fs)
      (m1, wrap64 (amount + wrap64 (o_Price x * q)), wrap32 (filled + q)) = (m', amount', filled')"
    using Cons.prems(7) by (simp add: f buy_events_def m1_def buy_event_def)
  moreover have "sound m1" "known (mk_repo m1) player" "fair_fills (mk_repo m1) fs" "mk_TaxPct m1 = mk_TaxPct m"
    "bank_total (mk_repo m1) item + qtys fs < 2^31" "currency_total (mk_repo m1) (mk_currencyID m1) < 2^53"
    "cost fs \<le> GetCurrency (mk_repo m1) player (mk_currencyID m1)"
    using s Cons.prems pos net fair_fills_frame [OF fr, of fs] by (simp_all add: f moved_def same_frame_def)
  ultimately have IH: "moved m1 m' item (qtys fs) (nets (mk_TaxPct m) fs - cost fs)"
    "GetCurrency (mk_repo m1) player (mk_currencyID m1) - cost fs \<le> GetCurrency (mk_repo m') player (mk_currencyID m')"
    using Cons.IH [of m1] by metis+
  have "net_price (mk_TaxPct m) q (o_Price x) - o_Price x * q + (nets (mk_TaxPct m) fs - cost fs)
      = nets (mk_TaxPct m) (f # fs) - cost (f # fs)" by (simp add: f)
  with moved_trans [OF s(1) IH(1)] s(2) IH(2) show ?case by (simp add: f)
qed

end
