(* ===== verification/MarketConservation.thy ===== *)
theory MarketConservation
  imports Settlement
begin

text \<open>
  The accounts of the market: what the operations of \<open>examples/space/internal/marketplace/settlement.go\<close> do to the goods and
  the money of the game, counted in the players' banks and purses and in the escrow of the
  resting orders.
\<close>

section \<open>Conservation\<close>

text \<open>The goods of an item and the money of the game: in purses and banks, or behind an order.\<close>

definition item_total :: "market \<Rightarrow> u32 \<Rightarrow> int" where
  "item_total m i = bank_total (mk_repo m) i + escrow (item_escrow i) (mk_ob m)"

definition coin_total :: "market \<Rightarrow> int" where
  "coin_total m = currency_total (mk_repo m) (mk_currencyID m) + escrow coin_escrow (mk_ob m)"

text \<open>
  A market in order: a sound book, nobody in debt, every order owned by a player the database
  knows, a tax between nothing and everything, and totals inside the range where \<open>int32\<close>
  quantities and \<open>float64\<close> prices are exact.
\<close>

definition market_ok :: "market \<Rightarrow> bool" where
  "market_ok m \<longleftrightarrow> svc_inv (mk_ob m) \<and> 0 < MinPrice (svc_cfg (mk_ob m)) \<and> sound m \<and>
     (\<forall>u \<in> owners (mk_ob m). known (mk_repo m) u) \<and> (\<forall>i. item_total m i < 2^30) \<and> coin_total m < 2^53"

text \<open>Goods are conserved; of the money only \<open>tax\<close> is gone.\<close>

definition conserved :: "market \<Rightarrow> market \<Rightarrow> int \<Rightarrow> bool" where
  "conserved m m' tax \<longleftrightarrow> market_ok m' \<and> 0 \<le> tax \<and> (\<forall>i. item_total m' i = item_total m i) \<and>
     coin_total m' = coin_total m - tax \<and> mk_currencyID m' = mk_currencyID m \<and>
     (\<forall>u. known (mk_repo m') u = known (mk_repo m) u)"

lemma market_okD:
  assumes "market_ok m"
  shows "svc_inv (mk_ob m)" and "0 < MinPrice (svc_cfg (mk_ob m))" and "sound m" and "repo_ok (mk_repo m)"
    and "bank_total (mk_repo m) i < 2^30" and "currency_total (mk_repo m) (mk_currencyID m) < 2^53"
    and "currency_total (mk_repo m) (mk_currencyID m) + escrow coin_escrow (mk_ob m) < 2^53"
proof -
  show a: "svc_inv (mk_ob m)" "0 < MinPrice (svc_cfg (mk_ob m))" "sound m" "repo_ok (mk_repo m)"
    using assms by (simp_all add: market_ok_def sound_def)
  have "item_total m i < 2^30" "coin_total m < 2^53" using assms by (simp_all add: market_ok_def)
  then show "bank_total (mk_repo m) i < 2^30" "currency_total (mk_repo m) (mk_currencyID m) < 2^53"
    "currency_total (mk_repo m) (mk_currencyID m) + escrow coin_escrow (mk_ob m) < 2^53"
    using escrow_nonneg(1) [OF a(1), of i] escrow_nonneg(2) [OF a(1)] a(2) by (simp_all add: item_total_def coin_total_def)
qed

lemma settle_conserves:
  assumes ok: "market_ok m" and player: "known (mk_repo m) player"
    and tr: "traded (mk_ob m) ob player item dq dc" and mv: "moved (m\<lparr>mk_ob := ob\<rparr>) m' item (- dq) d"
    and tax: "0 \<le> tax" "d + dc = - tax"
  shows "conserved m m' tax"
proof -
  have ob: "mk_ob m' = ob" and cur: "mk_currencyID m' = mk_currencyID m"
    and kn: "\<forall>u. known (mk_repo m') u = known (mk_repo m) u" and s: "sound m'"
    using mv by (simp_all add: moved_def same_frame_def)
  have it: "item_total m' i = item_total m i" for i
    using mv tr by (simp add: item_total_def ob moved_def traded_def)
  have ct: "coin_total m' = coin_total m - tax"
    using mv tr tax by (simp add: coin_total_def ob cur moved_def traded_def)
  have "\<forall>u \<in> owners ob. known (mk_repo m') u"
    using ok tr player kn unfolding market_ok_def traded_def by blast
  then have "market_ok m'"
    using ok tr s it ct tax(1) by (simp add: market_ok_def ob traded_def)
  then show ?thesis using it ct tax(1) cur kn by (simp add: conserved_def)
qed

lemma unchanged_conserves: "market_ok m \<Longrightarrow> conserved m m 0"
  by (simp add: conserved_def)

lemma moved_refl: "sound m \<Longrightarrow> moved m m item 0 0"
  by (simp add: moved_def same_frame_def)

lemma moved_send: "moved m m' item q c \<Longrightarrow> moved m (send_msg x m') item q c"
  by (simp add: moved_def same_frame_def sound_def send_msg_def)

lemma moved_persist: "moved m m' item q c \<Longrightarrow> moved m (persist_resting p m') item q c"
  by (simp add: moved_def same_frame_def sound_def persist_resting_def)

lemma take_moved:
  assumes "sound m" and "known (mk_repo m) u" and "0 \<le> q" and "q \<le> GetBankBalance (mk_repo m) u item"
    and "bank_total (mk_repo m) item < 2^31" and m': "m' = mark_dirty u (modify_bank u (bank_take item q) m)"
  shows "moved m m' item (- q) 0" and "GetBankBalance (mk_repo m') u item = GetBankBalance (mk_repo m) u item - q"
proof -
  have ok: "repo_ok (mk_repo m)" using assms(1) by (simp add: sound_def)
  note d = debit_bank [OF ok assms(2-5) refl]
  show "moved m m' item (- q) 0" "GetBankBalance (mk_repo m') u item = GetBankBalance (mk_repo m) u item - q"
    using assms(1) d by (simp_all add: m' mark_dirty_def modify_bank_def moved_def same_frame_def sound_def)
qed

lemma withdraw_moved:
  assumes "sound m" and "known (mk_repo m) u" and "0 \<le> q" and "q \<le> GetBankBalance (mk_repo m) u item"
    and "bank_total (mk_repo m) item < 2^31" and "m' = withdraw_sold u item q m"
  shows "moved m m' item (- q) 0" and "GetBankBalance (mk_repo m') u item = GetBankBalance (mk_repo m) u item - q"
  using take_moved [OF assms(1-5) refl] assms(3,6) moved_refl [OF assms(1), of item]
  by (cases "0 < q"; simp add: withdraw_sold_def)+

lemma bank_le_total: "repo_ok r \<Longrightarrow> GetBankBalance r u i \<le> bank_total r i"
  using balance_le_total(1) totals_nonneg(1) by (auto simp: GetBankBalance_def split: option.splits)

lemma fills_fair:
  assumes ok: "market_ok m" and fs: "fills_of (side_orders (mk_ob m) k sd) fs" and sd: "sd \<in> {SideSell, SideBuy}"
  shows "fair_fills (mk_repo m) fs"
  unfolding fair_fills_def
proof (intro ballI, clarify)
  fix q x assume "(q, x) \<in> set fs"
  then have x: "x \<in> set (side_orders (mk_ob m) k sd)" and q: "0 < q" using fs by (auto simp: fills_of_def)
  note inv = market_okD(1) [OF ok]
  have "0 < o_Price x" using side_orders_live(3) [OF inv x sd] market_okD(2) [OF ok] by linarith
  moreover have "known (mk_repo m) (o_Owner x)"
    using side_orders_placed(3) [OF inv x sd] ok by (simp add: market_ok_def)
  ultimately show "0 < q \<and> 0 < o_Price x \<and> known (mk_repo m) (o_Owner x)" using q by blast
qed

lemma qtys_sum: "sum_list (map fst fs) = qtys fs"
  by (simp add: qtys_def)

lemma moved_ob: "moved (m\<lparr>mk_ob := ob\<rparr>) m' item q c \<Longrightarrow> mk_ob m' = ob \<and> mk_TaxPct m' = mk_TaxPct m"
  by (simp add: moved_def same_frame_def)

lemma traded_coin_bound:
  assumes "market_ok m" and "traded (mk_ob m) ob player item dq dc"
  shows "0 \<le> escrow coin_escrow (mk_ob m) + dc"
  using assms(2) escrow_nonneg(2) [of ob] market_okD(2) [OF assms(1)] by (simp add: traded_def)

text \<open>The fills of a sale: goods to the buyers, money to the seller, the sold goods off his bank.\<close>

lemma sale_settlement:
  assumes ok: "market_ok m" and player: "known (mk_repo m) player"
    and bal: "qty \<le> GetBankBalance (mk_repo m) player item" and qty: "qty = n + qtys fs" "0 \<le> n"
    and tr: "traded (mk_ob m) ob player item dq (- cost fs)"
    and fs: "fills_of (side_orders (mk_ob m) (station, item) SideBuy) fs"
    and run: "settle_sales player station item ts (sell_events player station item fs) (m\<lparr>mk_ob := ob\<rparr>, 0, 0) = (m1, flux, sold)"
    and m2: "m2 = withdraw_sold player item sold m1"
  shows "moved (m\<lparr>mk_ob := ob\<rparr>) m2 item 0 (nets (mk_TaxPct m) fs)"
    and "n \<le> GetBankBalance (mk_repo m2) player item" and "sold = qtys fs"
    and "0 \<le> cost fs - nets (mk_TaxPct m) fs"
proof -
  let ?m = "m\<lparr>mk_ob := ob\<rparr>"
  note d = market_okD [OF ok]
  have fair: "fair_fills (mk_repo m) fs" by (rule fills_fair [OF ok fs]) simp
  note nn = fills_nonneg [OF fair]
  have q30: "qtys fs < 2^30"
    using bal qty bank_le_total [OF d(4), of player item] d(5) [of item] by linarith
  have c: "currency_total (mk_repo m) (mk_currencyID m) + cost fs < 2^53"
    using traded_coin_bound [OF ok tr] d(7) by linarith
  have s: "sound ?m" using d(3) by (simp add: sound_def)
  have sm: "moved ?m m1 item (qtys fs) (nets (mk_TaxPct m) fs)" "sold = qtys fs"
    "\<forall>u i. GetBankBalance (mk_repo m) u i \<le> GetBankBalance (mk_repo m1) u i"
    using settle_sales_moves [OF s _ _ _ _ _ _ run] player fair q30 d(5) [of item] c by simp_all
  show "sold = qtys fs" by (rule sm(2))
  have b1: "qty \<le> GetBankBalance (mk_repo m1) player item" using bal sm(3) order_trans by blast
  have w: "sound m1" "known (mk_repo m1) player" "0 \<le> qtys fs" "qtys fs \<le> GetBankBalance (mk_repo m1) player item"
    "bank_total (mk_repo m1) item < 2^31"
    using sm(1) player nn b1 qty q30 d(5) [of item] by (simp_all add: moved_def same_frame_def)
  note wd = withdraw_moved [OF w m2 [unfolded sm(2)]]
  show "moved ?m m2 item 0 (nets (mk_TaxPct m) fs)" using moved_trans [OF sm(1) wd(1)] by simp
  show "n \<le> GetBankBalance (mk_repo m2) player item" using wd(2) b1 qty by simp
  have "cost fs < 2^53" using c totals_nonneg(2) [OF d(4), of "mk_currencyID m"] by linarith
  then show "0 \<le> cost fs - nets (mk_TaxPct m) fs"
    using nets_bounds [OF _ _ fair] d(3) by (simp add: sound_def)
qed

lemma mk_PlaceSellOrder_conserves:
  assumes ok: "market_ok m" and player: "known (mk_repo m) player" and "in_i32 qty"
    and "svc_nextID (mk_ob m) + 1 \<noteq> 0"
    and run: "mk_PlaceSellOrder m player station item price qty now1 now2 ts = (m', res)"
  shows "\<exists>tax. conserved m m' tax"
proof (cases "item = mk_currencyID m \<or> GetBankBalance (mk_repo m) player item < qty \<or>
    check_place (mk_ob m) player price qty \<noteq> None")
  case True
  then have "m' = m" using run by (auto simp: mk_PlaceSellOrder_def PlaceSellOrder_def split: if_splits)
  then show ?thesis using unchanged_conserves [OF ok] by blast
next
  case False
  then have bal: "qty \<le> GetBankBalance (mk_repo m) player item" and check: "check_place (mk_ob m) player price qty = None"
    by auto
  note d = market_okD [OF ok]
  obtain ob r where ob: "PlaceSellOrder (mk_ob m) player station item price qty now1 now2 = (ob, r)" by fastforce
  obtain n fs rest where t: "r = Inr (sell_events player station item fs, rest)" "rest_holds ob rest n price"
    "traded (mk_ob m) ob player item n (- cost fs)" "fills_of (side_orders (mk_ob m) (station, item) SideBuy) fs"
    "qty = n + sum_list (map fst fs)"
    by (rule PlaceSellOrder_traded [OF d(1) check assms(3,4) ob])
  obtain m1 flux sold where st: "settle_sales player station item ts (sell_events player station item fs) (m\<lparr>mk_ob := ob\<rparr>, 0, 0) = (m1, flux, sold)"
    by (metis prod_cases3)
  define m2 where "m2 = withdraw_sold player item sold m1"
  have n: "0 \<le> n" using t(2) by (auto simp: rest_holds_def split: option.splits)
  note sale = sale_settlement [OF ok player bal t(5) [unfolded qtys_sum] n t(3,4) st m2_def]
  let ?tax = "cost fs - nets (mk_TaxPct m) fs"
  show ?thesis
  proof (cases rest)
    case None
    then have "m' = send_msg (BankUpdate player) m2"
      using run False ob t(1) st by (auto simp: mk_PlaceSellOrder_def m2_def)
    moreover have "n = 0" using t(2) None by (simp add: rest_holds_def)
    ultimately have "moved (m\<lparr>mk_ob := ob\<rparr>) m' item (- n) (nets (mk_TaxPct m) fs)" using moved_send [OF sale(1)] by simp
    from settle_conserves [OF ok player t(3) this sale(4)] show ?thesis by auto
  next
    case (Some p)
    then have hn: "o_Quantity (svc_heap ob p) = n" using t(2) by (simp add: rest_holds_def)
    have "m' = send_msg (BankUpdate player) (persist_resting p (mark_dirty player (modify_bank player (bank_take item n) m2)))"
      using run False ob t(1) st Some hn by (auto simp: mk_PlaceSellOrder_def m2_def)
    moreover have "moved m2 (mark_dirty player (modify_bank player (bank_take item n) m2)) item (- n) 0"
      using take_moved(1) [OF _ _ n sale(2) _ refl] sale(1) player d(5) [of item] by (simp add: moved_def same_frame_def)
    ultimately have "moved (m\<lparr>mk_ob := ob\<rparr>) m' item (- n) (nets (mk_TaxPct m) fs)"
      using moved_send [OF moved_persist [OF moved_trans [OF sale(1)]]] by fastforce
    from settle_conserves [OF ok player t(3) this sale(4)] show ?thesis by auto
  qed
qed
lemma mk_InstantSell_conserves:
  assumes ok: "market_ok m" and player: "known (mk_repo m) player" and "in_i32 qty"
    and run: "mk_InstantSell m player station item qty ts = (m', res)"
  shows "\<exists>tax. conserved m m' tax"
proof (cases "item = mk_currencyID m \<or> GetBankBalance (mk_repo m) player item < qty \<or> qty \<le> 0")
  case True
  then have "m' = m" using run by (auto simp: mk_InstantSell_def InstantSell_def split: if_splits)
  then show ?thesis using unchanged_conserves [OF ok] by blast
next
  case False
  then have bal: "qty \<le> GetBankBalance (mk_repo m) player item" and qty: "0 < qty" by auto
  obtain ob r where ob: "InstantSell (mk_ob m) player station item qty = (ob, r)" by fastforce
  obtain n fs where t: "r = Inr (sell_events player station item fs)" "0 \<le> n"
    "traded (mk_ob m) ob player item 0 (- cost fs)" "fills_of (side_orders (mk_ob m) (station, item) SideBuy) fs"
    "qty = n + sum_list (map fst fs)"
    by (rule InstantSell_traded [OF market_okD(1) [OF ok] qty assms(3) ob])
  obtain m1 flux sold where st: "settle_sales player station item ts (sell_events player station item fs) (m\<lparr>mk_ob := ob\<rparr>, 0, 0) = (m1, flux, sold)"
    by (metis prod_cases3)
  note sale = sale_settlement [OF ok player bal t(5) [unfolded qtys_sum] t(2-4) st refl]
  have "m' = send_msg (BankUpdate player) (withdraw_sold player item sold m1)"
    using run False ob t(1) st by (auto simp: mk_InstantSell_def)
  then have "moved (m\<lparr>mk_ob := ob\<rparr>) m' item (- 0) (nets (mk_TaxPct m) fs)" using moved_send [OF sale(1)] by simp
  from settle_conserves [OF ok player t(3) this sale(4)] show ?thesis by auto
qed

text \<open>The fills of a purchase: goods to the buyer, his money to the sellers less the tax.\<close>

lemma purchase_settlement:
  assumes ok: "market_ok m" and player: "known (mk_repo m) player"
    and bal: "cost fs \<le> GetCurrency (mk_repo m) player (mk_currencyID m)"
    and tr: "traded (mk_ob m) ob player item (- qtys fs) dc"
    and fs: "fills_of (side_orders (mk_ob m) (station, item) SideSell) fs"
    and run: "settle_purchases player station item ts (buy_events player station item fs) (m\<lparr>mk_ob := ob\<rparr>, 0, 0) = (m1, amount, bought)"
  shows "moved (m\<lparr>mk_ob := ob\<rparr>) m1 item (qtys fs) (nets (mk_TaxPct m) fs - cost fs)"
    and "GetCurrency (mk_repo m) player (mk_currencyID m) - cost fs \<le> GetCurrency (mk_repo m1) player (mk_currencyID m1)"
    and "0 \<le> cost fs - nets (mk_TaxPct m) fs"
proof -
  let ?m = "m\<lparr>mk_ob := ob\<rparr>"
  note d = market_okD [OF ok]
  have fair: "fair_fills (mk_repo m) fs" by (rule fills_fair [OF ok fs]) simp
  have s: "sound ?m" using d(3) by (simp add: sound_def)
  have "item_total m item < 2^30" using ok by (simp add: market_ok_def)
  moreover have "0 \<le> escrow (item_escrow item) (mk_ob m) - qtys fs"
    using tr escrow_nonneg(1) [of ob item] d(2) by (simp add: traded_def)
  ultimately have "bank_total (mk_repo m) item + qtys fs < 2^31" by (simp add: item_total_def)
  then show "moved ?m m1 item (qtys fs) (nets (mk_TaxPct m) fs - cost fs)"
    "GetCurrency (mk_repo m) player (mk_currencyID m) - cost fs \<le> GetCurrency (mk_repo m1) player (mk_currencyID m1)"
    using settle_purchases_moves [OF s _ _ _ _ _ run] player fair d(6) bal by simp_all
  have "cost fs < 2^53" using bal currency_le_total [OF d(4), of player "mk_currencyID m"] d(6) by linarith
  then show "0 \<le> cost fs - nets (mk_TaxPct m) fs" using nets_bounds [OF _ _ fair] d(3) by (simp add: sound_def)
qed

lemma mk_InstantBuy_conserves:
  assumes ok: "market_ok m" and player: "known (mk_repo m) player" and "in_i32 qty"
    and funds: "0 < GetCurrency (mk_repo m) player (mk_currencyID m)"
    and small: "\<forall>x \<in> set (side_orders (mk_ob m) (station, item) SideSell).
      GetCurrency (mk_repo m) player (mk_currencyID m) + o_Price x * o_Quantity x < 2^63"
    and run: "mk_InstantBuy m player station item qty ts = (m', res)"
  shows "\<exists>tax. conserved m m' tax"
proof (cases "item = mk_currencyID m \<or> qty \<le> 0")
  case True
  then have "m' = m" using run by (auto simp: mk_InstantBuy_def InstantBuy_def split: if_splits)
  then show ?thesis using unchanged_conserves [OF ok] by blast
next
  case False
  note d = market_okD [OF ok]
  let ?bal = "GetCurrency (mk_repo m) player (mk_currencyID m)"
  obtain ob r where ob: "InstantBuy (mk_ob m) player station item qty ?bal = (ob, r)" by fastforce
  have "0 < qty" using False by simp
  then obtain n fs where t: "r = Inr (buy_events player station item fs)" "0 \<le> n"
    "traded (mk_ob m) ob player item (- sum_list (map fst fs)) 0"
    "fills_of (side_orders (mk_ob m) (station, item) SideSell) fs" "qty = n + sum_list (map fst fs)" "cost fs \<le> ?bal"
    by (rule InstantBuy_traded [OF d(1) _ assms(3) d(2) funds small ob])
  obtain m1 amount bought where st: "settle_purchases player station item ts (buy_events player station item fs) (m\<lparr>mk_ob := ob\<rparr>, 0, 0) = (m1, amount, bought)"
    by (metis prod_cases3)
  note tr = t(3) [unfolded qtys_sum]
  note pur = purchase_settlement [OF ok player t(6) tr t(4) st]
  have "m' = send_msg (BankUpdate player) m1"
    using run False ob t(1) st by (auto simp: mk_InstantBuy_def)
  then have "moved (m\<lparr>mk_ob := ob\<rparr>) m' item (- (- qtys fs)) (nets (mk_TaxPct m) fs - cost fs)" using moved_send [OF pur(1)] by simp
  from settle_conserves [OF ok player tr this pur(3)] show ?thesis by auto
qed

lemma pay_moved:
  assumes "sound m" and "known (mk_repo m) u" and "0 \<le> c" and "c \<le> GetCurrency (mk_repo m) u (mk_currencyID m)"
    and "currency_total (mk_repo m) (mk_currencyID m) < 2^53"
  shows "moved m (mark_dirty u (modify_currency u (- c) m)) item 0 (- c)"
proof -
  have ok: "repo_ok (mk_repo m)" using assms(1) by (simp add: sound_def)
  show ?thesis
    using assms(1) debit_currency [OF ok assms(2-5) refl]
    by (simp add: mark_dirty_def modify_currency_def moved_def same_frame_def sound_def)
qed

lemma cost_le_limit:
  assumes "\<forall>(q, x) \<in> set fs. o_Price x \<le> price" and "\<forall>(q, x) \<in> set fs. 0 < q"
  shows "cost fs \<le> price * qtys fs"
  using assms
proof (induction fs)
  case (Cons f fs)
  obtain q x where f: "f = (q, x)" by fastforce
  have "q * o_Price x \<le> q * price" using Cons.prems by (simp add: f mult_left_mono)
  moreover have "cost fs \<le> price * qtys fs" using Cons by simp
  moreover have "cost (f # fs) = q * o_Price x + cost fs" "price * qtys (f # fs) = q * price + price * qtys fs"
    by (simp_all add: f algebra_simps)
  ultimately show ?case by linarith
qed simp

lemma mk_PlaceBuyOrder_conserves:
  assumes ok: "market_ok m" and player: "known (mk_repo m) player" and "in_i32 qty"
    and "svc_nextID (mk_ob m) + 1 \<noteq> 0" and nowrap: "in_i64 (price * qty)"
    and run: "mk_PlaceBuyOrder m player station item price qty now1 now2 ts = (m', res)"
  shows "\<exists>tax. conserved m m' tax"
proof (cases "item = mk_currencyID m \<or> GetCurrency (mk_repo m) player (mk_currencyID m) < price * qty \<or>
    check_place (mk_ob m) player price qty \<noteq> None")
  case True
  then have "m' = m" using run nowrap
    by (auto simp: mk_PlaceBuyOrder_def PlaceBuyOrder_def Let_def wrap64_id split: if_splits)
  then show ?thesis using unchanged_conserves [OF ok] by blast
next
  case False
  let ?bal = "GetCurrency (mk_repo m) player (mk_currencyID m)"
  have bal: "price * qty \<le> ?bal" and check: "check_place (mk_ob m) player price qty = None" using False by auto
  note d = market_okD [OF ok]
  have price: "0 < price" using check_placeD(1) [OF check] d(2) by linarith
  obtain ob r where ob: "PlaceBuyOrder (mk_ob m) player station item price qty now1 now2 = (ob, r)" by fastforce
  obtain n fs rest where t: "r = Inr (buy_events player station item fs, rest)" "rest_holds ob rest n price"
    "traded (mk_ob m) ob player item (- sum_list (map fst fs)) (price * n)"
    "fills_of (side_orders (mk_ob m) (station, item) SideSell) fs" "qty = n + sum_list (map fst fs)"
    "\<forall>(q, x) \<in> set fs. o_Price x \<le> price"
    by (rule PlaceBuyOrder_traded [OF d(1) check assms(3,4) ob])
  have n: "0 \<le> n" using t(2) by (auto simp: rest_holds_def split: option.splits)
  have "cost fs \<le> price * qtys fs" using cost_le_limit [OF t(6)] t(4) by (auto simp: fills_of_def)
  then have left: "price * n \<le> ?bal - cost fs" using bal t(5) by (simp add: qtys_sum algebra_simps)
  have pn: "0 \<le> price * n" using price n by simp
  obtain m1 amount bought where st: "settle_purchases player station item ts (buy_events player station item fs) (m\<lparr>mk_ob := ob\<rparr>, 0, 0) = (m1, amount, bought)"
    by (metis prod_cases3)
  have cost: "cost fs \<le> ?bal" using left pn by linarith
  note tr = t(3) [unfolded qtys_sum]
  note pur = purchase_settlement [OF ok player cost tr t(4) st]
  let ?net = "nets (mk_TaxPct m) fs - cost fs"
  have "\<exists>d. moved (m\<lparr>mk_ob := ob\<rparr>) m' item (- (- qtys fs)) d \<and> d + price * n = - (cost fs - nets (mk_TaxPct m) fs)"
  proof (cases rest)
    case None
    then have "m' = send_msg (BankUpdate player) m1"
      using run False ob t(1) st nowrap by (auto simp: mk_PlaceBuyOrder_def wrap64_id)
    moreover have "n = 0" using t(2) None by (simp add: rest_holds_def)
    ultimately show ?thesis using moved_send [OF pur(1)] by (intro exI [of _ ?net]) simp
  next
    case (Some p)
    have "price * n < 2^53"
      using left pur(3) currency_le_total [OF d(4), of player "mk_currencyID m"] d(6)
        fills_nonneg [OF fills_fair [OF ok t(4)]] by simp
    then have w: "wrap64 (price * n) = price * n" "wrap64 (- (price * n)) = - (price * n)"
      using pn by (auto intro!: wrap64_id simp: in_i64_def)
    have "o_Quantity (svc_heap ob p) = n" using t(2) Some by (simp add: rest_holds_def)
    then have "m' = send_msg (BankUpdate player) (persist_resting p (mark_dirty player (modify_currency player (- (price * n)) m1)))"
      using run False ob t(1) st Some nowrap w by (auto simp: mk_PlaceBuyOrder_def wrap64_id)
    moreover have "moved m1 (mark_dirty player (modify_currency player (- (price * n)) m1)) item 0 (- (price * n))"
      by (rule pay_moved [OF _ _ pn]) (use pur player left d(6) in \<open>simp_all add: moved_def same_frame_def\<close>)
    ultimately have "moved (m\<lparr>mk_ob := ob\<rparr>) m' item (qtys fs + 0) (?net + - (price * n))"
      using moved_send [OF moved_persist [OF moved_trans [OF pur(1)]]] by blast
    then show ?thesis by (intro exI [of _ "?net + - (price * n)"]) simp
  qed
  then obtain dd where "moved (m\<lparr>mk_ob := ob\<rparr>) m' item (- (- qtys fs)) dd" "dd + price * n = - (cost fs - nets (mk_TaxPct m) fs)"
    by blast
  from settle_conserves [OF ok player tr this(1) pur(3) this(2)] show ?thesis by blast
qed

section \<open>Refunds\<close>

text \<open>The escrow of the orders \<open>xs\<close> is back with their owners.\<close>

definition refunded :: "market \<Rightarrow> market \<Rightarrow> order list \<Rightarrow> bool" where
  "refunded m m' xs \<longleftrightarrow> same_frame m m' \<and> sound m' \<and>
     (\<forall>i. bank_total (mk_repo m') i = bank_total (mk_repo m) i + sum_list (map (item_escrow i) xs)) \<and>
     currency_total (mk_repo m') (mk_currencyID m) = currency_total (mk_repo m) (mk_currencyID m) + sum_list (map coin_escrow xs)"

lemma refunded_trans: "refunded m m1 xs \<Longrightarrow> refunded m1 m2 ys \<Longrightarrow> refunded m m2 (xs @ ys)"
  by (simp add: refunded_def same_frame_def)

lemma refund_refunded:
  assumes "sound m" and "known (mk_repo m) (o_Owner x)" and "0 \<le> o_Quantity x" and "0 \<le> o_Price x"
    and "bank_total (mk_repo m) (o_ItemID x) + item_escrow (o_ItemID x) x < 2^31"
    and "currency_total (mk_repo m) (mk_currencyID m) + coin_escrow x < 2^53"
  shows "refunded m (refund (o_Owner x) x (db_delete oid m)) [x]"
proof (cases "o_Side x = SideSell")
  case True
  then have b: "bank_total (mk_repo m) (o_ItemID x) + o_Quantity x < 2^31" using assms(5) by (simp add: item_escrow_def)
  have ok: "repo_ok (mk_repo m)" using assms(1) by (simp add: sound_def)
  from credit_bank [OF ok assms(2,3) b refl] show ?thesis
    using assms(1) True
    by (auto simp: refund_def db_delete_def refunded_def same_frame_def sound_def mark_dirty_def modify_bank_def item_escrow_def coin_escrow_def)
next
  case False
  then have b: "currency_total (mk_repo m) (mk_currencyID m) + o_Price x * o_Quantity x < 2^53"
    using assms(6) by (simp add: coin_escrow_def)
  have ok: "repo_ok (mk_repo m)" using assms(1) by (simp add: sound_def)
  have p: "0 \<le> o_Price x * o_Quantity x" using assms(3,4) by simp
  have w: "wrap64 (o_Price x * o_Quantity x) = o_Price x * o_Quantity x"
    using p b totals_nonneg(2) [OF ok, of "mk_currencyID m"] by (intro wrap64_id) (simp add: in_i64_def)
  from credit_currency [OF ok assms(2) p b refl] show ?thesis
    using assms(1) False w
    by (auto simp: refund_def db_delete_def refunded_def same_frame_def sound_def mark_dirty_def modify_currency_def item_escrow_def coin_escrow_def)
qed

lemma refunds_refunded:
  assumes "sound m" and "\<forall>x \<in> set xs. known (mk_repo m) (o_Owner x) \<and> 0 \<le> o_Quantity x \<and> 0 \<le> o_Price x"
    and "\<forall>i. bank_total (mk_repo m) i + sum_list (map (item_escrow i) xs) < 2^31"
    and "currency_total (mk_repo m) (mk_currencyID m) + sum_list (map coin_escrow xs) < 2^53"
  shows "refunded m (fold (\<lambda>x m. refund (o_Owner x) x (db_delete (o_ID x) m)) xs m) xs"
  using assms
proof (induction xs arbitrary: m)
  case Nil
  then show ?case by (simp add: refunded_def same_frame_def)
next
  case (Cons x xs)
  let ?m = "refund (o_Owner x) x (db_delete (o_ID x) m)"
  have nn: "0 \<le> sum_list (map (item_escrow i) xs)" "0 \<le> sum_list (map coin_escrow xs)" for i
    using Cons.prems(2) by (auto intro!: sum_list_nonneg simp: item_escrow_def coin_escrow_def)
  have x: "known (mk_repo m) (o_Owner x)" "0 \<le> o_Quantity x" "0 \<le> o_Price x" using Cons.prems(2) by auto
  have "bank_total (mk_repo m) (o_ItemID x) + item_escrow (o_ItemID x) x < 2^31"
    using spec [OF Cons.prems(3), of "o_ItemID x"] nn(1) [of "o_ItemID x"] by simp
  moreover have "currency_total (mk_repo m) (mk_currencyID m) + coin_escrow x < 2^53" using Cons.prems(4) nn(2) by simp
  ultimately have r: "refunded m ?m [x]" by (rule refund_refunded [OF Cons.prems(1) x])
  have "refunded ?m (fold (\<lambda>x m. refund (o_Owner x) x (db_delete (o_ID x) m)) xs ?m) xs"
    by (rule Cons.IH) (use r Cons.prems(2-4) in \<open>simp_all add: refunded_def same_frame_def add.assoc\<close>)
  from refunded_trans [OF r this] show ?case by simp
qed

lemma refund_conserves:
  assumes ok: "market_ok m" and inv: "svc_inv ob" and cfg: "svc_cfg ob = svc_cfg (mk_ob m)"
    and esc: "\<forall>f. escrow f ob = escrow f (mk_ob m) - sum_list (map f xs)"
    and own: "owners ob \<subseteq> owners (mk_ob m)" and r: "refunded (m\<lparr>mk_ob := ob\<rparr>) m' xs"
  shows "conserved m m' 0"
proof -
  have f: "mk_ob m' = ob" "mk_currencyID m' = mk_currencyID m" "sound m'" "\<forall>u. known (mk_repo m') u = known (mk_repo m) u"
    using r by (auto simp: refunded_def same_frame_def)
  have it: "item_total m' i = item_total m i" for i
    using r spec [OF esc, of "item_escrow i"] by (simp add: item_total_def f refunded_def)
  have ct: "coin_total m' = coin_total m"
    using r spec [OF esc, of coin_escrow] by (simp add: coin_total_def f refunded_def)
  have "\<forall>u \<in> owners ob. known (mk_repo m') u" using ok own f(4) unfolding market_ok_def by blast
  then have "market_ok m'" using ok f(3) inv by (simp add: market_ok_def it ct f(1) cfg)
  then show ?thesis using it ct f(2,4) by (simp add: conserved_def)
qed

lemma live_order:
  assumes "market_ok m" and "map_of (svc_orders (mk_ob m)) oid = Some p"
  shows "known (mk_repo m) (o_Owner (svc_heap (mk_ob m) p))" and "0 \<le> o_Quantity (svc_heap (mk_ob m) p)"
    and "0 \<le> o_Price (svc_heap (mk_ob m) p)"
proof -
  note d = market_okD [OF assms(1)]
  have r: "rests (mk_ob m) (order_key (svc_heap (mk_ob m) p)) (o_Side (svc_heap (mk_ob m) p)) p"
    by (rule svc_invD(4) [OF d(1) assms(2)])
  show "known (mk_repo m) (o_Owner (svc_heap (mk_ob m) p))"
    using rests_owner [OF d(1) r] assms(1) unfolding market_ok_def by blast
  show "0 \<le> o_Quantity (svc_heap (mk_ob m) p)" "0 \<le> o_Price (svc_heap (mk_ob m) p)"
    using svc_invD(5) [OF d(1) r] d(2) by (simp_all add: ptr_ok_def Let_def)
qed

lemma expired_escrow:
  assumes inv: "svc_inv s" and ids: "distinct ids" and run: "ExpireOrders s ids now = (s', qs)"
  shows "svc_inv s'" and "svc_cfg s' = svc_cfg s" and "svc_heap s' = svc_heap s" and "owners s' \<subseteq> owners s"
    and "qs = due_ptrs s ids now"
    and "escrow f s' = escrow f s - sum_list (map f (map (svc_heap s) qs))"
proof -
  note e = expire_fold [OF inv ids run [unfolded ExpireOrders_def]]
  show inv': "svc_inv s'" and qs: "qs = due_ptrs s ids now" and "svc_cfg s' = svc_cfg s" and heap: "svc_heap s' = svc_heap s"
    using e by (simp_all add: expired_state_def)
  have idx: "map_of (svc_orders s') = (\<lambda>i. case map_of (svc_orders s) i of
      Some p \<Rightarrow> if p \<in> set qs then None else Some p | None \<Rightarrow> None)"
    unfolding qs using e by (simp add: expired_state_def)
  have ptrs: "order_ptrs s' = order_ptrs s - set qs"
    unfolding set_eq_iff Diff_iff order_ptrs_indexed [OF inv'] order_ptrs_indexed [OF inv] heap idx
    by (auto split: option.splits if_splits)
  then show "owners s' \<subseteq> owners s" by (auto simp: owners_def heap)
  have sub: "set qs \<subseteq> order_ptrs s"
    unfolding qs using svc_invD(2) [OF inv] by (auto simp: set_due_ptrs order_ptrs_indexed [OF inv])
  have "sum_list (map f (map (svc_heap s) qs)) = (\<Sum>p \<in> set qs. f (svc_heap s p))"
    using sum_list_distinct_conv_sum_set [OF distinct_due_ptrs [OF inv ids, of now], of "\<lambda>p. f (svc_heap s p)"]
    by (simp add: qs comp_def)
  moreover have "finite (order_ptrs s)" by (simp add: order_ptrs_def)
  ultimately show "escrow f s' = escrow f s - sum_list (map f (map (svc_heap s) qs))"
    using sub by (simp add: escrow_def heap ptrs sum_diff)
qed

lemma escrow_room:
  assumes ok: "market_ok m" and inv: "svc_inv ob" and cfg: "svc_cfg ob = svc_cfg (mk_ob m)"
    and "escrow (item_escrow i) ob = escrow (item_escrow i) (mk_ob m) - sum_list (map (item_escrow i) xs)"
    and "escrow coin_escrow ob = escrow coin_escrow (mk_ob m) - sum_list (map coin_escrow xs)"
  shows "bank_total (mk_repo m) i + sum_list (map (item_escrow i) xs) < 2^31"
    and "currency_total (mk_repo m) (mk_currencyID m) + sum_list (map coin_escrow xs) < 2^53"
proof -
  have "item_total m i < 2^30" "coin_total m < 2^53" using ok by (simp_all add: market_ok_def)
  moreover have "0 \<le> escrow (item_escrow i) ob" "0 \<le> escrow coin_escrow ob"
    using escrow_nonneg [OF inv] market_okD(2) [OF ok] cfg by simp_all
  ultimately show "bank_total (mk_repo m) i + sum_list (map (item_escrow i) xs) < 2^31"
    "currency_total (mk_repo m) (mk_currencyID m) + sum_list (map coin_escrow xs) < 2^53"
    using assms(4,5) by (simp_all add: item_total_def coin_total_def)
qed

lemma expired_conserves:
  assumes ok: "market_ok m" and ids: "distinct ids" and run: "ExpireOrders (mk_ob m) ids now = (ob, qs)"
  shows "conserved m (mk_ExpireOrders m ids now) 0"
proof -
  let ?xs = "map (svc_heap (mk_ob m)) qs"
  note d = market_okD [OF ok]
  note e = expired_escrow [OF d(1) ids run]
  have xs: "\<forall>x \<in> set ?xs. known (mk_repo m) (o_Owner x) \<and> 0 \<le> o_Quantity x \<and> 0 \<le> o_Price x"
    using live_order [OF ok] by (auto simp: e(5) set_due_ptrs)
  note room = escrow_room [OF ok e(1,2,6) e(6)]
  have "refunded (m\<lparr>mk_ob := ob\<rparr>) (fold (\<lambda>x m. refund (o_Owner x) x (db_delete (o_ID x) m)) ?xs (m\<lparr>mk_ob := ob\<rparr>)) ?xs"
    by (rule refunds_refunded) (use xs room d(3) in \<open>simp_all add: sound_def\<close>)
  then have "refunded (m\<lparr>mk_ob := ob\<rparr>) (mk_ExpireOrders m ids now) ?xs"
    by (simp add: mk_ExpireOrders_def run fold_map comp_def e(3))
  with refund_conserves [OF ok e(1,2) _ e(4)] e(6) show ?thesis by blast
qed

lemma cancel_conserves:
  assumes ok: "market_ok m" and run: "mk_CancelOrder m player oid = (m', res)"
  shows "conserved m m' 0"
proof (cases "\<exists>p. CancelOrder (mk_ob m) player oid = (drop_order (mk_ob m) oid p, Inr p) \<and>
    map_of (svc_orders (mk_ob m)) oid = Some p \<and> o_Owner (svc_heap (mk_ob m) p) = player")
  case False
  then have "m' = m" using run by (auto simp: mk_CancelOrder_def CancelOrder_def split: option.splits if_splits)
  then show ?thesis using unchanged_conserves [OF ok] by blast
next
  case True
  let ?s = "mk_ob m"
  obtain p where p: "CancelOrder ?s player oid = (drop_order ?s oid p, Inr p)" "map_of (svc_orders ?s) oid = Some p"
    "o_Owner (svc_heap ?s p) = player" using True by blast
  let ?ob = "drop_order ?s oid p" and ?x = "svc_heap ?s p"
  note d = market_okD [OF ok]
  note dr = drop_order_spec [OF d(1) p(2) refl]
  have esc: "escrow f ?ob = escrow f ?s - f ?x" for f by (rule escrow_drop [OF d(1) p(2) refl])
  have own: "owners ?ob \<subseteq> owners ?s"
    unfolding owners_def order_ptrs_def dr(3,4) by (auto simp: AList.delete_eq)
  have "escrow f ?ob = escrow f ?s - sum_list (map f [?x])" for f using esc by simp
  note room = escrow_room [OF ok dr(1,5) this this]
  have "refunded (m\<lparr>mk_ob := ?ob\<rparr>) (refund (o_Owner ?x) ?x (db_delete oid (m\<lparr>mk_ob := ?ob\<rparr>))) [?x]"
    by (rule refund_refunded) (use live_order [OF ok p(2)] room d(3) in \<open>simp_all add: sound_def\<close>)
  then have "refunded (m\<lparr>mk_ob := ?ob\<rparr>) m' [?x]"
    using run p dr(4) by (auto simp: mk_CancelOrder_def send_msg_def refunded_def same_frame_def sound_def)
  then show ?thesis by (rule refund_conserves [OF ok dr(1,5) _ own, rotated]) (simp add: esc)
qed

section \<open>Every run of the market\<close>

text \<open>
  The requests of the market handler and the expiry tick. The premises are what the source
  takes for granted: the player is in the database, the quantity is an \<open>int32\<close>, the id counter
  does not wrap, the price of a buy order does not overflow \<open>int64\<close>, and an instant purchase
  starts from a positive balance with every order it meets priced in range.
\<close>

inductive market_step :: "market \<Rightarrow> market \<Rightarrow> bool" where
  sell: "known (mk_repo m) player \<Longrightarrow> in_i32 qty \<Longrightarrow> svc_nextID (mk_ob m) + 1 \<noteq> 0 \<Longrightarrow>
    market_step m (fst (mk_PlaceSellOrder m player station item price qty now1 now2 ts))"
| buy: "known (mk_repo m) player \<Longrightarrow> in_i32 qty \<Longrightarrow> svc_nextID (mk_ob m) + 1 \<noteq> 0 \<Longrightarrow> in_i64 (price * qty) \<Longrightarrow>
    market_step m (fst (mk_PlaceBuyOrder m player station item price qty now1 now2 ts))"
| instant_sell: "known (mk_repo m) player \<Longrightarrow> in_i32 qty \<Longrightarrow>
    market_step m (fst (mk_InstantSell m player station item qty ts))"
| instant_buy: "known (mk_repo m) player \<Longrightarrow> in_i32 qty \<Longrightarrow>
    0 < GetCurrency (mk_repo m) player (mk_currencyID m) \<Longrightarrow>
    \<forall>x \<in> set (side_orders (mk_ob m) (station, item) SideSell).
      GetCurrency (mk_repo m) player (mk_currencyID m) + o_Price x * o_Quantity x < 2^63 \<Longrightarrow>
    market_step m (fst (mk_InstantBuy m player station item qty ts))"
| cancel: "market_step m (fst (mk_CancelOrder m player oid))"
| expire: "distinct ids \<Longrightarrow> market_step m (mk_ExpireOrders m ids now)"

inductive market_run :: "market \<Rightarrow> market \<Rightarrow> bool" where
  none: "market_run m m"
| step: "market_run m m1 \<Longrightarrow> market_step m1 m2 \<Longrightarrow> market_run m m2"

lemma market_step_conserves:
  assumes "market_step m m'" and "market_ok m"
  shows "\<exists>tax. conserved m m' tax"
  using assms
proof cases
  case (sell player qty station item price now1 now2 ts)
  then show ?thesis using mk_PlaceSellOrder_conserves [OF assms(2)] surjective_pairing by metis
next
  case (buy player qty price station item now1 now2 ts)
  then show ?thesis using mk_PlaceBuyOrder_conserves [OF assms(2)] surjective_pairing by metis
next
  case (instant_sell player qty station item ts)
  then show ?thesis using mk_InstantSell_conserves [OF assms(2)] surjective_pairing by metis
next
  case (instant_buy player qty station item ts)
  then show ?thesis using mk_InstantBuy_conserves [OF assms(2) instant_buy(2-5)] surjective_pairing by metis
next
  case (cancel player oid)
  then show ?thesis using cancel_conserves [OF assms(2)] surjective_pairing by metis
next
  case (expire ids now)
  then show ?thesis using expired_conserves [OF assms(2)] surjective_pairing by metis
qed


definition demo_player :: "uuid \<Rightarrow> string \<Rightarrow> int \<Rightarrow> int \<Rightarrow> player_data" where
  "demo_player uid name coins goods =
     \<lparr>pd_UserID = uid, pd_Username = name, pd_Currencies = [1 \<mapsto> coins], pd_Cargo = Map.empty, pd_Bank = [5 \<mapsto> goods]\<rparr>"

definition demo_market :: "int \<Rightarrow> market" where
  "demo_market coins =
     \<lparr>mk_ob = NewService DefaultConfig,
      mk_repo = \<lparr>pr_players = [1 \<mapsto> demo_player 1 ''ann'' 0 10, 2 \<mapsto> demo_player 2 ''bob'' coins 0],
                 pr_byUsername = [''ann'' \<mapsto> 1, ''bob'' \<mapsto> 2], pr_dirty = {}\<rparr>,
      mk_db = [], mk_trades = [], mk_out = [], mk_TaxPct = f64 (5 / 100), mk_currencyID = 1\<rparr>"

definition demo_offer :: "int \<Rightarrow> market" where
  "demo_offer coins = fst (mk_PlaceSellOrder (demo_market coins) ''ann'' 7 5 20 10 100 100 (\<lambda>_. 100))"

definition demo_trade :: market where
  "demo_trade = fst (mk_PlaceBuyOrder (demo_offer 1000) ''bob'' 7 5 25 4 101 101 (\<lambda>_. 101))"

lemma demo_trade_values:
  "GetCurrency (mk_repo demo_trade) ''ann'' 1 = 76 \<and> GetCurrency (mk_repo demo_trade) ''bob'' 1 = 920 \<and>
   GetBankBalance (mk_repo demo_trade) ''bob'' 5 = 4"
  by code_simp

lemma demo_totals:
  "dom (pr_players (mk_repo (demo_market coins))) = {1, 2}"
  "item_total (demo_market coins) i = (if i = 5 then 10 else 0)" "coin_total (demo_market coins) = coins"
  "owners (mk_ob (demo_market coins)) = {}"
proof -
  show dom: "dom (pr_players (mk_repo (demo_market coins))) = {1, 2}" by (auto simp: demo_market_def)
  have none: "order_ptrs (mk_ob (demo_market coins)) = {}" by (simp add: demo_market_def NewService_def order_ptrs_def)
  show "item_total (demo_market coins) i = (if i = 5 then 10 else 0)" "coin_total (demo_market coins) = coins"
    unfolding item_total_def coin_total_def bank_total_def currency_total_def dom escrow_def none
    by (simp_all add: demo_market_def demo_player_def lookup0_def)
  show "owners (mk_ob (demo_market coins)) = {}" by (simp add: owners_def none)
qed

lemma demo_market_ok: "market_ok (demo_market coins)" if "0 \<le> coins" and "coins < 2^53"
proof -
  have inv: "svc_inv (mk_ob (demo_market coins))" by (simp add: demo_market_def NewService_inv)
  have tax: "0 \<le> f64 (5 / 100)" "f64 (5 / 100) \<le> 1" by code_simp+
  have "repo_ok (mk_repo (demo_market coins))"
    unfolding repo_ok_def demo_totals using that(1)
    by (auto simp: demo_market_def demo_player_def lookup0_def split: if_splits)
  then show ?thesis
    using inv tax that(2) by (simp add: market_ok_def sound_def demo_totals)
      (simp add: demo_market_def NewService_def DefaultConfig_def)
qed

lemma demo_offer_ok:
  assumes "0 \<le> coins" and "coins < 2^53"
  shows "market_step (demo_market coins) (demo_offer coins)" and "market_ok (demo_offer coins)"
    and "known (mk_repo (demo_offer coins)) ''bob''"
proof -
  show s: "market_step (demo_market coins) (demo_offer coins)"
    unfolding demo_offer_def
    by (rule market_step.sell) (simp_all add: known_def demo_market_def demo_player_def NewService_def in_i32_def)
  obtain tax where "conserved (demo_market coins) (demo_offer coins) tax"
    using market_step_conserves [OF s demo_market_ok [OF assms]] by blast
  then show "market_ok (demo_offer coins)" "known (mk_repo (demo_offer coins)) ''bob''"
    by (simp_all add: conserved_def) (simp add: known_def demo_market_def demo_player_def)
qed

lemma demo_run: "market_run (demo_market 1000) demo_trade"
proof -
  note offer = demo_offer_ok [of 1000]
  have "svc_nextID (mk_ob (demo_offer 1000)) + 1 \<noteq> 0" by code_simp
  then have "market_step (demo_offer 1000) demo_trade"
    unfolding demo_trade_def by (intro market_step.buy) (simp_all add: offer in_i32_def in_i64_def)
  moreover have "market_step (demo_market 1000) (demo_offer 1000)" by (simp add: offer)
  ultimately show ?thesis by (blast intro: market_run.intros)
qed




end
