(* ===== verification/CellId.thy ===== *)
theory CellId
  imports GoFloat
begin

text \<open>
  Cell identifiers of the mesh (\<open>pkg/universe/cell_id.go\<close>): quadtree coordinates, their world
  bounds in \<open>float32\<close>, splitting and merging, adjacency across depths, and the two string forms
  with their parser. Coordinates are \<open>int32\<close> values, the depth a \<open>uint8\<close>. A shift of
  \<open>uint32(1)\<close> by 32 or more is 0 and the quotient an infinity, which the rationals do not have:
  statements about sizes take the depth below 32. Strings are sequences of ASCII characters.
\<close>

section \<open>Identifiers\<close>

record cell_id =
  c_X :: int
  c_Y :: int
  c_Depth :: u8

type_synonym bounds = "rat \<times> rat \<times> rat \<times> rat"

definition mk_cell :: "int \<Rightarrow> int \<Rightarrow> u8 \<Rightarrow> cell_id" where
  "mk_cell x y d = \<lparr>c_X = x, c_Y = y, c_Depth = d\<rparr>"

definition FromCellCoordDepth0 :: "int \<Rightarrow> int \<Rightarrow> cell_id" where
  "FromCellCoordDepth0 x y = mk_cell x y 0"

section \<open>Geometry\<close>

definition Size :: "cell_id \<Rightarrow> rat \<Rightarrow> rat" where
  "Size c base = f32 (base / of_int (uint (push_bit (unat (c_Depth c)) (1 :: u32))))"

definition WorldOrigin :: "cell_id \<Rightarrow> rat \<Rightarrow> rat \<times> rat" where
  "WorldOrigin c base =
     (let size = Size c base
      in (f32 (f32 (of_int (c_X c)) * size), f32 (f32 (of_int (c_Y c)) * size)))"

definition WorldBounds :: "cell_id \<Rightarrow> rat \<Rightarrow> bounds" where
  "WorldBounds c base =
     (let size = Size c base;
          minX = f32 (f32 (of_int (c_X c)) * size);
          minY = f32 (f32 (of_int (c_Y c)) * size)
      in (minX, minY, f32 (minX + size), f32 (minY + size)))"

definition Children :: "cell_id \<Rightarrow> cell_id list" where
  "Children c =
     (let d = c_Depth c + 1; x2 = wrap32 (c_X c * 2); y2 = wrap32 (c_Y c * 2)
      in [mk_cell x2 y2 d, mk_cell (wrap32 (x2 + 1)) y2 d, mk_cell x2 (wrap32 (y2 + 1)) d,
          mk_cell (wrap32 (x2 + 1)) (wrap32 (y2 + 1)) d])"

text \<open>The panic at depth 0 is \<open>None\<close>.\<close>

definition Parent :: "cell_id \<Rightarrow> cell_id option" where
  "Parent c = (if c_Depth c = 0 then None else Some (mk_cell (go_div (c_X c) 2) (go_div (c_Y c) 2) (c_Depth c - 1)))"

definition Siblings :: "cell_id \<Rightarrow> cell_id list option" where
  "Siblings c = map_option Children (Parent c)"

definition Neighbors :: "cell_id \<Rightarrow> cell_id list" where
  "Neighbors c =
     (let x = c_X c; y = c_Y c; d = c_Depth c; l = wrap32 (x - 1); r = wrap32 (x + 1); u = wrap32 (y - 1); v = wrap32 (y + 1)
      in [mk_cell l u d, mk_cell x u d, mk_cell r u d, mk_cell l y d, mk_cell r y d,
          mk_cell l v d, mk_cell x v d, mk_cell r v d])"

definition max32 :: "rat \<Rightarrow> rat \<Rightarrow> rat" where
  "max32 a b = (if a > b then a else b)"

definition AreAdjacent :: "cell_id \<Rightarrow> cell_id \<Rightarrow> rat \<Rightarrow> bool" where
  "AreAdjacent a b base =
     (if a = b then False
      else
        (let (aMinX, aMinY, aMaxX, aMaxY) = WorldBounds a base;
             (bMinX, bMinY, bMaxX, bMaxY) = WorldBounds b base;
             gapX = max32 (f32 (aMinX - bMaxX)) (f32 (bMinX - aMaxX));
             gapY = max32 (f32 (aMinY - bMaxY)) (f32 (bMinY - aMaxY))
         in gapX \<le> 0 \<and> gapY \<le> 0))"

text \<open>The loop of \<open>LocalBounds\<close> that climbs to the depth-0 ancestor.\<close>

fun climb :: "nat \<Rightarrow> cell_id \<Rightarrow> cell_id" where
  "climb 0 c = c"
| "climb (Suc n) c = (case Parent c of None \<Rightarrow> c | Some p \<Rightarrow> climb n p)"

definition LocalBounds :: "cell_id \<Rightarrow> rat \<Rightarrow> bounds" where
  "LocalBounds c base =
     (if c_Depth c = 0 then (0, 0, base, base)
      else
        (let (wMinX, wMinY, wMaxX, wMaxY) = WorldBounds c base;
             root = climb (unat (c_Depth c)) c;
             rootOX = f32 (f32 (of_int (c_X root)) * base);
             rootOY = f32 (f32 (of_int (c_Y root)) * base)
         in (f32 (wMinX - rootOX), f32 (wMinY - rootOY), f32 (wMaxX - rootOX), f32 (wMaxY - rootOY))))"

definition CellDirection :: "cell_id \<Rightarrow> cell_id \<Rightarrow> rat \<Rightarrow> int \<times> int" where
  "CellDirection from to base =
     (let (aMinX, aMinY, aMaxX, aMaxY) = WorldBounds from base;
          (bMinX, bMinY, bMaxX, bMaxY) = WorldBounds to base
      in (if bMinX \<ge> aMaxX then 1 else if bMaxX \<le> aMinX then - 1 else 0,
          if bMinY \<ge> aMaxY then 1 else if bMaxY \<le> aMinY then - 1 else 0))"

section \<open>String forms\<close>

text \<open>The \<open>%d\<close> verb.\<close>

fun show_nat :: "nat \<Rightarrow> string" where
  "show_nat n = (if n < 10 then [char_of (48 + n)] else show_nat (n div 10) @ [char_of (48 + n mod 10)])"

definition show_int :: "int \<Rightarrow> string" where
  "show_int i = (if i < 0 then CHR ''-'' # show_nat (nat (- i)) else show_nat (nat i))"

definition MeshID :: "cell_id \<Rightarrow> string" where
  "MeshID c =
     (if c_Depth c = 0 then ''cell_'' @ show_int (c_X c) @ ''_'' @ show_int (c_Y c)
      else ''cell_d'' @ show_nat (unat (c_Depth c)) @ ''_'' @ show_int (c_X c) @ ''_'' @ show_int (c_Y c))"

definition cell_String :: "cell_id \<Rightarrow> string" where
  "cell_String c =
     (if c_Depth c = 0 then show_int (c_X c) @ ''_'' @ show_int (c_Y c)
      else ''d'' @ show_nat (unat (c_Depth c)) @ ''_'' @ show_int (c_X c) @ ''_'' @ show_int (c_Y c))"

text \<open>
  What \<open>fmt.Sscanf\<close> does with the formats of the parser. A literal must match, \<open>%d\<close> skips
  blanks (a newline is an error), takes a sign for a signed operand, then at least one digit and
  all that follow, and checks the width of the operand. Input left over is not an error.
\<close>

definition digit_val :: "char \<Rightarrow> nat" where
  "digit_val c = of_char c - 48"

definition is_digit :: "char \<Rightarrow> bool" where
  "is_digit c \<longleftrightarrow> 48 \<le> (of_char c :: nat) \<and> (of_char c :: nat) \<le> 57"

definition is_blank :: "char \<Rightarrow> bool" where
  "is_blank c \<longleftrightarrow> (of_char c :: nat) \<in> {9, 11, 12, 13, 32}"

definition skip_space :: "string \<Rightarrow> string option" where
  "skip_space s =
     (let r = dropWhile is_blank s in if r \<noteq> [] \<and> hd r = CHR 0x0A then None else Some r)"

definition scan_lit :: "string \<Rightarrow> string \<Rightarrow> string option" where
  "scan_lit l s = (if take (length l) s = l then Some (drop (length l) s) else None)"

definition scan_digits :: "string \<Rightarrow> (nat \<times> string) option" where
  "scan_digits s =
     (let ds = takeWhile is_digit s
      in if ds = [] then None else Some (foldl (\<lambda>a c. a * 10 + digit_val c) 0 ds, dropWhile is_digit s))"

definition scan_u8 :: "string \<Rightarrow> (u8 \<times> string) option" where
  "scan_u8 s =
     (case skip_space s of None \<Rightarrow> None
      | Some s1 \<Rightarrow> (case scan_digits s1 of None \<Rightarrow> None
         | Some (n, s2) \<Rightarrow> if n < 256 then Some (of_nat n, s2) else None))"

definition scan_i32 :: "string \<Rightarrow> (int \<times> string) option" where
  "scan_i32 s =
     (case skip_space s of None \<Rightarrow> None
      | Some s1 \<Rightarrow>
          (let neg = (s1 \<noteq> [] \<and> hd s1 = CHR ''-'');
               s2 = (if s1 \<noteq> [] \<and> (hd s1 = CHR ''-'' \<or> hd s1 = CHR ''+'') then tl s1 else s1)
           in (case scan_digits s2 of None \<Rightarrow> None
               | Some (n, s3) \<Rightarrow>
                   (let v = (if neg then - int n else int n) in if in_i32 v then Some (v, s3) else None))))"

definition scan_xy :: "u8 \<Rightarrow> string \<Rightarrow> cell_id option" where
  "scan_xy d s =
     (case scan_i32 s of None \<Rightarrow> None
      | Some (x, s1) \<Rightarrow> (case scan_lit ''_'' s1 of None \<Rightarrow> None
         | Some s2 \<Rightarrow> (case scan_i32 s2 of None \<Rightarrow> None
            | Some (y, _) \<Rightarrow> Some (mk_cell x y d))))"

definition scan_dxy :: "string \<Rightarrow> cell_id option" where
  "scan_dxy s =
     (case scan_u8 s of None \<Rightarrow> None
      | Some (d, s1) \<Rightarrow> (case scan_lit ''_'' s1 of None \<Rightarrow> None | Some s2 \<Rightarrow> scan_xy d s2))"

definition try_format :: "string \<Rightarrow> (string \<Rightarrow> cell_id option) \<Rightarrow> string \<Rightarrow> cell_id option" where
  "try_format l f s = (case scan_lit l s of None \<Rightarrow> None | Some r \<Rightarrow> f r)"

definition ParseCellID :: "string \<Rightarrow> cell_id option" where
  "ParseCellID s =
     (case try_format ''cell_d'' scan_dxy s of Some c \<Rightarrow> Some c
      | None \<Rightarrow> (case try_format ''cell_'' (scan_xy 0) s of Some c \<Rightarrow> Some c
         | None \<Rightarrow> (case try_format ''d'' scan_dxy s of Some c \<Rightarrow> Some c
            | None \<Rightarrow> scan_xy 0 s)))"

section \<open>The parser inverts both printers\<close>

declare show_nat.simps [simp del]

lemma is_digit_char: "n < 10 \<Longrightarrow> is_digit (char_of (48 + n))" and digit_val_char: "n < 10 \<Longrightarrow> digit_val (char_of (48 + n)) = n"
  by (simp_all add: is_digit_def digit_val_def)

lemma show_nat_digits: "\<forall>c \<in> set (show_nat n). is_digit c"
  by (induction n rule: show_nat.induct) (subst show_nat.simps, auto simp: is_digit_char)

lemma show_nat_ne: "show_nat n \<noteq> []"
  by (subst show_nat.simps) simp

lemma show_nat_value: "foldl (\<lambda>a c. a * 10 + digit_val c) 0 (show_nat n) = n"
  by (induction n rule: show_nat.induct) (subst show_nat.simps, auto simp: digit_val_char)

definition no_digit_ahead :: "string \<Rightarrow> bool" where
  "no_digit_ahead r \<longleftrightarrow> r = [] \<or> \<not> is_digit (hd r)"

lemma span_digits:
  assumes "\<forall>c \<in> set ds. is_digit c" and "no_digit_ahead r"
  shows "takeWhile is_digit (ds @ r) = ds" and "dropWhile is_digit (ds @ r) = r"
  using assms by (cases r; simp add: no_digit_ahead_def takeWhile_append dropWhile_append)+

lemma scan_digits_show: "no_digit_ahead r \<Longrightarrow> scan_digits (show_nat n @ r) = Some (n, r)"
  by (simp add: scan_digits_def span_digits [OF show_nat_digits] show_nat_ne show_nat_value)

lemma skip_space_digit: "is_digit c \<or> c = CHR ''-'' \<Longrightarrow> skip_space (c # s) = Some (c # s)"
  by (auto simp: skip_space_def is_digit_def is_blank_def Let_def)

lemma show_nat_Cons: obtains c cs where "show_nat n = c # cs" "is_digit c"
  using show_nat_ne show_nat_digits by (metis list.set_intros(1) neq_Nil_conv)

lemma scan_u8_show: "no_digit_ahead r \<Longrightarrow> scan_u8 (show_nat (unat d) @ r) = Some (d, r)"
proof -
  assume r: "no_digit_ahead r"
  obtain c cs where c: "show_nat (unat d) = c # cs" "is_digit c" by (rule show_nat_Cons)
  have "skip_space (show_nat (unat d) @ r) = Some (show_nat (unat d) @ r)" using c by (simp add: skip_space_digit)
  moreover have "unat d < 2 ^ LENGTH(8)" by (rule unsigned_less)
  ultimately show ?thesis by (simp add: scan_u8_def scan_digits_show [OF r])
qed

lemma scan_i32_show:
  assumes "in_i32 i" and r: "no_digit_ahead r"
  shows "scan_i32 (show_int i @ r) = Some (i, r)"
proof (cases "i < 0")
  case True
  then show ?thesis
    using assms by (simp add: show_int_def scan_i32_def skip_space_digit scan_digits_show)
next
  case False
  obtain c cs where c: "show_nat (nat i) = c # cs" "is_digit c" by (rule show_nat_Cons)
  then have "c \<noteq> CHR ''-''" "c \<noteq> CHR ''+''" by (auto simp: is_digit_def)
  moreover have "scan_digits (c # cs @ r) = Some (nat i, r)" using scan_digits_show [OF r, of "nat i"] c by simp
  ultimately show ?thesis
    using False assms c by (simp add: show_int_def scan_i32_def skip_space_digit)
qed

lemma scan_lit_append: "scan_lit l (l @ s) = Some s"
  by (simp add: scan_lit_def)

lemma no_digit_underscore: "no_digit_ahead (CHR ''_'' # s)" "no_digit_ahead []"
  by (simp_all add: no_digit_ahead_def is_digit_def)

lemma scan_xy_show:
  assumes "in_i32 x" and "in_i32 y"
  shows "scan_xy d (show_int x @ CHR ''_'' # show_int y) = Some (mk_cell x y d)"
  using scan_i32_show [OF assms(1) no_digit_underscore(1)] scan_i32_show [OF assms(2) no_digit_underscore(2)]
    scan_lit_append [of "''_''"] by (simp add: scan_xy_def)

lemma scan_dxy_show:
  assumes "in_i32 x" and "in_i32 y"
  shows "scan_dxy (show_nat (unat d) @ CHR ''_'' # show_int x @ CHR ''_'' # show_int y) = Some (mk_cell x y d)"
  using scan_u8_show [OF no_digit_underscore(1)] scan_xy_show [OF assms] scan_lit_append [of "''_''"] by (simp add: scan_dxy_def)

lemma show_int_Cons: obtains c cs where "show_int i = c # cs" "is_digit c \<or> c = CHR ''-''"
proof (cases "i < 0")
  case True
  then show ?thesis by (intro that [of "CHR ''-''" "show_nat (nat (- i))"]) (simp_all add: show_int_def)
next
  case False
  obtain c cs where "show_nat (nat i) = c # cs" "is_digit c" by (rule show_nat_Cons)
  with False show ?thesis by (intro that [of c cs]) (simp_all add: show_int_def)
qed

lemma parse_forms:
  assumes "in_i32 (c_X c)" and "in_i32 (c_Y c)"
  shows "ParseCellID (MeshID c) = Some c" and "ParseCellID (cell_String c) = Some c"
proof -
  let ?xy = "show_int (c_X c) @ CHR ''_'' # show_int (c_Y c)"
  obtain h t where h: "show_int (c_X c) = h # t" "is_digit h \<or> h = CHR ''-''" by (rule show_int_Cons)
  then have first: "h \<noteq> CHR ''d''" "h \<noteq> CHR ''c''" by (auto simp: is_digit_def)
  have c: "mk_cell (c_X c) (c_Y c) (c_Depth c) = c" by (simp add: mk_cell_def)
  have no_d: "scan_lit ''cell_d'' (''cell_'' @ ?xy) = None" "scan_lit ''d'' ?xy = None" "scan_lit ''cell_'' ?xy = None" "scan_lit ''cell_d'' ?xy = None"
    using first by (simp_all add: scan_lit_def h(1))
  have no_c: "scan_lit ''cell_d'' (CHR ''d'' # s) = None" "scan_lit ''cell_'' (CHR ''d'' # s) = None" for s
    by (simp_all add: scan_lit_def)
  note lit = scan_lit_append [of "''cell_d''"] scan_lit_append [of "''cell_''"] scan_lit_append [of "''d''"]
  show "ParseCellID (MeshID c) = Some c"
    using c no_d lit scan_xy_show [OF assms, of "c_Depth c"] scan_dxy_show [OF assms, of "c_Depth c"]
    by (auto simp: ParseCellID_def MeshID_def try_format_def)
  show "ParseCellID (cell_String c) = Some c"
    using c no_d no_c lit scan_xy_show [OF assms, of "c_Depth c"] scan_dxy_show [OF assms, of "c_Depth c"]
    by (auto simp: ParseCellID_def cell_String_def try_format_def)
qed

text \<open>
  C28. The parser is a true inverse of both printers: for every cell with \<open>int32\<close> coordinates, at
  any depth, \<open>ParseCellID\<close> returns it from its mesh form and from its display form.
\<close>

theorem parse_inverts_both_forms:
  assumes "in_i32 (c_X c)" and "in_i32 (c_Y c)"
  shows "ParseCellID (MeshID c) = Some c \<and> ParseCellID (cell_String c) = Some c"
  using parse_forms [OF assms] by simp

theorem parse_inverts_both_forms_witness:
  "MeshID (mk_cell (- 12) 345 2) = ''cell_d2_-12_345'' \<and>
   ParseCellID ''cell_d2_-12_345'' = Some (mk_cell (- 12) 345 2) \<and>
   cell_String (mk_cell (- 12) 345 2) = ''d2_-12_345'' \<and>
   ParseCellID ''d2_-12_345'' = Some (mk_cell (- 12) 345 2)"
proof -
  have f: "MeshID (mk_cell (- 12) 345 2) = ''cell_d2_-12_345''" "cell_String (mk_cell (- 12) 345 2) = ''d2_-12_345''"
    by code_simp+
  have "in_i32 (c_X (mk_cell (- 12) 345 2))" "in_i32 (c_Y (mk_cell (- 12) 345 2))" by (simp_all add: mk_cell_def in_i32_def)
  from parse_inverts_both_forms [OF this] show ?thesis unfolding f by simp
qed

section \<open>Exact geometry\<close>

text \<open>
  A cell whose bounds are exact in \<open>float32\<close>: the base size is \<open>m\<close> times a power of two and
  the coordinates times \<open>m\<close> fit in 24 bits.
\<close>

definition exact_cell :: "rat \<Rightarrow> cell_id \<Rightarrow> bool" where
  "exact_cell base c \<longleftrightarrow> c_Depth c < 32 \<and>
     (\<exists>m e. 0 < m \<and> base = of_int m * 2 powi e \<and> (\<bar>c_X c\<bar> + 1) * m < 2^24 \<and> (\<bar>c_Y c\<bar> + 1) * m < 2^24)"

text \<open>The corners in units of the base size.\<close>

definition lo :: "(cell_id \<Rightarrow> int) \<Rightarrow> cell_id \<Rightarrow> rat" where
  "lo f c = of_int (f c) / 2 ^ unat (c_Depth c)"

definition hi :: "(cell_id \<Rightarrow> int) \<Rightarrow> cell_id \<Rightarrow> rat" where
  "hi f c = (of_int (f c) + 1) / 2 ^ unat (c_Depth c)"

lemma lo_less_hi: "lo f c < hi f c"
  by (simp add: lo_def hi_def divide_strict_right_mono)

lemma exact_depth: "exact_cell base c \<Longrightarrow> unat (c_Depth c) < 32"
  by (simp add: exact_cell_def word_less_nat_alt)

lemma uint_shift_1:
  assumes "n < 32" shows "uint (push_bit n (1 :: u32)) = 2 ^ n"
proof -
  have "push_bit n (1 :: u32) = word_of_int (2 ^ n)" by (simp add: push_bit_of_1)
  moreover have "(2 :: int) ^ n < 2 ^ 32" using assms by (rule power_strict_increasing) simp
  ultimately show ?thesis using assms by (simp add: unsigned_of_int take_bit_int_eq_self_iff del: word_of_int_power_hom of_int_power)
qed

lemma exact_Size:
  assumes "exact_cell base c"
  shows "Size c base = base / 2 ^ unat (c_Depth c)"
proof -
  obtain m e where m: "0 < m" "base = of_int m * 2 powi e" "(\<bar>c_X c\<bar> + 1) * m < 2^24"
    using assms by (auto simp: exact_cell_def)
  have "m \<le> (\<bar>c_X c\<bar> + 1) * m" using m(1) by simp
  then have "\<bar>m\<bar> < 2^24" using m by linarith
  note ex = f32_exact [OF this]
  note d = exact_depth [OF assms]
  have "uint (push_bit (unat (c_Depth c)) (1 :: u32)) = 2 ^ unat (c_Depth c)"
    by (rule uint_shift_1 [OF d])
  moreover have "base / 2 ^ n = of_int m * 2 powi (e - int n)" for n unfolding m(2) by (simp add: power_int_diff)
  ultimately show ?thesis using ex by (simp add: Size_def)
qed

lemma exact_bounds:
  assumes "exact_cell base c"
  shows "WorldBounds c base = (base * lo c_X c, base * lo c_Y c, base * hi c_X c, base * hi c_Y c)"
proof -
  obtain m e where m: "0 < m" "base = of_int m * 2 powi e" "(\<bar>c_X c\<bar> + 1) * m < 2^24" "(\<bar>c_Y c\<bar> + 1) * m < 2^24"
    using assms by (auto simp: exact_cell_def)
  obtain n where n: "n = unat (c_Depth c)" by simp
  let ?d = "int n"
  have s: "base / 2 ^ unat (c_Depth c) = of_int m * 2 powi (e - ?d)" unfolding m(2) n [symmetric] by (simp add: power_int_diff)
  have one: "f32 (of_int i) = of_int i \<and> f32 (of_int i * (of_int m * 2 powi (e - ?d))) = of_int i * (of_int m * 2 powi (e - ?d)) \<and>
      f32 (of_int i * (of_int m * 2 powi (e - ?d)) + of_int m * 2 powi (e - ?d)) = (of_int i + 1) * (of_int m * 2 powi (e - ?d))"
    if i: "(\<bar>i\<bar> + 1) * m < 2^24" for i
  proof -
    have "\<bar>i\<bar> + 1 \<le> (\<bar>i\<bar> + 1) * m" using m(1) by simp
    then have a: "\<bar>i\<bar> < 2^24" using i by linarith
    have "\<bar>i * m\<bar> \<le> (\<bar>i\<bar> + 1) * m" "\<bar>(i + 1) * m\<bar> \<le> (\<bar>i\<bar> + 1) * m"
      using m(1) by (simp_all add: abs_mult mult_right_mono)
    then have b: "\<bar>i * m\<bar> < 2^24" "\<bar>(i + 1) * m\<bar> < 2^24" using i by linarith+
    show ?thesis
      using f32_exact [OF a, of 0] f32_exact [OF b(1), of "e - ?d"] f32_exact [OF b(2), of "e - ?d"]
      by (simp add: algebra_simps)
  qed
  note x = one [OF m(3)] and y = one [OF m(4)]
  have l: "base * lo f c = of_int (f c) * (of_int m * 2 powi (e - ?d))"
    "base * hi f c = (of_int (f c) + 1) * (of_int m * 2 powi (e - ?d))" for f
    unfolding lo_def hi_def s [symmetric] by simp_all
  show ?thesis unfolding WorldBounds_def exact_Size [OF assms] Let_def s l using x y by simp
qed

lemma exact_base_pos: "exact_cell base c \<Longrightarrow> 0 < base"
  by (auto simp: exact_cell_def)

text \<open>Two closed rectangles meet.\<close>

definition touch :: "cell_id \<Rightarrow> cell_id \<Rightarrow> bool" where
  "touch a b \<longleftrightarrow> lo c_X a \<le> hi c_X b \<and> lo c_X b \<le> hi c_X a \<and> lo c_Y a \<le> hi c_Y b \<and> lo c_Y b \<le> hi c_Y a"

lemma touch_sym: "touch a b = touch b a"
  by (auto simp: touch_def)

lemma max32_le: "max32 a b \<le> x \<longleftrightarrow> a \<le> x \<and> b \<le> x"
  by (auto simp: max32_def)

lemma adjacent_iff_touch:
  assumes "exact_cell base a" and "exact_cell base b"
  shows "AreAdjacent a b base \<longleftrightarrow> a \<noteq> b \<and> touch a b"
proof -
  have gap: "max32 (f32 (base * p - base * q)) (f32 (base * r - base * s)) \<le> 0 \<longleftrightarrow> p \<le> q \<and> r \<le> s" for p q r s
    using exact_base_pos [OF assms(1)] by (simp add: max32_le f32_sign)
  show ?thesis
    unfolding AreAdjacent_def exact_bounds [OF assms(1)] exact_bounds [OF assms(2)] Let_def prod.case gap touch_def by auto
qed

section \<open>Splitting and merging\<close>

text \<open>A cell that can be split without leaving the exact range.\<close>

definition splittable :: "rat \<Rightarrow> cell_id \<Rightarrow> bool" where
  "splittable base c \<longleftrightarrow> exact_cell base c \<and> (\<forall>k \<in> set (Children c). exact_cell base k)"

lemma child_cases:
  assumes "c_Depth c < 32" and "\<bar>c_X c\<bar> < 2^24" and "\<bar>c_Y c\<bar> < 2^24"
  shows "Children c =
    [mk_cell (2 * c_X c) (2 * c_Y c) (c_Depth c + 1), mk_cell (2 * c_X c + 1) (2 * c_Y c) (c_Depth c + 1),
     mk_cell (2 * c_X c) (2 * c_Y c + 1) (c_Depth c + 1), mk_cell (2 * c_X c + 1) (2 * c_Y c + 1) (c_Depth c + 1)]"
    and "unat (c_Depth c + 1) = unat (c_Depth c) + 1"
proof -
  have w: "wrap32 (2 * x) = 2 * x" "wrap32 (2 * x + 1) = 2 * x + 1" if "\<bar>x\<bar> < 2^24" for x :: int
    using that by (intro wrap32_id; simp add: in_i32_def abs_less_iff)+
  show "Children c = [mk_cell (2 * c_X c) (2 * c_Y c) (c_Depth c + 1), mk_cell (2 * c_X c + 1) (2 * c_Y c) (c_Depth c + 1),
     mk_cell (2 * c_X c) (2 * c_Y c + 1) (c_Depth c + 1), mk_cell (2 * c_X c + 1) (2 * c_Y c + 1) (c_Depth c + 1)]"
    using w [OF assms(2)] w [OF assms(3)] by (simp add: Children_def Let_def mult.commute)
  have "unat (c_Depth c) < 32" using assms(1) by (simp add: word_less_nat_alt)
  then show "unat (c_Depth c + 1) = unat (c_Depth c) + 1" by (simp add: unat_word_ariths)
qed

lemma exact_coord: "exact_cell base c \<Longrightarrow> \<bar>c_X c\<bar> < 2^24 \<and> \<bar>c_Y c\<bar> < 2^24"
proof -
  assume "exact_cell base c"
  then obtain m where m: "(0 :: int) < m" "(\<bar>c_X c\<bar> + 1) * m < 2^24" "(\<bar>c_Y c\<bar> + 1) * m < 2^24" by (auto simp: exact_cell_def)
  have "\<bar>c_X c\<bar> + 1 \<le> (\<bar>c_X c\<bar> + 1) * m" "\<bar>c_Y c\<bar> + 1 \<le> (\<bar>c_Y c\<bar> + 1) * m" using m(1) by simp_all
  with m show ?thesis by linarith
qed

lemma exact_parse: "exact_cell base c \<Longrightarrow> ParseCellID (MeshID c) = Some c"
  using exact_coord [of base c] by (intro parse_forms) (auto simp: in_i32_def)

lemma exact_MeshID_inj: "exact_cell base c \<Longrightarrow> exact_cell base d \<Longrightarrow> MeshID c = MeshID d \<longleftrightarrow> c = d"
  using exact_parse by (metis option.inject)

definition mid :: "(cell_id \<Rightarrow> int) \<Rightarrow> cell_id \<Rightarrow> rat" where
  "mid f c = (of_int (2 * f c) + 1) / 2 ^ (unat (c_Depth c) + 1)"

lemma lo_mid_hi: "lo f c < mid f c" "mid f c < hi f c"
  by (simp_all add: lo_def mid_def hi_def field_simps)

text \<open>The quarter of \<open>c\<close> a child is: left or right of the middle, below or above it.\<close>

definition quarter :: "cell_id \<Rightarrow> bool \<Rightarrow> bool \<Rightarrow> cell_id" where
  "quarter c right up =
     mk_cell (2 * c_X c + (if right then 1 else 0)) (2 * c_Y c + (if up then 1 else 0)) (c_Depth c + 1)"

lemma Children_quarters:
  assumes "exact_cell base c"
  shows "Children c = [quarter c False False, quarter c True False, quarter c False True, quarter c True True]"
    and "lo c_X (quarter c r u) = (if r then mid c_X c else lo c_X c)" and "hi c_X (quarter c r u) = (if r then hi c_X c else mid c_X c)"
    and "lo c_Y (quarter c r u) = (if u then mid c_Y c else lo c_Y c)" and "hi c_Y (quarter c r u) = (if u then hi c_Y c else mid c_Y c)"
    and "quarter c r u \<noteq> c"
proof -
  have d: "c_Depth c < 32" using assms by (simp add: exact_cell_def)
  note cc = child_cases [OF d conjunct1 [OF exact_coord [OF assms]] conjunct2 [OF exact_coord [OF assms]]]
  show "Children c = [quarter c False False, quarter c True False, quarter c False True, quarter c True True]"
    by (simp add: cc(1) quarter_def)
  show "lo c_X (quarter c r u) = (if r then mid c_X c else lo c_X c)" "hi c_X (quarter c r u) = (if r then hi c_X c else mid c_X c)"
    "lo c_Y (quarter c r u) = (if u then mid c_Y c else lo c_Y c)" "hi c_Y (quarter c r u) = (if u then hi c_Y c else mid c_Y c)"
    by (auto simp: quarter_def mk_cell_def lo_def hi_def mid_def cc(2) add_divide_distrib)
  have "unat (c_Depth (quarter c r u)) \<noteq> unat (c_Depth c)" by (simp add: quarter_def mk_cell_def cc(2))
  then show "quarter c r u \<noteq> c" by metis
qed

lemma in_Children:
  assumes "exact_cell base c"
  shows "k \<in> set (Children c) \<longleftrightarrow> (\<exists>r u. k = quarter c r u)"
proof -
  have "(\<exists>r u. k = quarter c r u) \<longleftrightarrow>
      k = quarter c False False \<or> k = quarter c True False \<or> k = quarter c False True \<or> k = quarter c True True"
    by (metis (full_types))
  then show ?thesis by (simp add: Children_quarters(1) [OF assms])
qed

text \<open>The point \<open>(x, y)\<close>, in units of the base size, lies in the half-open square of a cell.\<close>

definition covers :: "cell_id \<Rightarrow> rat \<times> rat \<Rightarrow> bool" where
  "covers c p \<longleftrightarrow> lo c_X c \<le> fst p \<and> fst p < hi c_X c \<and> lo c_Y c \<le> snd p \<and> snd p < hi c_Y c"

lemma quarter_covers:
  assumes "exact_cell base c"
  shows "covers (quarter c r u) p \<longleftrightarrow> covers c p \<and> (r \<longleftrightarrow> mid c_X c \<le> fst p) \<and> (u \<longleftrightarrow> mid c_Y c \<le> snd p)"
  using lo_mid_hi [of c_X c] lo_mid_hi [of c_Y c] by (auto simp: covers_def Children_quarters [OF assms])

lemma child_touch:
  assumes "exact_cell base c"
  shows "k \<in> set (Children c) \<Longrightarrow> touch k b \<Longrightarrow> touch c b" and "touch c b \<Longrightarrow> \<exists>k \<in> set (Children c). touch k b"
proof -
  note q = Children_quarters [OF assms] and m = lo_mid_hi [of c_X c] lo_mid_hi [of c_Y c]
  show "k \<in> set (Children c) \<Longrightarrow> touch k b \<Longrightarrow> touch c b"
    using m unfolding in_Children [OF assms] by (auto simp: touch_def q split: if_splits)
  assume "touch c b"
  then have "touch (quarter c (mid c_X c < lo c_X b) (mid c_Y c < lo c_Y b)) b"
    using m lo_less_hi [of c_X b] lo_less_hi [of c_Y b] by (auto simp: touch_def q split: if_splits)
  then show "\<exists>k \<in> set (Children c). touch k b" using in_Children [OF assms] by blast
qed

lemma siblings_touch:
  assumes "exact_cell base c" and "k \<in> set (Children c)" and "k' \<in> set (Children c)"
  shows "touch k k'"
  using assms(2,3) lo_mid_hi [of c_X c] lo_mid_hi [of c_Y c] unfolding in_Children [OF assms(1)]
  by (auto simp: touch_def Children_quarters [OF assms(1)])

lemma go_div_2_nonneg: "0 \<le> x \<Longrightarrow> go_div x 2 = x div 2"
  by (cases "x = 0") (simp_all add: go_div_def)

lemma exact_1000: "c_Depth c < 32 \<Longrightarrow> \<bar>c_X c\<bar> < 16000 \<Longrightarrow> \<bar>c_Y c\<bar> < 16000 \<Longrightarrow> exact_cell 1000 c"
  unfolding exact_cell_def by (intro conjI exI [of _ 1000] exI [of _ 0]) simp_all

text \<open>
  C26. Splitting tiles the plane: every point of a cell lies in exactly one of its four
  children, and a point of a child is a point of the cell. No ground is lost or owned twice.
\<close>

theorem split_tiles_the_cell:
  assumes "exact_cell base c"
  shows "length (Children c) = 4 \<and> distinct (Children c) \<and>
    (\<forall>k \<in> set (Children c). covers k p \<longrightarrow> covers c p) \<and>
    (covers c p \<longleftrightarrow> (\<exists>!k. k \<in> set (Children c) \<and> covers k p))"
proof (intro conjI ballI impI)
  note q = Children_quarters(1) [OF assms] and v = quarter_covers [OF assms]
  show "length (Children c) = 4" "distinct (Children c)" by (simp_all add: q quarter_def mk_cell_def)
  show inside: "covers c p" if k: "k \<in> set (Children c)" "covers k p" for k
  proof -
    obtain r u where "k = quarter c r u" using k(1) in_Children [OF assms] by blast
    then show ?thesis using k(2) by (simp add: v)
  qed
  show "covers c p \<longleftrightarrow> (\<exists>!k. k \<in> set (Children c) \<and> covers k p)"
  proof
    assume c: "covers c p"
    let ?k = "quarter c (mid c_X c \<le> fst p) (mid c_Y c \<le> snd p)"
    have "?k \<in> set (Children c) \<and> covers ?k p" using in_Children [OF assms] c by (auto simp: v)
    moreover have "k = ?k" if k: "k \<in> set (Children c) \<and> covers k p" for k
    proof -
      obtain r u where "k = quarter c r u" using k in_Children [OF assms] by blast
      then show ?thesis using k by (simp add: v)
    qed
    ultimately show "\<exists>!k. k \<in> set (Children c) \<and> covers k p" by (rule ex1I)
  next
    assume "\<exists>!k. k \<in> set (Children c) \<and> covers k p"
    then obtain k where "k \<in> set (Children c)" "covers k p" by (elim ex1E conjE)
    then show "covers c p" by (rule inside)
  qed
qed

theorem split_tiles_the_cell_witness:
  "exact_cell 1000 (mk_cell 3 (-2) 1) \<and> length (Children (mk_cell 3 (-2) 1)) = 4 \<and> distinct (Children (mk_cell 3 (-2) 1)) \<and>
   (\<exists>!k. k \<in> set (Children (mk_cell 3 (-2) 1)) \<and> covers k (7/4, -3/4))"
proof -
  have e: "exact_cell 1000 (mk_cell 3 (-2) 1)" by (simp add: exact_1000 mk_cell_def)
  have c: "covers (mk_cell 3 (-2) 1) (7/4, -3/4)" by (simp add: covers_def lo_def hi_def mk_cell_def)
  note t = split_tiles_the_cell [OF e, of "(7/4, -3/4)"]
  show ?thesis using e t [THEN conjunct1] t [THEN conjunct2, THEN conjunct1] iffD1 [OF t [THEN conjunct2, THEN conjunct2, THEN conjunct2] c]
    by (intro conjI)
qed

text \<open>
  C27. \<open>AreAdjacent\<close>, computed in \<open>float32\<close> across mixed depths, is exactly "distinct closed squares
  that meet", for all cells whose bounds are representable; it is symmetric.
\<close>

theorem adjacency_is_geometric_contact:
  assumes "exact_cell base a" and "exact_cell base b"
  shows "(AreAdjacent a b base \<longleftrightarrow> a \<noteq> b \<and> touch a b) \<and> AreAdjacent a b base = AreAdjacent b a base"
  using adjacent_iff_touch [OF assms] adjacent_iff_touch [OF assms(2,1)] touch_sym [of a b] by auto

theorem adjacency_is_geometric_contact_witness:
  "AreAdjacent (mk_cell 1 0 0) (mk_cell 1 1 1) 1000 \<and> \<not> AreAdjacent (mk_cell 2 0 0) (mk_cell 1 1 1) 1000 \<and>
   AreAdjacent (mk_cell 1 1 1) (mk_cell 1 0 0) 1000"
proof -
  have "exact_cell 1000 (mk_cell 1 0 0)" "exact_cell 1000 (mk_cell 2 0 0)" "exact_cell 1000 (mk_cell 1 1 1)"
    by (simp_all add: exact_1000 mk_cell_def)
  moreover have "touch (mk_cell 1 0 0) (mk_cell 1 1 1)" "\<not> touch (mk_cell 2 0 0) (mk_cell 1 1 1)"
    by (simp_all add: touch_def lo_def hi_def mk_cell_def)
  moreover have "mk_cell 1 0 0 \<noteq> mk_cell 1 1 1" by (simp add: mk_cell_def)
  ultimately show ?thesis
    using adjacency_is_geometric_contact [of 1000 "mk_cell 1 0 0" "mk_cell 1 1 1"]
      adjacency_is_geometric_contact [of 1000 "mk_cell 2 0 0" "mk_cell 1 1 1"] by blast
qed

text \<open>
  In the quadrant of non-negative coordinates \<open>Parent\<close> undoes \<open>Children\<close>: each child has the
  cell as its parent and all four children as its siblings.
\<close>

theorem parent_inverts_children:
  assumes "exact_cell base c" and "0 \<le> c_X c" and "0 \<le> c_Y c" and "k \<in> set (Children c)"
  shows "Parent k = Some c \<and> Siblings k = Some (Children c)"
proof (intro conjI allI impI)
  obtain r u where k: "k = quarter c r u" using assms(4) in_Children [OF assms(1)] by blast
  have d: "unat (c_Depth c) < 32" by (rule exact_depth [OF assms(1)])
  have "c_Depth c + 1 \<noteq> 0"
  proof
    assume "c_Depth c + 1 = 0"
    then have "unat (c_Depth c + 1) = 0" by simp
    then show False using d by (simp add: unat_word_ariths)
  qed
  then show p: "Parent k = Some c"
    using assms(2,3) by (cases c) (auto simp: k Parent_def quarter_def mk_cell_def go_div_2_nonneg)
  then show "Siblings k = Some (Children c)" by (simp add: Siblings_def)
qed

theorem parent_inverts_children_witness:
  "Parent (mk_cell 7 5 3) = Some (mk_cell 3 2 2) \<and> Siblings (mk_cell 7 5 3) = Some (Children (mk_cell 3 2 2))"
proof -
  have "exact_cell 1000 (mk_cell 3 2 2)"
    by (simp_all add: exact_1000 mk_cell_def)
  moreover have "mk_cell 7 5 3 \<in> set (Children (mk_cell 3 2 2))"
    by (simp add: Children_def mk_cell_def wrap32_def Let_def)
  moreover have "0 \<le> c_X (mk_cell 3 2 2)" "0 \<le> c_Y (mk_cell 3 2 2)" by (simp_all add: mk_cell_def)
  ultimately show ?thesis using parent_inverts_children by blast
qed


section \<open>Directions and local bounds\<close>

text \<open>
  The direction between two cells is antisymmetric, and it is zero on an axis exactly when
  the two cells overlap on it.
\<close>

theorem direction_is_antisymmetric:
  assumes "exact_cell base a" and "exact_cell base b"
  shows "CellDirection b a base = (- fst (CellDirection a b base), - snd (CellDirection a b base)) \<and>
    (fst (CellDirection a b base) = 0 \<longleftrightarrow> lo c_X a < hi c_X b \<and> lo c_X b < hi c_X a) \<and>
    (snd (CellDirection a b base) = 0 \<longleftrightarrow> lo c_Y a < hi c_Y b \<and> lo c_Y b < hi c_Y a)"
  using exact_base_pos [OF assms(1)] lo_less_hi [of c_X a] lo_less_hi [of c_X b] lo_less_hi [of c_Y a] lo_less_hi [of c_Y b]
  by (auto simp: CellDirection_def exact_bounds assms)

theorem direction_is_antisymmetric_witness:
  "CellDirection (mk_cell 0 0 0) (mk_cell 2 1 1) 1000 = (1, 0) \<and> CellDirection (mk_cell 2 1 1) (mk_cell 0 0 0) 1000 = (- 1, 0)"
proof -
  have e: "exact_cell 1000 (mk_cell 0 0 0)" "exact_cell 1000 (mk_cell 2 1 1)" by (simp_all add: exact_1000 mk_cell_def)
  have "CellDirection (mk_cell 0 0 0) (mk_cell 2 1 1) 1000 = (1, 0)"
    unfolding CellDirection_def exact_bounds [OF e(1)] exact_bounds [OF e(2)] by (simp add: lo_def hi_def mk_cell_def)
  then show ?thesis using direction_is_antisymmetric [OF e] by simp
qed

text \<open>Climbing \<open>n\<close> levels from a cell with non-negative coordinates divides them by \<open>2 ^ n\<close>.\<close>

lemma climb_div:
  assumes "0 \<le> c_X c" and "0 \<le> c_Y c" and "n \<le> unat (c_Depth c)"
  shows "c_X (climb n c) = c_X c div 2 ^ n" and "c_Y (climb n c) = c_Y c div 2 ^ n"
proof -
  have "c_X (climb n c) = c_X c div 2 ^ n \<and> c_Y (climb n c) = c_Y c div 2 ^ n"
    using assms
  proof (induction n arbitrary: c)
    case (Suc n)
    let ?p = "mk_cell (c_X c div 2) (c_Y c div 2) (c_Depth c - 1)"
    have d: "c_Depth c \<noteq> 0" using Suc.prems(3) by auto
    then have "unat (c_Depth c - 1) = unat (c_Depth c) - 1" by (simp add: unat_minus_one)
    then have "c_X (climb n ?p) = c_X ?p div 2 ^ n \<and> c_Y (climb n ?p) = c_Y ?p div 2 ^ n"
      using Suc.prems by (intro Suc.IH) (simp_all add: mk_cell_def)
    then show ?case using d Suc.prems by (simp add: Parent_def go_div_2_nonneg) (simp add: mk_cell_def zdiv_zmult2_eq)
  qed simp
  then show "c_X (climb n c) = c_X c div 2 ^ n" and "c_Y (climb n c) = c_Y c div 2 ^ n" by simp_all
qed

lemma f32_between:
  assumes "base = of_int m * 2 powi e" and "0 < m" and "m < 2^24" and "0 \<le> x" and "x \<le> base"
  shows "0 \<le> f32 x" and "f32 x \<le> base"
proof -
  have "f32 base = base" using f32_exact [of m e] assms by simp
  then show "0 \<le> f32 x" "f32 x \<le> base" using fl_mono [OF assms(5), of 23] assms(4) by (simp_all add: f32_def fl_sign)
qed

lemma local_range:
  fixes x :: int
  assumes "0 \<le> x" shows "(of_int (x div 2 ^ n) :: rat) \<le> of_int x / 2 ^ n" and "(of_int x + 1) / 2 ^ n \<le> (of_int (x div 2 ^ n) + 1 :: rat)"
proof -
  let ?q = "x div 2 ^ n"
  have "0 \<le> x mod 2 ^ n" "x mod 2 ^ n < 2 ^ n" by simp_all
  moreover have "?q * 2 ^ n + x mod 2 ^ n = x" by (rule div_mult_mod_eq)
  moreover have "(?q + 1) * 2 ^ n = ?q * 2 ^ n + 2 ^ n" by (simp add: distrib_right)
  ultimately have "?q * 2 ^ n \<le> x \<and> x + 1 \<le> (?q + 1) * 2 ^ n" by linarith
  then have "(of_int (?q * 2 ^ n) :: rat) \<le> of_int x" "(of_int (x + 1) :: rat) \<le> of_int ((?q + 1) * 2 ^ n)" by (simp_all only: of_int_le_iff)
  then show "(of_int ?q :: rat) \<le> of_int x / 2 ^ n" "(of_int x + 1) / 2 ^ n \<le> (of_int ?q + 1 :: rat)"
    by (simp_all add: pos_le_divide_eq pos_divide_le_eq)
qed

text \<open>
  The local bounds of a cell in the quadrant of non-negative coordinates lie inside its
  depth-0 ancestor: between 0 and the base size on both axes, minimum before maximum.
\<close>

theorem local_bounds_inside_root:
  assumes "exact_cell base c" and "0 \<le> c_X c" and "0 \<le> c_Y c" and "LocalBounds c base = (minX, minY, maxX, maxY)"
  shows "0 \<le> minX \<and> minX \<le> maxX \<and> maxX \<le> base \<and> 0 \<le> minY \<and> minY \<le> maxY \<and> maxY \<le> base"
proof (intro conjI allI impI)
  obtain m e where m: "0 < m" "base = of_int m * 2 powi e" "(\<bar>c_X c\<bar> + 1) * m < 2^24" "(\<bar>c_Y c\<bar> + 1) * m < 2^24"
    using assms(1) by (auto simp: exact_cell_def)
  have pos: "0 < base" by (rule exact_base_pos [OF assms(1)])
  let ?n = "unat (c_Depth c)"
  have axis: "0 \<le> f32 (base * lo f c - f32 (f32 (of_int (f c div 2 ^ ?n)) * base)) \<and>
      f32 (base * lo f c - f32 (f32 (of_int (f c div 2 ^ ?n)) * base)) \<le> f32 (base * hi f c - f32 (f32 (of_int (f c div 2 ^ ?n)) * base)) \<and>
      f32 (base * hi f c - f32 (f32 (of_int (f c div 2 ^ ?n)) * base)) \<le> base"
    if f: "0 \<le> f c" "(\<bar>f c\<bar> + 1) * m < 2^24" for f
  proof -
    let ?q = "f c div 2 ^ ?n"
    have "?q \<le> f c" using f(1) int_div_le_self [of "f c"] by (cases "f c = 0") simp_all
    then have q: "0 \<le> ?q" "(?q + 1) * m \<le> (\<bar>f c\<bar> + 1) * m" using f(1) m(1) by (simp_all add: pos_imp_zdiv_nonneg_iff)
    then have qm: "(?q + 1) * m < 2^24" using f(2) by linarith
    have "?q + 1 \<le> (?q + 1) * m" "m \<le> (?q + 1) * m" using m(1) q(1) by simp_all
    moreover have "0 \<le> ?q * m" "(?q + 1) * m = ?q * m + m" using q(1) m(1) by (simp_all add: distrib_right)
    ultimately have b: "\<bar>?q\<bar> < 2^24" "m < 2^24" "\<bar>?q * m\<bar> < 2^24" using qm q(1) m(1) by linarith+
    have r: "f32 (f32 (of_int ?q) * base) = of_int ?q * base"
      using f32_exact [OF b(1), of 0] f32_exact [OF b(3), of e] by (simp add: m(2) mult.assoc)
    note lr = local_range [OF f(1), of ?n]
    have "0 \<le> base * lo f c - of_int ?q * base" "base * hi f c - of_int ?q * base \<le> base"
      using mult_left_mono [OF lr(1), of base] mult_left_mono [OF lr(2), of base] pos
      by (simp_all add: lo_def hi_def algebra_simps)
    moreover have le: "base * lo f c - of_int ?q * base \<le> base * hi f c - of_int ?q * base"
      using lo_less_hi [of f c] pos by simp
    ultimately show ?thesis
      unfolding r using f32_between [OF m(2,1) b(2)] fl_mono [OF le, of 23] by (simp add: f32_def)
  qed
  show "0 \<le> minX" "minX \<le> maxX" "maxX \<le> base" "0 \<le> minY" "minY \<le> maxY" "maxY \<le> base"
    using assms(4) pos axis [of c_X, OF assms(2) m(3)] axis [of c_Y, OF assms(3) m(4)]
    unfolding LocalBounds_def exact_bounds [OF assms(1)] Let_def prod.case climb_div [OF assms(2,3) order_refl]
    by (auto split: if_splits)
qed

theorem local_bounds_inside_root_witness:
  "LocalBounds (mk_cell 5 2 1) 1000 = (500, 0, 1000, 500) \<and> (0 :: rat) \<le> 500 \<and> (500 :: rat) \<le> 1000"
proof -
  have e: "exact_cell 1000 (mk_cell 5 2 1)" "0 \<le> c_X (mk_cell 5 2 1)" "0 \<le> c_Y (mk_cell 5 2 1)"
    by (simp_all add: exact_1000 mk_cell_def)
  have "LocalBounds (mk_cell 5 2 1) 1000 = (500, 0, 1000, 500)" by code_simp
  then show ?thesis using local_bounds_inside_root [OF e] by blast
qed

end
