(* ===== verification/Topology.thy ===== *)
theory Topology
  imports CellId
begin

text \<open>
  The neighbour graph of the mesh (\<open>pkg/universe/topology.go\<close>): the full computation and the
  three incremental updates after a split, a merge and a transfer commit. A Go map is a map; where
  the code ranges over one, the visiting order is an argument, a function that lists the same
  elements in some order. The adjacency test is a parameter of the loops, instantiated with
  \<open>AreAdjacent\<close> at the base cell size.
\<close>

section \<open>Operations\<close>

type_synonym 'c graph = "'c \<rightharpoonup> 'c list"
type_synonym topology = "cell_id graph"

definition nbrs :: "'c graph \<Rightarrow> 'c \<Rightarrow> 'c list" where
  "nbrs t c = (case t c of None \<Rightarrow> [] | Some ns \<Rightarrow> ns)"

definition compute_graph :: "('c \<Rightarrow> 'c \<Rightarrow> bool) \<Rightarrow> 'c list \<Rightarrow> 'c graph" where
  "compute_graph adj cells = fold (\<lambda>a t. t(a \<mapsto> filter (adj a) cells)) cells Map.empty"

definition ComputeTopology :: "cell_id list \<Rightarrow> rat \<Rightarrow> topology" where
  "ComputeTopology cells base = compute_graph (\<lambda>a b. AreAdjacent a b base) cells"

text \<open>The three loops of \<open>UpdateAfterSplit\<close>.\<close>

definition split_graph :: "('c \<Rightarrow> 'c \<Rightarrow> bool) \<Rightarrow> 'c \<Rightarrow> 'c list \<Rightarrow> 'c graph \<Rightarrow> 'c graph" where
  "split_graph adj parent children t =
     (let old = nbrs t parent;
          t = t(parent := None);
          t = fold (\<lambda>k t. t(k \<mapsto> filter (adj k) children @ filter (adj k) old)) children t
      in fold (\<lambda>n t. t(n \<mapsto> filter (\<lambda>x. x \<noteq> parent) (nbrs t n) @ filter (adj n) children)) old t)"

definition UpdateAfterSplit :: "cell_id \<Rightarrow> cell_id list \<Rightarrow> rat \<Rightarrow> topology \<Rightarrow> topology" where
  "UpdateAfterSplit parent children base t = split_graph (\<lambda>a b. AreAdjacent a b base) parent children t"

text \<open>
  \<open>UpdateAfterMerge\<close> gathers the external neighbours in a set (the keys in order of insertion
  here) and ranges over it twice, in the orders \<open>ord1\<close> and \<open>ord2\<close>.
\<close>

definition gather_external :: "'c list \<Rightarrow> 'c graph \<Rightarrow> 'c list \<times> 'c graph" where
  "gather_external children t =
     fold (\<lambda>k (ext, t). (fold (\<lambda>n ext. if n \<in> set children \<or> n \<in> set ext then ext else ext @ [n]) (nbrs t k) ext, t(k := None)))
       children ([], t)"

definition merge_graph ::
  "('c \<Rightarrow> 'c \<Rightarrow> bool) \<Rightarrow> ('c list \<Rightarrow> 'c list) \<Rightarrow> ('c list \<Rightarrow> 'c list) \<Rightarrow> 'c list \<Rightarrow> 'c \<Rightarrow> 'c graph \<Rightarrow> 'c graph" where
  "merge_graph adj ord1 ord2 children parent t =
     (let (ext, t) = gather_external children t;
          t = t(parent \<mapsto> filter (adj parent) (ord1 ext))
      in fold (\<lambda>n t. t(n \<mapsto> filter (\<lambda>x. x \<notin> set children) (nbrs t n) @ [parent])) (ord2 ext) t)"

definition UpdateAfterMerge ::
  "(cell_id list \<Rightarrow> cell_id list) \<Rightarrow> (cell_id list \<Rightarrow> cell_id list) \<Rightarrow> cell_id list \<Rightarrow> cell_id \<Rightarrow> rat \<Rightarrow> topology \<Rightarrow> topology" where
  "UpdateAfterMerge ord1 ord2 children parent base t =
     merge_graph (\<lambda>a b. AreAdjacent a b base) ord1 ord2 children parent t"

text \<open>
  \<open>RebuildNeighborsFor\<close>: \<open>keys\<close> is the snapshot of the key set, \<open>ord\<close> the order in which the
  frontier is visited. A frontier cell that is not a key is deleted, which changes nothing.
\<close>

definition frontier :: "'c list \<Rightarrow> 'c graph \<Rightarrow> 'c list" where
  "frontier affected t = remdups (concat (map (\<lambda>c. c # nbrs t c) affected))"

definition rebuild_graph ::
  "('c \<Rightarrow> 'c \<Rightarrow> bool) \<Rightarrow> 'c list \<Rightarrow> ('c list \<Rightarrow> 'c list) \<Rightarrow> 'c list \<Rightarrow> 'c graph \<Rightarrow> 'c graph" where
  "rebuild_graph adj keys ord affected t =
     (if affected = [] then t
      else fold (\<lambda>c t. if t c = None then t(c := None)
                  else t(c \<mapsto> filter (\<lambda>x. x \<noteq> c \<and> adj c x) keys)) (ord (frontier affected t)) t)"

definition RebuildNeighborsFor ::
  "cell_id list \<Rightarrow> (cell_id list \<Rightarrow> cell_id list) \<Rightarrow> cell_id list \<Rightarrow> rat \<Rightarrow> topology \<Rightarrow> topology" where
  "RebuildNeighborsFor keys ord affected base t = rebuild_graph (\<lambda>a b. AreAdjacent a b base) keys ord affected t"

section \<open>Consistency\<close>

text \<open>Every entry lists, once each, the cells of the graph that are adjacent to its key.\<close>

definition consistent :: "('c \<Rightarrow> 'c \<Rightarrow> bool) \<Rightarrow> 'c graph \<Rightarrow> bool" where
  "consistent adj t \<longleftrightarrow> (\<forall>c ns. t c = Some ns \<longrightarrow> distinct ns \<and> set ns = {b \<in> dom t. adj c b})"

text \<open>Two graphs with the same cells and the same neighbour sets.\<close>

definition same_graph :: "'c graph \<Rightarrow> 'c graph \<Rightarrow> bool" where
  "same_graph t t' \<longleftrightarrow> dom t = dom t' \<and> (\<forall>c. set (nbrs t c) = set (nbrs t' c))"

lemma fold_upd:
  "fold (\<lambda>a t. t(a \<mapsto> f a)) cells t = (\<lambda>c. if c \<in> set cells then Some (f c) else t c)"
  by (induction cells arbitrary: t) (auto simp: fun_eq_iff)

lemma fold_modify:
  assumes "distinct cells"
  shows "fold (\<lambda>a t. t(a \<mapsto> f a (nbrs t a))) cells t = (\<lambda>c. if c \<in> set cells then Some (f c (nbrs t c)) else t c)"
  using assms
proof (induction cells arbitrary: t)
  case (Cons a cells)
  let ?u = "t(a \<mapsto> f a (nbrs t a))"
  have "nbrs ?u c = nbrs t c" if "c \<in> set cells" for c using Cons.prems that by (auto simp: nbrs_def)
  then have "(if c \<in> set cells then Some (f c (nbrs ?u c)) else ?u c) =
      (if c \<in> set (a # cells) then Some (f c (nbrs t c)) else t c)" for c using Cons.prems by auto
  then show ?case using Cons.IH [of ?u] Cons.prems by simp
qed simp

lemma compute_graph_eq: "compute_graph adj cells = (\<lambda>c. if c \<in> set cells then Some (filter (adj c) cells) else None)"
  by (simp add: compute_graph_def fold_upd)

lemma consistent_nbrs:
  assumes "consistent adj t" and "c \<in> dom t"
  shows "distinct (nbrs t c)" and "set (nbrs t c) = {b \<in> dom t. adj c b}"
  using assms by (auto simp: consistent_def nbrs_def)

lemma consistentI:
  assumes "\<And>c. c \<in> dom t \<Longrightarrow> distinct (nbrs t c)" and "\<And>c b. c \<in> dom t \<Longrightarrow> b \<in> set (nbrs t c) \<longleftrightarrow> b \<in> dom t \<and> adj c b"
  shows "consistent adj t"
  unfolding consistent_def
proof (intro allI impI)
  fix c ns assume t: "t c = Some ns"
  then have "c \<in> dom t" by blast
  from assms(1) [OF this] assms(2) [OF this] t show "distinct ns \<and> set ns = {b \<in> dom t. adj c b}"
    by (auto simp: nbrs_def)
qed

text \<open>A consistent graph is the full computation on its cells.\<close>

lemma consistent_same_graph:
  assumes "consistent adj t" and "set cells = dom t"
  shows "same_graph t (compute_graph adj cells)"
proof -
  have "set (nbrs t c) = set (nbrs (compute_graph adj cells) c)" for c
    using consistent_nbrs(2) [OF assms(1), of c] assms(2)
    by (cases "c \<in> dom t") (auto simp: nbrs_def compute_graph_eq domIff)
  then show ?thesis using assms(2) by (auto simp: same_graph_def compute_graph_eq split: if_splits)
qed

section \<open>Adjacency and subdivision\<close>

locale adjacency =
  fixes adj :: "'c \<Rightarrow> 'c \<Rightarrow> bool"
  assumes adj_sym: "adj a b \<Longrightarrow> adj b a" and adj_irrefl: "\<not> adj a a"
begin

lemma compute_consistent: "distinct cells \<Longrightarrow> consistent adj (compute_graph adj cells)"
  by (auto simp: consistent_def compute_graph_eq split: if_splits)

lemma rebuild_consistent:
  assumes t: "consistent adj t" and keys: "distinct keys" "set keys = dom t"
  shows "consistent adj (rebuild_graph adj keys ord affected t)"
    and "dom (rebuild_graph adj keys ord affected t) = dom t"
proof -
  let ?step = "\<lambda>c t. if t c = None then t(c := None) else t(c \<mapsto> filter (\<lambda>x. x \<noteq> c \<and> adj c x) keys)"
  have "consistent adj (fold ?step cs u) \<and> dom (fold ?step cs u) = dom t" if "consistent adj u" "dom u = dom t" for cs u
    using that
  proof (induction cs arbitrary: u)
    case (Cons c cs)
    have "consistent adj (?step c u) \<and> dom (?step c u) = dom t"
    proof (cases "c \<in> dom u")
      case True
      then have d: "dom (?step c u) = dom t" using Cons.prems(2) by auto
      have n: "nbrs (?step c u) x = (if x = c then filter (\<lambda>y. y \<noteq> c \<and> adj c y) keys else nbrs u x)" for x
        using True by (auto simp: nbrs_def)
      have "consistent adj (?step c u)"
        by (rule consistentI, unfold n d)
          (use keys consistent_nbrs [OF Cons.prems(1)] Cons.prems(2) adj_irrefl in auto)
      with d show ?thesis by simp
    next
      case False
      then have "?step c u = u" by (auto simp: domIff)
      then show ?thesis using Cons.prems by simp
    qed
    then show ?case using Cons.IH by simp
  qed simp
  from this [OF t refl] show "consistent adj (rebuild_graph adj keys ord affected t)"
    "dom (rebuild_graph adj keys ord affected t) = dom t"
    using t by (auto simp: rebuild_graph_def)
qed

end

text \<open>
  A cell and its children: contact of a child with an outside cell is contact of the parent, and
  contact of the parent with an outside cell is contact of some child.
\<close>

locale subdivision = adjacency +
  fixes ok :: "'a \<Rightarrow> bool" and kids :: "'a \<Rightarrow> 'a list"
  assumes kids_distinct: "ok c \<Longrightarrow> distinct (kids c)" and kids_self: "ok c \<Longrightarrow> c \<notin> set (kids c)"
    and contact_up: "ok c \<Longrightarrow> ok b \<Longrightarrow> k \<in> set (kids c) \<Longrightarrow> ok k \<Longrightarrow> b \<noteq> c \<Longrightarrow> adj k b \<Longrightarrow> adj c b"
    and contact_down: "ok c \<Longrightarrow> ok b \<Longrightarrow> \<forall>k \<in> set (kids c). ok k \<Longrightarrow> b \<notin> set (kids c) \<Longrightarrow> adj c b \<Longrightarrow>
      \<exists>k \<in> set (kids c). adj k b"
begin

lemma split_eq:
  assumes t: "consistent adj t" and c: "c \<in> dom t" "ok c"
  shows "split_graph adj c (kids c) t =
    (\<lambda>x. if x \<in> set (nbrs t c) then Some (filter (\<lambda>y. y \<noteq> c) (if x \<in> set (kids c)
             then filter (adj x) (kids c) @ filter (adj x) (nbrs t c) else nbrs t x) @ filter (adj x) (kids c))
         else if x \<in> set (kids c) then Some (filter (adj x) (kids c) @ filter (adj x) (nbrs t c))
         else if x = c then None else t x)"
proof -
  note n = consistent_nbrs [OF t c(1)]
  have "c \<notin> set (nbrs t c)" using n(2) adj_irrefl by blast
  then show ?thesis
    unfolding split_graph_def Let_def fold_upd
    by (subst fold_modify [OF n(1), where f = "\<lambda>x ns. filter (\<lambda>y. y \<noteq> c) ns @ filter (adj x) (kids c)"])
      (auto simp: fun_eq_iff nbrs_def)
qed

lemma split_consistent:
  assumes t: "consistent adj t" and c: "c \<in> dom t" and ok: "\<forall>x \<in> dom t. ok x" "\<forall>k \<in> set (kids c). ok k"
    and fresh: "set (kids c) \<inter> dom t = {}"
  shows "dom (split_graph adj c (kids c) t) = dom t - {c} \<union> set (kids c)"
    and "consistent adj (split_graph adj c (kids c) t)"
proof -
  let ?u = "split_graph adj c (kids c) t"
  have okc: "ok c" using ok(1) c by blast
  note n = consistent_nbrs [OF t] and d = kids_distinct [OF okc] and s = kids_self [OF okc]
  have sub: "set (nbrs t c) \<subseteq> dom t - {c}" using n(2) [OF c] adj_irrefl by blast
  have eq: "?u = (\<lambda>x. if x \<in> set (nbrs t c) then Some (filter (\<lambda>y. y \<noteq> c) (nbrs t x) @ filter (adj x) (kids c))
      else if x \<in> set (kids c) then Some (filter (adj x) (kids c) @ filter (adj x) (nbrs t c))
      else if x = c then None else t x)"
    unfolding split_eq [OF t c okc] fun_eq_iff using sub fresh by auto
  show dom: "dom ?u = dom t - {c} \<union> set (kids c)"
    unfolding eq using sub s by (auto split: if_splits)
  have val: "nbrs ?u x = (if x \<in> set (nbrs t c) then filter (\<lambda>y. y \<noteq> c) (nbrs t x) @ filter (adj x) (kids c)
      else if x \<in> set (kids c) then filter (adj x) (kids c) @ filter (adj x) (nbrs t c)
      else if x = c then [] else nbrs t x)" for x
    using nbrs_def [of ?u x, unfolded fun_cong [OF eq, of x]] nbrs_def [of t x] by simp
  have near_iff: "x \<in> set (nbrs t c) \<longleftrightarrow> x \<in> dom t \<and> adj c x" for x using n(2) [OF c] by auto
  have up: "adj k x \<Longrightarrow> adj c x" if "x \<in> dom t" "x \<noteq> c" "k \<in> set (kids c)" for x k
    using contact_up [OF okc _ that(3) _ that(2)] ok that by blast
  show "consistent adj ?u"
  proof (rule consistentI)
    fix x assume "x \<in> dom ?u"
    then consider (near) "x \<in> set (nbrs t c)" | (kid) "x \<notin> set (nbrs t c)" "x \<in> set (kids c)"
      | (far) "x \<notin> set (nbrs t c)" "x \<notin> set (kids c)" "x \<in> dom t" "x \<noteq> c"
      unfolding dom by blast
    note cases = this
    show "distinct (nbrs ?u x)"
      using cases
    proof cases
      case near
      then have "x \<in> dom t" using sub by blast
      then have "distinct (nbrs t x)" "set (nbrs t x) \<subseteq> dom t" using n by auto
      with near show ?thesis using d fresh by (auto simp: val)
    next
      case kid
      then show ?thesis using d n(1) [OF c] sub fresh by (auto simp: val)
    next
      case far
      then show ?thesis using n(1) [OF far(3)] by (simp add: val)
    qed
    fix b
    show "b \<in> set (nbrs ?u x) \<longleftrightarrow> b \<in> dom ?u \<and> adj x b"
      using cases
    proof cases
      case near
      then have x: "x \<in> dom t" "x \<noteq> c" using sub by auto
      show ?thesis using near n(2) [OF x(1)] fresh s unfolding dom by (auto simp: val)
    next
      case kid
      have "b \<in> set (nbrs t c)" if "b \<in> dom t" "b \<noteq> c" "adj x b"
        using up [OF that(1,2) kid(2) that(3)] that(1) near_iff by blast
      then show ?thesis using kid sub unfolding dom by (auto simp: val)
    next
      case far
      have "\<not> adj x k" if "k \<in> set (kids c)" for k
        using up [OF far(3,4) that] far(1,3) near_iff adj_sym by blast
      moreover have "\<not> adj x c" using far(1,3) near_iff adj_sym by blast
      ultimately show ?thesis using far n(2) [OF far(3)] unfolding dom by (auto simp: val)
    qed
  qed
qed

end

section \<open>Merging\<close>

definition shuffles :: "('c list \<Rightarrow> 'c list) \<Rightarrow> bool" where
  "shuffles ord \<longleftrightarrow> (\<forall>xs. distinct xs \<longrightarrow> distinct (ord xs) \<and> set (ord xs) = set xs)"

lemma gather_inner:
  "distinct ext \<Longrightarrow> distinct (fold (\<lambda>n ext. if n \<in> S \<or> n \<in> set ext then ext else ext @ [n]) ns ext) \<and>
     set (fold (\<lambda>n ext. if n \<in> S \<or> n \<in> set ext then ext else ext @ [n]) ns ext) = set ext \<union> (set ns - S)"
proof (induction ns arbitrary: ext)
  case (Cons n ns)
  let ?e = "if n \<in> S \<or> n \<in> set ext then ext else ext @ [n]"
  have "distinct ?e" using Cons.prems by simp
  from Cons.IH [OF this] show ?case by auto
qed simp

lemma gather_spec:
  assumes "distinct children" and "gather_external children t = (ext, t')"
  shows "distinct ext" and "set ext = (\<Union>k \<in> set children. set (nbrs t k)) - set children"
    and "t' = (\<lambda>x. if x \<in> set children then None else t x)"
proof -
  let ?f = "\<lambda>k (ext, t :: 'a graph). (fold (\<lambda>n ext. if n \<in> set children \<or> n \<in> set ext then ext else ext @ [n]) (nbrs t k) ext, t(k := None))"
  have "distinct ext' \<and> set ext' = set ext0 \<union> ((\<Union>k \<in> set ks. set (nbrs u k)) - set children) \<and>
      u' = (\<lambda>x. if x \<in> set ks then None else u x)"
    if "distinct ks" "distinct ext0" "fold ?f ks (ext0, u) = (ext', u')" for ks ext0 u ext' u'
    using that
  proof (induction ks arbitrary: ext0 u)
    case (Cons k ks)
    let ?e = "fold (\<lambda>n ext. if n \<in> set children \<or> n \<in> set ext then ext else ext @ [n]) (nbrs u k) ext0"
    note g = gather_inner [OF Cons.prems(2), of "set children" "nbrs u k"]
    have "fold ?f ks (?e, u(k := None)) = (ext', u')" using Cons.prems(3) by (simp only: fold.simps o_apply prod.case)
    moreover have dk: "distinct ks" "k \<notin> set ks" using Cons.prems(1) by simp_all
    ultimately have ih: "distinct ext' \<and> set ext' = set ?e \<union> ((\<Union>j \<in> set ks. set (nbrs (u(k := None)) j)) - set children) \<and>
      u' = (\<lambda>x. if x \<in> set ks then None else (u(k := None)) x)" using Cons.IH [OF dk(1) conjunct1 [OF g]] by blast
    have "(\<Union>j \<in> set ks. set (nbrs (u(k := None)) j)) = (\<Union>j \<in> set ks. set (nbrs u j))"
      using dk(2) by (intro SUP_cong refl) (auto simp: nbrs_def)
    then show ?case using ih g unfolding fun_eq_iff by auto
  qed auto
  from this [OF assms(1) _ assms(2) [unfolded gather_external_def]]
  show "distinct ext" "set ext = (\<Union>k \<in> set children. set (nbrs t k)) - set children"
    "t' = (\<lambda>x. if x \<in> set children then None else t x)" by simp_all
qed

context subdivision
begin

lemma merge_eq:
  assumes t: "consistent adj t" and kids: "set (kids c) \<subseteq> dom t" and c: "ok c" "c \<notin> dom t"
    and ok: "\<forall>x \<in> dom t. ok x" and ord: "shuffles ord1" "shuffles ord2"
  obtains ext where "set ext = {x \<in> dom t - set (kids c). adj c x}" "distinct (ord1 ext)" "set (ord1 ext) = set ext"
    "merge_graph adj ord1 ord2 (kids c) c t =
      (\<lambda>x. if x \<in> set ext then Some (filter (\<lambda>y. y \<notin> set (kids c)) (nbrs t x) @ [c])
           else if x = c then Some (filter (adj c) (ord1 ext)) else if x \<in> set (kids c) then None else t x)"
proof -
  obtain ext t' where g: "gather_external (kids c) t = (ext, t')" by fastforce
  note gs = gather_spec [OF kids_distinct [OF c(1)] g]
  have nb: "set (nbrs t k) = {b \<in> dom t. adj k b}" if "k \<in> set (kids c)" for k
    using consistent_nbrs(2) [OF t] kids that by blast
  have okk: "\<forall>k \<in> set (kids c). ok k" using ok kids by blast
  have ext: "set ext = {x \<in> dom t - set (kids c). adj c x}"
  proof (intro equalityI subsetI)
    fix x assume "x \<in> set ext"
    then obtain k where k: "k \<in> set (kids c)" "x \<in> dom t" "adj k x" "x \<notin> set (kids c)" using gs(2) nb by auto
    have "x \<noteq> c" using k(2) c(2) by blast
    then show "x \<in> {x \<in> dom t - set (kids c). adj c x}" using contact_up [OF c(1) _ k(1)] ok okk k by blast
  next
    fix x assume x: "x \<in> {x \<in> dom t - set (kids c). adj c x}"
    then obtain k where "k \<in> set (kids c)" "adj k x" using contact_down [OF c(1) _ okk, of x] ok by blast
    then show "x \<in> set ext" using x gs(2) nb by auto
  qed
  have d: "distinct (ord1 ext)" "distinct (ord2 ext)" "set (ord1 ext) = set ext" "set (ord2 ext) = set ext"
    using ord gs(1) by (simp_all add: shuffles_def)
  have "c \<notin> set ext" using ext c(2) by blast
  moreover have "nbrs (t'(c \<mapsto> ns)) x = nbrs t x" if "x \<in> set ext" for x ns
    using that ext c(2) by (auto simp: nbrs_def gs(3))
  ultimately have "merge_graph adj ord1 ord2 (kids c) c t =
      (\<lambda>x. if x \<in> set ext then Some (filter (\<lambda>y. y \<notin> set (kids c)) (nbrs t x) @ [c])
           else if x = c then Some (filter (adj c) (ord1 ext)) else if x \<in> set (kids c) then None else t x)"
    unfolding merge_graph_def g Let_def prod.case
    by (subst fold_modify [OF d(2), where f = "\<lambda>x ns. filter (\<lambda>y. y \<notin> set (kids c)) ns @ [c]"])
      (auto simp: fun_eq_iff d(4) gs(3))
  then show ?thesis by (rule that [OF ext d(1,3)])
qed

lemma merge_consistent:
  assumes t: "consistent adj t" and kids: "set (kids c) \<subseteq> dom t" and c: "ok c" "c \<notin> dom t"
    and ok: "\<forall>x \<in> dom t. ok x" and ord: "shuffles ord1" "shuffles ord2"
  shows "dom (merge_graph adj ord1 ord2 (kids c) c t) = dom t - set (kids c) \<union> {c}"
    and "consistent adj (merge_graph adj ord1 ord2 (kids c) c t)"
proof -
  let ?u = "merge_graph adj ord1 ord2 (kids c) c t"
  obtain ext where ext: "set ext = {x \<in> dom t - set (kids c). adj c x}" "distinct (ord1 ext)" "set (ord1 ext) = set ext"
    and eq: "?u = (\<lambda>x. if x \<in> set ext then Some (filter (\<lambda>y. y \<notin> set (kids c)) (nbrs t x) @ [c])
           else if x = c then Some (filter (adj c) (ord1 ext)) else if x \<in> set (kids c) then None else t x)"
    by (rule merge_eq [OF assms])
  have s: "c \<notin> set (kids c)" by (rule kids_self [OF c(1)])
  show dom: "dom ?u = dom t - set (kids c) \<union> {c}" unfolding eq using ext(1) s by (auto split: if_splits)
  have val: "nbrs ?u x = (if x \<in> set ext then filter (\<lambda>y. y \<notin> set (kids c)) (nbrs t x) @ [c]
      else if x = c then filter (adj c) (ord1 ext) else if x \<in> set (kids c) then [] else nbrs t x)" for x
    using nbrs_def [of ?u x, unfolded fun_cong [OF eq, of x]] nbrs_def [of t x] by simp
  note n = consistent_nbrs [OF t]
  have okk: "\<forall>k \<in> set (kids c). ok k" using ok kids by blast
  show "consistent adj ?u"
  proof (rule consistentI)
    fix x assume "x \<in> dom ?u"
    then consider (near) "x \<in> set ext" | (self) "x = c" "x \<notin> set ext"
      | (far) "x \<in> dom t" "x \<notin> set (kids c)" "x \<noteq> c" "\<not> adj c x" "x \<notin> set ext"
      unfolding dom ext(1) by blast
    note cases = this
    show "distinct (nbrs ?u x)"
      using cases
    proof cases
      case near
      then have "x \<in> dom t" by (simp add: ext(1))
      with near show ?thesis using n [of x] c(2) by (auto simp: val)
    next
      case self
      then show ?thesis using ext(2) by (simp add: val)
    next
      case far
      then show ?thesis using n(1) [of x] by (simp add: val)
    qed
    fix b
    show "b \<in> set (nbrs ?u x) \<longleftrightarrow> b \<in> dom ?u \<and> adj x b"
      using cases
    proof cases
      case near
      then have "x \<in> dom t" "adj x c" using adj_sym by (auto simp: ext(1))
      with near show ?thesis using n(2) [of x] s unfolding dom by (auto simp: val)
    next
      case self
      then show ?thesis using ext adj_irrefl unfolding dom by (auto simp: val)
    next
      case far
      have "\<not> adj x k" if "k \<in> set (kids c)" for k
        using contact_up [OF c(1) _ that] adj_sym ok okk far that by blast
      moreover have "\<not> adj x c" using far(4) adj_sym by blast
      ultimately show ?thesis using far n(2) [OF far(1)] unfolding dom by (auto simp: val)
    qed
  qed
qed

end

section \<open>The cells of the mesh\<close>

lemma AreAdjacent_sym: "AreAdjacent a b base = AreAdjacent b a base"
proof -
  have "max32 x y \<le> 0 \<longleftrightarrow> max32 y x \<le> 0" for x y by (auto simp: max32_le)
  then show ?thesis by (auto simp: AreAdjacent_def Let_def split: prod.splits)
qed

interpretation cells: subdivision "\<lambda>a b. AreAdjacent a b base" "exact_cell base" Children for base
proof
  show "AreAdjacent b a base" if "AreAdjacent a b base" for a b using that by (simp add: AreAdjacent_sym)
  show "\<not> AreAdjacent a a base" for a by (simp add: AreAdjacent_def)
  show "distinct (Children c)" if "exact_cell base c" for c
    by (simp add: Children_quarters(1) [OF that] quarter_def mk_cell_def)
  show "c \<notin> set (Children c)" if "exact_cell base c" for c
    using in_Children [OF that] Children_quarters(6) [OF that] by metis
  show "AreAdjacent c b base" if "exact_cell base c" "exact_cell base b" "k \<in> set (Children c)" "exact_cell base k" "b \<noteq> c" "AreAdjacent k b base" for c b k
    using that child_touch(1) [OF that(1,3)] adjacent_iff_touch [OF that(4,2)] adjacent_iff_touch [OF that(1,2)] by blast
  show "\<exists>k \<in> set (Children c). AreAdjacent k b base"
    if *: "exact_cell base c" "exact_cell base b" "\<forall>k \<in> set (Children c). exact_cell base k" "b \<notin> set (Children c)" "AreAdjacent c b base" for c b
  proof -
    have "touch c b" using adjacent_iff_touch [OF *(1,2)] *(5) by blast
    then obtain k where k: "k \<in> set (Children c)" "touch k b" using child_touch(2) [OF *(1)] by blast
    then have "AreAdjacent k b base" using adjacent_iff_touch [of base k b] * by blast
    then show ?thesis using k(1) by blast
  qed
qed

text \<open>A topology over exact cells that agrees with the adjacency test.\<close>

definition topo_ok :: "rat \<Rightarrow> topology \<Rightarrow> bool" where
  "topo_ok base t \<longleftrightarrow> consistent (\<lambda>a b. AreAdjacent a b base) t \<and> (\<forall>c \<in> dom t. exact_cell base c)"

text \<open>
  C25. The incremental update after a split is the full recomputation: the parent is replaced by
  its four children and every neighbour set is the one \<open>ComputeTopology\<close> gives on the new cells.
\<close>

theorem split_update_equals_recomputation:
  assumes "topo_ok base t" and "c \<in> dom t" and "\<forall>k \<in> set (Children c). exact_cell base k" and "set (Children c) \<inter> dom t = {}"
    and "set cells = dom t - {c} \<union> set (Children c)"
  shows "topo_ok base (UpdateAfterSplit c (Children c) base t) \<and>
    same_graph (UpdateAfterSplit c (Children c) base t) (ComputeTopology cells base)"
proof (intro conjI allI impI)
  have t: "consistent (\<lambda>a b. AreAdjacent a b base) t" "\<forall>c \<in> dom t. exact_cell base c" using assms(1) by (simp_all add: topo_ok_def)
  note s = cells.split_consistent [OF t(1) assms(2) t(2) assms(3,4), folded UpdateAfterSplit_def]
  show "topo_ok base (UpdateAfterSplit c (Children c) base t)" unfolding topo_ok_def s(1) using s(2) t(2) assms(3) by blast
  show "same_graph (UpdateAfterSplit c (Children c) base t) (ComputeTopology cells base)"
    unfolding ComputeTopology_def by (rule consistent_same_graph [OF s(2)]) (simp add: s(1) assms(5))
qed

text \<open>
  The incremental update after a merge is the full recomputation too, for every order in
  which Go may visit the set of external neighbours.
\<close>

theorem merge_update_equals_recomputation:
  assumes "topo_ok base t" and "set (Children c) \<subseteq> dom t" and "exact_cell base c" and "c \<notin> dom t"
    and "shuffles ord1" and "shuffles ord2" and "set cells = dom t - set (Children c) \<union> {c}"
  shows "topo_ok base (UpdateAfterMerge ord1 ord2 (Children c) c base t) \<and>
    same_graph (UpdateAfterMerge ord1 ord2 (Children c) c base t) (ComputeTopology cells base)"
proof (intro conjI allI impI)
  have t: "consistent (\<lambda>a b. AreAdjacent a b base) t" "\<forall>c \<in> dom t. exact_cell base c" using assms(1) by (simp_all add: topo_ok_def)
  note s = cells.merge_consistent [OF t(1) assms(2,3,4) t(2) assms(5,6), folded UpdateAfterMerge_def]
  show "topo_ok base (UpdateAfterMerge ord1 ord2 (Children c) c base t)" unfolding topo_ok_def s(1) using s(2) t(2) assms(3) by blast
  show "same_graph (UpdateAfterMerge ord1 ord2 (Children c) c base t) (ComputeTopology cells base)"
    unfolding ComputeTopology_def by (rule consistent_same_graph [OF s(2)]) (simp add: s(1) assms(7))
qed

text \<open>
  \<open>RebuildNeighborsFor\<close> on a consistent topology equals the full recomputation, whatever the
  affected cells, the snapshot order of the keys and the order of the frontier.
\<close>

theorem rebuild_equals_recomputation:
  assumes "topo_ok base t" and "distinct keys" and "set keys = dom t"
  shows "topo_ok base (RebuildNeighborsFor keys ord affected base t) \<and>
    same_graph (RebuildNeighborsFor keys ord affected base t) (ComputeTopology keys base)"
proof (intro conjI allI impI)
  have t: "consistent (\<lambda>a b. AreAdjacent a b base) t" "\<forall>c \<in> dom t. exact_cell base c" using assms(1) by (simp_all add: topo_ok_def)
  note s = cells.rebuild_consistent [OF t(1) assms(2,3), of ord affected, folded RebuildNeighborsFor_def]
  show "topo_ok base (RebuildNeighborsFor keys ord affected base t)" unfolding topo_ok_def s(2) using s(1) t(2) by blast
  show "same_graph (RebuildNeighborsFor keys ord affected base t) (ComputeTopology keys base)"
    unfolding ComputeTopology_def by (rule consistent_same_graph [OF s(1)]) (simp add: s(2) assms(3))
qed

definition demo_cells :: "cell_id list" where
  "demo_cells = [mk_cell 0 0 0, mk_cell 1 0 0, mk_cell 0 1 0]"

lemma demo_topo: "topo_ok 1000 (ComputeTopology demo_cells 1000)" "dom (ComputeTopology demo_cells 1000) = set demo_cells"
proof -
  have d: "distinct demo_cells" by (simp add: demo_cells_def mk_cell_def)
  show dom: "dom (ComputeTopology demo_cells 1000) = set demo_cells"
    by (auto simp: ComputeTopology_def compute_graph_eq split: if_splits)
  have "\<forall>c \<in> set demo_cells. exact_cell 1000 c" by (simp add: demo_cells_def mk_cell_def exact_1000)
  then show "topo_ok 1000 (ComputeTopology demo_cells 1000)"
    using cells.compute_consistent [OF d] unfolding topo_ok_def dom by (simp add: ComputeTopology_def)
qed

lemma demo_children: "Children (mk_cell 0 0 0) = [mk_cell 0 0 1, mk_cell 1 0 1, mk_cell 0 1 1, mk_cell 1 1 1]"
  by (simp add: Children_def mk_cell_def wrap32_def Let_def)

definition demo_split :: topology where
  "demo_split = UpdateAfterSplit (mk_cell 0 0 0) (Children (mk_cell 0 0 0)) 1000 (ComputeTopology demo_cells 1000)"

theorem split_update_witness:
  "topo_ok 1000 demo_split \<and>
   same_graph demo_split (ComputeTopology [mk_cell 1 0 0, mk_cell 0 1 0, mk_cell 0 0 1, mk_cell 1 0 1, mk_cell 0 1 1, mk_cell 1 1 1] 1000)"
proof -
  have k: "\<forall>k \<in> set (Children (mk_cell 0 0 0)). exact_cell 1000 k"
    unfolding demo_children by (simp add: exact_1000 mk_cell_def)
  have "mk_cell 0 0 0 \<in> dom (ComputeTopology demo_cells 1000)" unfolding demo_topo(2) by (simp add: demo_cells_def)
  moreover have "set (Children (mk_cell 0 0 0)) \<inter> dom (ComputeTopology demo_cells 1000) = {}"
    unfolding demo_topo(2) demo_children by (simp add: demo_cells_def mk_cell_def)
  moreover have "set [mk_cell 1 0 0, mk_cell 0 1 0, mk_cell 0 0 1, mk_cell 1 0 1, mk_cell 0 1 1, mk_cell 1 1 1] =
      dom (ComputeTopology demo_cells 1000) - {mk_cell 0 0 0} \<union> set (Children (mk_cell 0 0 0))"
    unfolding demo_topo(2) demo_children by (auto simp: demo_cells_def mk_cell_def)
  ultimately show ?thesis unfolding demo_split_def using split_update_equals_recomputation [OF demo_topo(1) _ k] by blast
qed

definition demo_children_topo :: topology where
  "demo_children_topo = ComputeTopology (mk_cell 1 0 0 # Children (mk_cell 0 0 0)) 1000"

lemma demo_children_topo_ok:
  "topo_ok 1000 demo_children_topo" "dom demo_children_topo = set (mk_cell 1 0 0 # Children (mk_cell 0 0 0))"
proof -
  let ?cs = "mk_cell 1 0 0 # Children (mk_cell 0 0 0)"
  have d: "distinct ?cs" unfolding demo_children by (simp add: mk_cell_def)
  show dom: "dom demo_children_topo = set ?cs"
    by (auto simp: demo_children_topo_def ComputeTopology_def compute_graph_eq split: if_splits)
  have "\<forall>c \<in> set ?cs. exact_cell 1000 c" unfolding demo_children by (simp add: mk_cell_def exact_1000)
  then show "topo_ok 1000 demo_children_topo"
    using cells.compute_consistent [OF d] unfolding topo_ok_def dom by (simp add: demo_children_topo_def ComputeTopology_def)
qed

theorem merge_update_witness:
  "same_graph (UpdateAfterMerge rev (\<lambda>xs. xs) (Children (mk_cell 0 0 0)) (mk_cell 0 0 0) 1000 demo_children_topo)
     (ComputeTopology [mk_cell 0 0 0, mk_cell 1 0 0] 1000)"
proof -
  note d = demo_children_topo_ok
  have "set (Children (mk_cell 0 0 0)) \<subseteq> dom demo_children_topo" unfolding d(2) by auto
  moreover have "exact_cell 1000 (mk_cell 0 0 0)" by (simp add: exact_1000 mk_cell_def)
  moreover have "mk_cell 0 0 0 \<notin> dom demo_children_topo" unfolding d(2) demo_children by (simp add: mk_cell_def)
  moreover have "shuffles rev" "shuffles (\<lambda>xs. xs)" by (simp_all add: shuffles_def)
  moreover have "set [mk_cell 0 0 0, mk_cell 1 0 0] = dom demo_children_topo - set (Children (mk_cell 0 0 0)) \<union> {mk_cell 0 0 0}"
    unfolding d(2) demo_children by (auto simp: mk_cell_def)
  ultimately show ?thesis by (rule merge_update_equals_recomputation [OF d(1), THEN conjunct2])
qed

theorem rebuild_witness:
  "topo_ok 1000 (RebuildNeighborsFor demo_cells rev [mk_cell 1 0 0] 1000 (ComputeTopology demo_cells 1000)) \<and>
   same_graph (RebuildNeighborsFor demo_cells rev [mk_cell 1 0 0] 1000 (ComputeTopology demo_cells 1000)) (ComputeTopology demo_cells 1000)"
proof -
  have "distinct demo_cells" by (simp add: demo_cells_def mk_cell_def)
  then show ?thesis using rebuild_equals_recomputation [OF demo_topo(1) _ demo_topo(2) [symmetric]] by blast
qed

end
