(* ===== verification/HostRegistry.thy ===== *)
theory HostRegistry
  imports GoPrelude
begin

text \<open>
  The coordinator's registry of nodes (\<open>pkg/universe/host_registry.go\<close>): registration, liveness
  states and the set of cells each node owns. The locks and the logger are not modelled; the
  clock readings are arguments. Where the source ranges over the map of hosts, the list of keys
  in visiting order is an argument. The set \<open>OwnedCells\<close> is a Go map whose entries are all true.
  The ownership callback is composed with the operations in the control plane.
\<close>

section \<open>State\<close>

datatype remote_host_state =
    RemoteHostUnknown
  | RemoteHostRegistered
  | RemoteHostLive
  | RemoteHostDead
  | RemoteHostLeaving

record remote_host =
  rh_ID :: string
  rh_GrpcAddr :: string
  rh_RegisteredAt :: int
  rh_LastHeartbeat :: int
  rh_State :: remote_host_state
  rh_OwnedCells :: "string set"
  rh_Local :: bool
  rh_HasPlayerDB :: bool
  rh_ServiceOnly :: bool

type_synonym host_registry = "string \<rightharpoonup> remote_host"

section \<open>Operations\<close>

definition NewHostRegistry :: host_registry where
  "NewHostRegistry = Map.empty"

definition Register :: "string \<Rightarrow> string \<Rightarrow> bool \<Rightarrow> bool \<Rightarrow> int \<Rightarrow> int \<Rightarrow> host_registry \<Rightarrow> host_registry" where
  "Register hostID addr hasDB serviceOnly now1 now2 r =
     r(hostID \<mapsto> \<lparr>rh_ID = hostID, rh_GrpcAddr = addr, rh_RegisteredAt = now1, rh_LastHeartbeat = now2,
       rh_State = RemoteHostRegistered, rh_OwnedCells = {}, rh_Local = False, rh_HasPlayerDB = hasDB,
       rh_ServiceOnly = serviceOnly\<rparr>)"

definition RegisterLocal :: "string \<Rightarrow> string \<Rightarrow> string list \<Rightarrow> bool \<Rightarrow> int \<Rightarrow> int \<Rightarrow> host_registry \<Rightarrow> host_registry" where
  "RegisterLocal hostID addr ownedCells hasDB now1 now2 r =
     r(hostID \<mapsto> \<lparr>rh_ID = hostID, rh_GrpcAddr = addr, rh_RegisteredAt = now1, rh_LastHeartbeat = now2,
       rh_State = RemoteHostLive, rh_OwnedCells = set ownedCells, rh_Local = True, rh_HasPlayerDB = hasDB,
       rh_ServiceOnly = False\<rparr>)"

text \<open>An update of an entry that is skipped for an unknown host.\<close>

definition modify_host :: "string \<Rightarrow> (remote_host \<Rightarrow> remote_host) \<Rightarrow> host_registry \<Rightarrow> host_registry" where
  "modify_host hostID f r = (case r hostID of None \<Rightarrow> r | Some h \<Rightarrow> r(hostID \<mapsto> f h))"

definition Touch :: "string \<Rightarrow> int \<Rightarrow> host_registry \<Rightarrow> host_registry" where
  "Touch hostID now =
     modify_host hostID (\<lambda>h. h\<lparr>rh_LastHeartbeat := now,
       rh_State := (if rh_State h = RemoteHostRegistered then RemoteHostLive else rh_State h)\<rparr>)"

definition MarkDead :: "string \<Rightarrow> host_registry \<Rightarrow> host_registry" where
  "MarkDead hostID = modify_host hostID (\<lambda>h. h\<lparr>rh_State := RemoteHostDead\<rparr>)"

definition MarkLeaving :: "string \<Rightarrow> host_registry \<Rightarrow> host_registry" where
  "MarkLeaving hostID = modify_host hostID (\<lambda>h. h\<lparr>rh_State := RemoteHostLeaving\<rparr>)"

definition hr_Remove :: "string \<Rightarrow> host_registry \<Rightarrow> host_registry" where
  "hr_Remove hostID r = r(hostID := None)"

definition hr_Get :: "string \<Rightarrow> host_registry \<Rightarrow> remote_host option" where
  "hr_Get hostID r = r hostID"

definition LiveHosts :: "string list \<Rightarrow> host_registry \<Rightarrow> remote_host list" where
  "LiveHosts keys r = List.map_filter r keys"

definition cellBearingHosts :: "string list \<Rightarrow> host_registry \<Rightarrow> remote_host list" where
  "cellBearingHosts keys r = filter (\<lambda>h. \<not> rh_ServiceOnly h) (List.map_filter r keys)"

definition AssignCell :: "string \<Rightarrow> string \<Rightarrow> host_registry \<Rightarrow> host_registry option" where
  "AssignCell hostID cellID r =
     (case r hostID of
        None \<Rightarrow> None
      | Some h \<Rightarrow> Some (r(hostID \<mapsto> h\<lparr>rh_OwnedCells := insert cellID (rh_OwnedCells h)\<rparr>)))"

definition ReleaseCell :: "string \<Rightarrow> string \<Rightarrow> host_registry \<Rightarrow> host_registry" where
  "ReleaseCell hostID cellID = modify_host hostID (\<lambda>h. h\<lparr>rh_OwnedCells := rh_OwnedCells h - {cellID}\<rparr>)"

fun HostForCell :: "string list \<Rightarrow> string \<Rightarrow> host_registry \<Rightarrow> string" where
  "HostForCell [] cellID r = ''''"
| "HostForCell (k # keys) cellID r =
     (case r k of
        Some h \<Rightarrow> if cellID \<in> rh_OwnedCells h then k else HostForCell keys cellID r
      | None \<Rightarrow> HostForCell keys cellID r)"

definition SetHasPlayerDB :: "string \<Rightarrow> bool \<Rightarrow> host_registry \<Rightarrow> host_registry" where
  "SetHasPlayerDB hostID b = modify_host hostID (\<lambda>h. h\<lparr>rh_HasPlayerDB := b\<rparr>)"

section \<open>Ownership\<close>

definition owned_by :: "host_registry \<Rightarrow> string \<Rightarrow> string \<Rightarrow> bool" where
  "owned_by r hostID cellID \<longleftrightarrow> (case r hostID of None \<Rightarrow> False | Some h \<Rightarrow> cellID \<in> rh_OwnedCells h)"

text \<open>No cell has two owners, and no host has the empty name, which stands for "no host".\<close>

definition one_owner :: "host_registry \<Rightarrow> bool" where
  "one_owner r \<longleftrightarrow> r '''' = None \<and> (\<forall>c h k. owned_by r h c \<longrightarrow> owned_by r k c \<longrightarrow> h = k)"

text \<open>The visiting order of a range: every key, once.\<close>

definition enumerates :: "'k list \<Rightarrow> ('k \<rightharpoonup> 'v) \<Rightarrow> bool" where
  "enumerates keys m \<longleftrightarrow> distinct keys \<and> set keys = dom m"

lemma HostForCell_scan:
  "HostForCell keys c r = (case find (\<lambda>k. owned_by r k c) keys of None \<Rightarrow> '''' | Some k \<Rightarrow> k)"
  by (induction keys) (auto simp: owned_by_def split: option.splits)

lemma HostForCell_none:
  assumes "enumerates keys r" and "\<forall>h. \<not> owned_by r h c"
  shows "HostForCell keys c r = ''''"
  using assms(2) by (simp add: HostForCell_scan find_None_iff split: option.splits) (metis find_Some_iff)

lemma HostForCell_owner:
  assumes "enumerates keys r" and "one_owner r" and "owned_by r h c"
  shows "HostForCell keys c r = h"
proof -
  have "h \<in> set keys" using assms(1,3) by (auto simp: enumerates_def owned_by_def split: option.splits)
  then obtain k where k: "find (\<lambda>k. owned_by r k c) keys = Some k"
    using assms(3) by (metis find_None_iff option.exhaust)
  then have "owned_by r k c" by (auto simp: find_Some_iff)
  then show ?thesis using assms(2,3) k by (auto simp: HostForCell_scan one_owner_def)
qed

lemma owned_by_Assign:
  "AssignCell h c r = Some r' \<Longrightarrow> owned_by r' k d \<longleftrightarrow> owned_by r k d \<or> (k = h \<and> d = c)"
  by (auto simp: AssignCell_def owned_by_def split: option.splits if_splits)

lemma owned_by_Release: "owned_by (ReleaseCell h c r) k d \<longleftrightarrow> owned_by r k d \<and> \<not> (k = h \<and> d = c)"
  by (auto simp: ReleaseCell_def modify_host_def owned_by_def split: option.splits)

lemma dom_registry [simp]:
  "dom (ReleaseCell h c r) = dom r" "AssignCell h c r = Some r' \<Longrightarrow> dom r' = dom r"
  by (auto simp: ReleaseCell_def modify_host_def AssignCell_def split: option.splits if_splits)

lemma Assign_one_owner:
  assumes "one_owner r" and "AssignCell h c r = Some r'" and "\<forall>k. owned_by r k c \<longrightarrow> k = h"
  shows "one_owner r'"
  using assms owned_by_Assign [OF assms(2)] unfolding one_owner_def
  by (auto simp: AssignCell_def split: option.splits)

lemma Release_one_owner: "one_owner r \<Longrightarrow> one_owner (ReleaseCell h c r)"
  unfolding one_owner_def owned_by_Release by (auto simp: ReleaseCell_def modify_host_def split: option.splits)

text \<open>
  Handing a cell from one host to another by release and assign, the only way the commits and
  the assignment engine move cells, keeps every cell with at most one owner; afterwards the lookup
  returns the new owner of that cell and the old owner of every other cell, whatever the order in
  which Go visits the hosts.
\<close>

theorem handover_moves_exactly_one_cell:
  assumes "one_owner r" and "owned_by r old c" and "AssignCell new c (ReleaseCell old c r) = Some r'"
    and "enumerates keys r"
  shows "one_owner r' \<and> HostForCell keys c r' = new \<and> (\<forall>d. d \<noteq> c \<longrightarrow> HostForCell keys d r' = HostForCell keys d r)"
proof (intro conjI allI impI)
  let ?m = "ReleaseCell old c r"
  have only: "\<not> owned_by ?m k c" for k using assms(1,2) by (auto simp: owned_by_Release one_owner_def)
  show one: "one_owner r'" by (rule Assign_one_owner [OF Release_one_owner [OF assms(1)] assms(3)]) (use only in blast)
  have en: "enumerates keys r'" using assms(3,4) by (simp add: enumerates_def)
  have own: "owned_by r' k d \<longleftrightarrow> (owned_by r k d \<and> d \<noteq> c) \<or> (k = new \<and> d = c)" for k d
    using owned_by_Assign [OF assms(3)] only by (auto simp: owned_by_Release)
  show "HostForCell keys c r' = new" by (rule HostForCell_owner [OF en one]) (simp add: own)
  show "HostForCell keys d r' = HostForCell keys d r" if "d \<noteq> c" for d
    using that by (simp add: HostForCell_scan own)
qed

theorem handover_witness:
  "\<exists>r'. AssignCell ''b'' ''cell_0_0'' (ReleaseCell ''a'' ''cell_0_0''
      (RegisterLocal ''a'' '''' [''cell_0_0'', ''cell_1_0''] True 1 1 (Register ''b'' '''' False False 2 2 NewHostRegistry))) = Some r' \<and>
    HostForCell [''a'', ''b''] ''cell_0_0'' r' = ''b'' \<and> HostForCell [''a'', ''b''] ''cell_1_0'' r' = ''a''"
proof -
  let ?r = "RegisterLocal ''a'' '''' [''cell_0_0'', ''cell_1_0''] True 1 1 (Register ''b'' '''' False False 2 2 NewHostRegistry)"
  have o: "owned_by ?r h c \<longleftrightarrow> h = ''a'' \<and> c \<in> {''cell_0_0'', ''cell_1_0''}" for h c
    by (auto simp: owned_by_def RegisterLocal_def Register_def NewHostRegistry_def)
  then have one: "one_owner ?r" unfolding one_owner_def o by (auto simp: RegisterLocal_def Register_def NewHostRegistry_def)
  have en: "enumerates [''a'', ''b''] ?r" by (auto simp: enumerates_def RegisterLocal_def Register_def NewHostRegistry_def)
  obtain r' where r': "AssignCell ''b'' ''cell_0_0'' (ReleaseCell ''a'' ''cell_0_0'' ?r) = Some r'"
    by (simp add: AssignCell_def ReleaseCell_def modify_host_def RegisterLocal_def Register_def)
  have "owned_by ?r ''a'' ''cell_0_0''" "owned_by ?r ''a'' ''cell_1_0''" by (simp_all add: o)
  then show ?thesis
    using handover_moves_exactly_one_cell [OF one _ r' en]
      HostForCell_owner [OF en one] r' by auto
qed

end
