(* ===== verification/ControlPlane.thy ===== *)
theory ControlPlane
  imports Topology HostRegistry
begin

text \<open>
  The coordinator's view of the mesh (\<open>pkg/universe/control_plane.go\<close>): who owns which cell, the
  neighbour graph and its upkeep when ownership changes, and the operations on remote hosts that
  wait for an acknowledgement (\<open>pkg/universe/host_ops.go\<close>). Locks are not modelled: every operation
  here runs under them. The orders in which Go ranges over maps are collected in one record.
\<close>

section \<open>State\<close>

record go_orders =
  o_hosts :: "string list"
  o_owned :: "string set \<Rightarrow> string list"
  o_map :: "(string \<rightharpoonup> string) \<Rightarrow> string list"
  o_keys :: "topology \<Rightarrow> cell_id list"
  o_front :: "cell_id list \<Rightarrow> cell_id list"
  o_ext1 :: "cell_id list \<Rightarrow> cell_id list"
  o_ext2 :: "cell_id list \<Rightarrow> cell_id list"

text \<open>\<open>cp_Registry\<close> and \<open>cp_Topology\<close> are \<open>None\<close> where the source has a nil pointer or map.\<close>

record control_plane =
  cp_CellToHost :: "string \<rightharpoonup> string"
  cp_Registry :: "host_registry option"
  cp_Topology :: "topology option"

section \<open>Ownership\<close>

definition OwnerOf :: "go_orders \<Rightarrow> string \<Rightarrow> control_plane \<Rightarrow> string option" where
  "OwnerOf o' cellKey c =
     (case cp_Registry c of
        None \<Rightarrow> cp_CellToHost c cellKey
      | Some r \<Rightarrow>
          (let h = HostForCell (o_hosts o') cellKey r
           in if h \<noteq> '''' then Some h else cp_CellToHost c cellKey))"

definition HostForCellID :: "go_orders \<Rightarrow> string \<Rightarrow> control_plane \<Rightarrow> string" where
  "HostForCellID o' cellID c = (case OwnerOf o' cellID c of None \<Rightarrow> '''' | Some h \<Rightarrow> h)"

text \<open>The pairs \<open>AllOwnedCells\<close> yields when no callback stops it: first the registry, then the rest of the map.\<close>

definition registry_cells :: "go_orders \<Rightarrow> control_plane \<Rightarrow> (string \<times> string) list" where
  "registry_cells o' c =
     (case cp_Registry c of
        None \<Rightarrow> []
      | Some r \<Rightarrow>
          foldl (\<lambda>out (cellID, h). if cellID \<in> fst ` set out then out else out @ [(cellID, h)]) []
            (concat (map (\<lambda>h. map (\<lambda>cellID. (cellID, rh_ID h)) (o_owned o' (rh_OwnedCells h))) (LiveHosts (o_hosts o') r))))"

definition AllOwnedCells :: "go_orders \<Rightarrow> control_plane \<Rightarrow> (string \<times> string) list" where
  "AllOwnedCells o' c =
     (let seen = registry_cells o' c;
          snapshot = List.map_filter (\<lambda>k. if k \<in> fst ` set seen then None
            else map_option (Pair k) (cp_CellToHost c k)) (o_map o' (cp_CellToHost c))
      in seen @ snapshot)"

definition CellsOwnedBy :: "go_orders \<Rightarrow> string \<Rightarrow> control_plane \<Rightarrow> string list" where
  "CellsOwnedBy o' hostID c = map fst (filter (\<lambda>(k, owner). owner = hostID) (AllOwnedCells o' c))"

definition snapshotCellOwnership :: "go_orders \<Rightarrow> control_plane \<Rightarrow> string \<rightharpoonup> string" where
  "snapshotCellOwnership o' c = fold (\<lambda>(k, v) m. m(k \<mapsto> v)) (AllOwnedCells o' c) Map.empty"

section \<open>Upkeep of the neighbour graph\<close>

definition rebuildTopologyForCell :: "go_orders \<Rightarrow> rat \<Rightarrow> string \<Rightarrow> control_plane \<Rightarrow> control_plane" where
  "rebuildTopologyForCell o' base cellKey c =
     (case ParseCellID cellKey of
        None \<Rightarrow> c
      | Some cid \<Rightarrow>
          (let owned = (OwnerOf o' cellKey c \<noteq> None);
               t = (case cp_Topology c of None \<Rightarrow> Map.empty | Some t \<Rightarrow> t);
               t = (if \<not> owned then t(cid := None) else if t cid = None then t(cid \<mapsto> []) else t)
           in c\<lparr>cp_Topology := Some (RebuildNeighborsFor (o_keys o' t) (o_front o') [cid] base t)\<rparr>))"

text \<open>\<open>AssignCell\<close> and \<open>ReleaseCell\<close> of the registry with the callback the coordinator installs.\<close>

definition assign_cell :: "go_orders \<Rightarrow> rat \<Rightarrow> string \<Rightarrow> string \<Rightarrow> control_plane \<Rightarrow> control_plane" where
  "assign_cell o' base hostID cellID c =
     (case cp_Registry c of
        None \<Rightarrow> c
      | Some r \<Rightarrow>
          (case AssignCell hostID cellID r of
             None \<Rightarrow> c
           | Some r' \<Rightarrow> rebuildTopologyForCell o' base cellID (c\<lparr>cp_Registry := Some r'\<rparr>)))"

definition release_cell :: "go_orders \<Rightarrow> rat \<Rightarrow> string \<Rightarrow> string \<Rightarrow> control_plane \<Rightarrow> control_plane" where
  "release_cell o' base hostID cellID c =
     (case cp_Registry c of
        None \<Rightarrow> c
      | Some r \<Rightarrow> rebuildTopologyForCell o' base cellID (c\<lparr>cp_Registry := Some (ReleaseCell hostID cellID r)\<rparr>))"

section \<open>Operations that wait for a host\<close>

record host_op_result =
  ho_ok :: bool
  ho_error :: string

text \<open>\<open>po_chan\<close> is the content of the channel made for an operation, capacity one.\<close>

record pending_ops =
  po_next :: u64
  po_pending :: "u64 set"
  po_chan :: "u64 \<Rightarrow> host_op_result list"

definition allocHostOpID :: "pending_ops \<Rightarrow> u64 \<times> pending_ops" where
  "allocHostOpID s = (po_next s + 1, s\<lparr>po_next := po_next s + 1\<rparr>)"

definition registerPendingOp :: "u64 \<Rightarrow> pending_ops \<Rightarrow> pending_ops" where
  "registerPendingOp i s = s\<lparr>po_pending := insert i (po_pending s), po_chan := (po_chan s)(i := [])\<rparr>"

definition completePendingOp :: "u64 \<Rightarrow> host_op_result \<Rightarrow> pending_ops \<Rightarrow> pending_ops" where
  "completePendingOp i result s =
     (if i \<in> po_pending s
      then s\<lparr>po_pending := po_pending s - {i}, po_chan := (po_chan s)(i := po_chan s i @ [result])\<rparr>
      else s)"

definition cancelPendingOp :: "u64 \<Rightarrow> string \<Rightarrow> pending_ops \<Rightarrow> pending_ops" where
  "cancelPendingOp i reason = completePendingOp i \<lparr>ho_ok = False, ho_error = reason\<rparr>"

datatype host_op_error = NoControlServer | DispatchFailed | OpFailed string | CtxExpired

text \<open>
  \<open>ReleaseCell\<close> and \<open>RenameCell\<close> on a remote host: \<open>acks\<close> are the acknowledgements the server
  handles between the dispatch and the end of the wait, for this and for other operations.
\<close>

definition remote_op ::
  "bool \<Rightarrow> bool \<Rightarrow> (u64 \<times> host_op_result) list \<Rightarrow> pending_ops \<Rightarrow> pending_ops \<times> (host_op_error + unit)" where
  "remote_op hasServer sent acks s =
     (if \<not> hasServer then (s, Inl NoControlServer)
      else
        (let (reqID, s) = allocHostOpID s;
             s = registerPendingOp reqID s
         in if \<not> sent then (cancelPendingOp reqID ''dispatch failed'' s, Inl DispatchFailed)
            else
              (let s = fold (\<lambda>(i, r). completePendingOp i r) acks s
               in case po_chan s reqID of
                    r # rs \<Rightarrow> (s\<lparr>po_chan := (po_chan s)(reqID := rs)\<rparr>, if ho_ok r then Inr () else Inl (OpFailed (ho_error r)))
                  | [] \<Rightarrow> (cancelPendingOp reqID ''ctx expired'' s, Inl CtxExpired))))"

section \<open>The ownership snapshot\<close>

text \<open>Well-formed orders and a registry whose entries carry their own key.\<close>

definition lists_maps :: "go_orders \<Rightarrow> control_plane \<Rightarrow> bool" where
  "lists_maps o' c \<longleftrightarrow> enumerates (o_map o' (cp_CellToHost c)) (cp_CellToHost c) \<and>
     (\<forall>r. cp_Registry c = Some r \<longrightarrow> enumerates (o_hosts o') r \<and>
       (\<forall>h \<in> ran r. distinct (o_owned o' (rh_OwnedCells h)) \<and> set (o_owned o' (rh_OwnedCells h)) = rh_OwnedCells h))"

definition registry_ok :: "control_plane \<Rightarrow> bool" where
  "registry_ok c \<longleftrightarrow> (\<forall>r. cp_Registry c = Some r \<longrightarrow> one_owner r \<and> (\<forall>k h. r k = Some h \<longrightarrow> rh_ID h = k))"

lemma dedup_pairs:
  "foldl (\<lambda>out (c, h). if c \<in> fst ` set out then out else out @ [(c, h)]) out ps = out' \<Longrightarrow> distinct (map fst out) \<Longrightarrow>
     distinct (map fst out') \<and> fst ` set out' = fst ` set out \<union> fst ` set ps \<and> set out' \<subseteq> set out \<union> set ps"
proof (induction ps arbitrary: out)
  case (Cons p ps)
  obtain c h where p: "p = (c, h)" by fastforce
  let ?o = "if c \<in> fst ` set out then out else out @ [(c, h)]"
  have "distinct (map fst ?o)" using Cons.prems(2) by simp
  from Cons.IH [OF _ this] Cons.prems(1) show ?case by (auto simp: p split: if_splits)
qed auto

lemma fold_upd_map_of:
  assumes "distinct (map fst ps)"
  shows "fold (\<lambda>(k, v) m. m(k \<mapsto> v)) ps m j = (case map_of ps j of None \<Rightarrow> m j | Some v \<Rightarrow> Some v)"
  using assms
proof (induction ps arbitrary: m)
  case (Cons p ps)
  obtain a b where p: "p = (a, b)" by fastforce
  obtain u where u: "u = m(a \<mapsto> b)" by simp
  have "map_of ps a = None" using Cons.prems by (simp add: p map_of_eq_None_iff)
  moreover have "u a = Some b" "j \<noteq> a \<Longrightarrow> u j = m j" by (simp_all add: u)
  moreover have "fold (\<lambda>(k, v) m. m(k \<mapsto> v)) (p # ps) m = fold (\<lambda>(k, v) m. m(k \<mapsto> v)) ps u"
    unfolding p u by (simp only: fold.simps o_apply prod.case)
  ultimately show ?case using Cons.IH [of u] Cons.prems 
    by (cases "j = a") (simp_all add: p fun_upd_same fun_upd_other del: fun_upd_apply split: option.splits)
qed simp

lemma set_map_filter_iff: "y \<in> set (List.map_filter f xs) \<longleftrightarrow> (\<exists>x \<in> set xs. f x = Some y)"
  by (induction xs) (auto simp: List.map_filter_simps split: option.splits)

lemma owner_pairs:
  assumes "registry_ok c" and "lists_maps o' c" and "cp_Registry c = Some r"
  shows "set (concat (map (\<lambda>h. map (\<lambda>cellID. (cellID, rh_ID h)) (o_owned o' (rh_OwnedCells h))) (LiveHosts (o_hosts o') r))) =
    {(k, h). owned_by r h k}"
proof -
  have keys: "set (o_hosts o') = dom r" using assms(2,3) by (simp add: lists_maps_def enumerates_def)
  have "set (LiveHosts (o_hosts o') r) = ran r"
    unfolding LiveHosts_def List.map_filter_def keys [symmetric] using keys by (force simp: ran_def image_iff dom_def)
  moreover have "set (o_owned o' (rh_OwnedCells h)) = rh_OwnedCells h" if "h \<in> ran r" for h
    using assms(2,3) that by (simp add: lists_maps_def)
  moreover have "rh_ID h = k" if "r k = Some h" for k h using assms(1,3) that by (simp add: registry_ok_def)
  ultimately show ?thesis by (fastforce simp: owned_by_def ran_def split: option.splits)
qed

lemma registry_cells_spec:
  assumes "registry_ok c" and "lists_maps o' c"
  shows "distinct (map fst (registry_cells o' c))"
    and "(k, v) \<in> set (registry_cells o' c) \<longleftrightarrow>
      (\<exists>r. cp_Registry c = Some r \<and> HostForCell (o_hosts o') k r = v \<and> v \<noteq> '''')"
proof -
  show "distinct (map fst (registry_cells o' c))"
    unfolding registry_cells_def using dedup_pairs [OF refl, of "[]"] by (auto split: option.splits)
  show "(k, v) \<in> set (registry_cells o' c) \<longleftrightarrow>
      (\<exists>r. cp_Registry c = Some r \<and> HostForCell (o_hosts o') k r = v \<and> v \<noteq> '''')"
  proof (cases "cp_Registry c")
    case None
    then show ?thesis by (simp add: registry_cells_def)
  next
    case (Some r)
    let ?ps = "concat (map (\<lambda>h. map (\<lambda>cellID. (cellID, rh_ID h)) (o_owned o' (rh_OwnedCells h))) (LiveHosts (o_hosts o') r))"
    note op = owner_pairs [OF assms Some]
    have one: "one_owner r" "enumerates (o_hosts o') r" using assms Some by (simp_all add: registry_ok_def lists_maps_def)
    have img: "fst ` set (registry_cells o' c) = fst ` set ?ps" "set (registry_cells o' c) \<subseteq> set ?ps"
      using dedup_pairs [OF refl, of "[]" ?ps] Some by (simp_all add: registry_cells_def)
    have sub: "owned_by r w k" if "(k, w) \<in> set (registry_cells o' c)" for w using img(2) that unfolding op by blast
    have in_seen: "(k, v) \<in> set (registry_cells o' c) \<longleftrightarrow> owned_by r v k"
    proof
      assume o: "owned_by r v k"
      then have "(k, v) \<in> set ?ps" unfolding op by simp
      then have "k \<in> fst ` set (registry_cells o' c)" unfolding img(1) by (rule rev_image_eqI) simp
      then obtain w where w: "(k, w) \<in> set (registry_cells o' c)" by (elim imageE) (metis prod.collapse)
      then have "w = v" using sub [OF w] o one(1) unfolding one_owner_def by blast
      then show "(k, v) \<in> set (registry_cells o' c)" using w by simp
    qed (rule sub)
    have "owned_by r v k \<longleftrightarrow> HostForCell (o_hosts o') k r = v \<and> v \<noteq> ''''"
    proof
      assume "owned_by r v k"
      then show "HostForCell (o_hosts o') k r = v \<and> v \<noteq> ''''"
        using HostForCell_owner [OF one(2,1)] one(1) by (auto simp: one_owner_def owned_by_def)
    next
      assume v: "HostForCell (o_hosts o') k r = v \<and> v \<noteq> ''''"
      then obtain h where h: "owned_by r h k" using HostForCell_none [OF one(2), of k] by blast
      then show "owned_by r v k" using HostForCell_owner [OF one(2,1) h] v by simp
    qed
    then show ?thesis unfolding in_seen using Some by simp
  qed
qed

lemma AllOwnedCells_spec:
  assumes "registry_ok c" and "lists_maps o' c"
  shows "distinct (map fst (AllOwnedCells o' c))"
    and "(k, v) \<in> set (AllOwnedCells o' c) \<longleftrightarrow> OwnerOf o' k c = Some v"
proof -
  define S where "S = fst ` set (registry_cells o' c)"
  let ?f = "\<lambda>k. if k \<in> S then None else map_option (Pair k) (cp_CellToHost c k)"
  let ?rest = "List.map_filter ?f (o_map o' (cp_CellToHost c))"
  have all: "AllOwnedCells o' c = registry_cells o' c @ ?rest" by (simp add: AllOwnedCells_def S_def Let_def)
  note reg = registry_cells_spec [OF assms]
  have mk: "distinct (o_map o' (cp_CellToHost c))" "set (o_map o' (cp_CellToHost c)) = dom (cp_CellToHost c)"
    using assms(2) by (simp_all add: lists_maps_def enumerates_def)
  have rest: "(j, v) \<in> set ?rest \<longleftrightarrow> j \<notin> S \<and> cp_CellToHost c j = Some v" for j v
    using mk(2) by (fastforce simp: set_map_filter_iff dom_def split: if_splits)
  have "map fst ?rest = filter (\<lambda>j. ?f j \<noteq> None) (o_map o' (cp_CellToHost c))"
    unfolding List.map_filter_def map_map o_def by (rule map_idI) (auto split: if_splits)
  then have "distinct (map fst ?rest)" using mk(1) by simp
  moreover have "S \<inter> fst ` set ?rest = {}" using rest by force
  ultimately show "distinct (map fst (AllOwnedCells o' c))" using reg(1) unfolding all S_def by simp
  have "k \<in> S \<longleftrightarrow> (\<exists>v. (k, v) \<in> set (registry_cells o' c))" unfolding S_def by force
  then show "(k, v) \<in> set (AllOwnedCells o' c) \<longleftrightarrow> OwnerOf o' k c = Some v"
    unfolding all set_append Un_iff rest reg(2) by (auto simp: OwnerOf_def Let_def split: option.splits)
qed

text \<open>
  The snapshot of all ownership that placement decisions are taken from agrees with the single
  lookup \<open>OwnerOf\<close> on every cell, for every order in which the maps are visited: the registry
  wins over the local map and no cell is listed twice.
\<close>

theorem ownership_snapshot_agrees:
  assumes "registry_ok c" and "lists_maps o' c"
  shows "snapshotCellOwnership o' c k = OwnerOf o' k c \<and> distinct (map fst (AllOwnedCells o' c)) \<and>
    (\<forall>h. k \<in> set (CellsOwnedBy o' h c) \<longleftrightarrow> OwnerOf o' k c = Some h)"
proof -
  note a = AllOwnedCells_spec [OF assms]
  have "map_of (AllOwnedCells o' c) k = OwnerOf o' k c"
    using map_of_eq_Some_iff [OF a(1), of k] a(2) [of k] map_of_eq_None_iff [of "AllOwnedCells o' c" k]
    by (cases "OwnerOf o' k c") (force simp: image_iff)+
  then have "snapshotCellOwnership o' c k = OwnerOf o' k c"
    unfolding snapshotCellOwnership_def fold_upd_map_of [OF a(1)] by (simp split: option.splits)
  moreover have "k \<in> set (CellsOwnedBy o' h c) \<longleftrightarrow> OwnerOf o' k c = Some h" for h
    unfolding a(2) [symmetric] CellsOwnedBy_def by force
  ultimately show ?thesis using a(1) by simp
qed

definition demo_registry :: host_registry where
  "demo_registry = RegisterLocal ''a'' '''' [''cell_0_0'', ''cell_1_0''] True 1 1 NewHostRegistry"

definition demo_orders :: go_orders where
  "demo_orders = \<lparr>o_hosts = [''a''], o_owned = (\<lambda>s. filter (\<lambda>k. k \<in> s) [''cell_1_0'', ''cell_0_0'']),
     o_map = (\<lambda>m. filter (\<lambda>k. m k \<noteq> None) [''cell_0_0'', ''cell_0_1'']),
     o_keys = (\<lambda>t. filter (\<lambda>k. t k \<noteq> None) [mk_cell 0 0 0, mk_cell 1 0 0]), o_front = (\<lambda>xs. xs), o_ext1 = (\<lambda>xs. xs), o_ext2 = (\<lambda>xs. xs)\<rparr>"

definition demo_control :: control_plane where
  "demo_control = \<lparr>cp_CellToHost = [''cell_0_0'' \<mapsto> ''b'', ''cell_0_1'' \<mapsto> ''b''], cp_Registry = Some demo_registry, cp_Topology = None\<rparr>"

theorem ownership_snapshot_agrees_witness:
  "snapshotCellOwnership demo_orders demo_control ''cell_0_0'' = Some ''a'' \<and>
   snapshotCellOwnership demo_orders demo_control ''cell_0_1'' = Some ''b''"
proof -
  have "registry_ok demo_control"
    by (auto simp: registry_ok_def demo_control_def demo_registry_def one_owner_def owned_by_def RegisterLocal_def NewHostRegistry_def)
  moreover have "lists_maps demo_orders demo_control"
    by (auto simp: lists_maps_def enumerates_def demo_control_def demo_registry_def demo_orders_def RegisterLocal_def NewHostRegistry_def)
  moreover have "OwnerOf demo_orders ''cell_0_0'' demo_control = Some ''a''" "OwnerOf demo_orders ''cell_0_1'' demo_control = Some ''b''"
    by (simp_all add: OwnerOf_def demo_control_def demo_registry_def demo_orders_def RegisterLocal_def Let_def)
  ultimately show ?thesis using ownership_snapshot_agrees [of demo_control demo_orders] by metis
qed

section \<open>What the ownership callback changes\<close>

lemma OwnerOf_topology [simp]: "OwnerOf o' k (c\<lparr>cp_Topology := t\<rparr>) = OwnerOf o' k c"
  by (simp add: OwnerOf_def Let_def split: option.splits)

lemma rebuild_registry [simp]:
  "cp_Registry (rebuildTopologyForCell o' base k c) = cp_Registry c"
  "cp_CellToHost (rebuildTopologyForCell o' base k c) = cp_CellToHost c"
  "OwnerOf o'' j (rebuildTopologyForCell o' base k c) = OwnerOf o'' j c"
  by (simp_all add: rebuildTopologyForCell_def Let_def split: option.splits)

lemma shuffles_single: "shuffles f \<Longrightarrow> f [x] = [x]"
proof -
  assume "shuffles f"
  then have "distinct (f [x])" "set (f [x]) = {x}" by (simp_all add: shuffles_def)
  then show "f [x] = [x]" by (cases "f [x]"; cases "tl (f [x])") auto
qed

text \<open>A rebuild around a cell without neighbours touches only that cell.\<close>

lemma rebuild_lonely:
  assumes "shuffles ord" and "nbrs t c = []"
  shows "RebuildNeighborsFor keys ord [c] base t =
    (if t c = None then t else t(c \<mapsto> filter (\<lambda>x. x \<noteq> c \<and> AreAdjacent c x base) keys))"
proof -
  have "frontier [c] t = [c]" using assms(2) by (simp add: frontier_def)
  then show ?thesis
    using shuffles_single [OF assms(1), of c] by (auto simp: RebuildNeighborsFor_def rebuild_graph_def fun_upd_idem)
qed

lemma callback_release:
  assumes "ParseCellID k = Some c" and "OwnerOf o' k cp = None" and "cp_Topology cp = Some t" and "shuffles (o_front o')"
  shows "cp_Topology (rebuildTopologyForCell o' base k cp) = Some (t(c := None))"
  using assms(1-3) rebuild_lonely [OF assms(4), of "t(c := None)" c]
  by (simp add: rebuildTopologyForCell_def Let_def nbrs_def)

lemma callback_first_assign:
  assumes "ParseCellID k = Some c" and "cp_Topology cp = Some t" and "t c = None" and "shuffles (o_front o')" and "n \<noteq> c"
  shows "the (cp_Topology (rebuildTopologyForCell o' base k cp)) n = t n"
  using assms(1,2,3,5) rebuild_lonely [OF assms(4), of "t(c := None)" c] rebuild_lonely [OF assms(4), of "t(c \<mapsto> [])" c]
  by (simp add: rebuildTopologyForCell_def Let_def nbrs_def)


definition demo_mesh :: control_plane where
  "demo_mesh = \<lparr>cp_CellToHost = Map.empty, cp_Registry = Some demo_registry,
     cp_Topology = Some (ComputeTopology [mk_cell 0 0 0, mk_cell 1 0 0] 1000)\<rparr>"


section \<open>Acknowledgements\<close>

text \<open>No channel holds more than one result, and the channel of a pending operation is empty: no send blocks.\<close>

definition pending_ok :: "pending_ops \<Rightarrow> bool" where
  "pending_ok s \<longleftrightarrow> (\<forall>i. length (po_chan s i) \<le> 1 \<and> (i \<in> po_pending s \<longrightarrow> po_chan s i = []))"

lemma complete_ok: "pending_ok s \<Longrightarrow> pending_ok (completePendingOp i r s)"
  by (auto simp: pending_ok_def completePendingOp_def)

lemma complete_fold:
  assumes "pending_ok s" and "i \<in> po_pending s"
  shows "pending_ok (fold (\<lambda>(i, r). completePendingOp i r) acks s) \<and>
    po_chan (fold (\<lambda>(i, r). completePendingOp i r) acks s) i = (case map_of acks i of None \<Rightarrow> [] | Some r \<Rightarrow> [r]) \<and>
    (i \<in> po_pending (fold (\<lambda>(i, r). completePendingOp i r) acks s) \<longleftrightarrow> map_of acks i = None)"
proof -
  have gone: "pending_ok (fold (\<lambda>(i, r). completePendingOp i r) acks s) \<and>
      po_chan (fold (\<lambda>(i, r). completePendingOp i r) acks s) i = po_chan s i \<and>
      i \<notin> po_pending (fold (\<lambda>(i, r). completePendingOp i r) acks s)"
    if "pending_ok s" "i \<notin> po_pending s" for acks s
    using that
  proof (induction acks arbitrary: s)
    case (Cons a acks)
    obtain j r where a: "a = (j, r)" by fastforce
    have "i \<notin> po_pending (completePendingOp j r s)" "po_chan (completePendingOp j r s) i = po_chan s i"
      using Cons.prems by (auto simp: completePendingOp_def)
    then show ?case using Cons.IH [OF complete_ok [OF Cons.prems(1)], of j r] by (simp add: a)
  qed simp
  show ?thesis
    using assms
  proof (induction acks arbitrary: s)
    case Nil
    then show ?case by (simp add: pending_ok_def)
  next
    case (Cons a acks)
    obtain j r where a: "a = (j, r)" by fastforce
    let ?s = "completePendingOp j r s"
    show ?case
    proof (cases "j = i")
      case True
      then have "i \<notin> po_pending ?s" "po_chan ?s i = [r]" using Cons.prems by (simp_all add: completePendingOp_def pending_ok_def)
      then show ?thesis using gone [OF complete_ok [OF Cons.prems(1)], of j r acks] True by (simp add: a)
    next
      case False
      then have "i \<in> po_pending ?s" using Cons.prems(2) by (simp add: completePendingOp_def)
      then show ?thesis using Cons.IH [OF complete_ok [OF Cons.prems(1)], of j r] False by (simp add: a)
    qed
  qed
qed

text \<open>
  A call to a remote host returns the first acknowledgement that arrives for it, and times out
  exactly when none arrives; acknowledgements of other calls, duplicates and late ones are
  harmless: no channel ever holds a second result, so no sender blocks, and the call leaves
  nothing pending.
\<close>

theorem remote_call_returns_its_ack:
  assumes "pending_ok s" and "remote_op True sent acks s = (s', res)"
  shows "pending_ok s' \<and> po_next s + 1 \<notin> po_pending s' \<and>
    res = (if \<not> sent then Inl DispatchFailed
           else case map_of acks (po_next s + 1) of
                  None \<Rightarrow> Inl CtxExpired
                | Some r \<Rightarrow> if ho_ok r then Inr () else Inl (OpFailed (ho_error r)))"
proof -
  let ?i = "po_next s + 1"
  obtain s1 where s1: "s1 = registerPendingOp ?i (s\<lparr>po_next := ?i\<rparr>)" by simp
  have ok: "pending_ok s1" "?i \<in> po_pending s1" using assms(1) by (auto simp: s1 registerPendingOp_def pending_ok_def)
  have cancel: "pending_ok (cancelPendingOp ?i m u) \<and> ?i \<notin> po_pending (cancelPendingOp ?i m u)" if "pending_ok u" for m u
    using complete_ok [OF that] by (simp add: cancelPendingOp_def) (simp add: completePendingOp_def)
  show ?thesis
  proof (cases sent)
    case False
    then show ?thesis
      using assms(2) cancel [OF ok(1)] by (auto simp: remote_op_def allocHostOpID_def Let_def s1)
  next
    case True
    let ?u = "fold (\<lambda>(i, r). completePendingOp i r) acks s1"
    note u = complete_fold [OF ok, of acks]
    show ?thesis
    proof (cases "map_of acks ?i")
      case None
      then show ?thesis
        using assms(2) True u cancel [of ?u] by (auto simp: remote_op_def allocHostOpID_def Let_def s1 [symmetric])
    next
      case (Some r)
      then have "s' = ?u\<lparr>po_chan := (po_chan ?u)(?i := [])\<rparr>" and "res = (if ho_ok r then Inr () else Inl (OpFailed (ho_error r)))"
        using assms(2) True u by (auto simp: remote_op_def allocHostOpID_def Let_def s1 [symmetric])
      then show ?thesis using True Some u by (simp add: pending_ok_def)
    qed
  qed
qed

theorem remote_call_returns_its_ack_witness:
  "\<exists>s'. remote_op True True [(9, \<lparr>ho_ok = True, ho_error = ''''\<rparr>), (5, \<lparr>ho_ok = False, ho_error = ''unknown cell''\<rparr>), (5, \<lparr>ho_ok = True, ho_error = ''''\<rparr>)]
      \<lparr>po_next = 4, po_pending = {}, po_chan = (\<lambda>i. [])\<rparr> = (s', Inl (OpFailed ''unknown cell''))"
proof -
  let ?s = "\<lparr>po_next = 4, po_pending = {}, po_chan = (\<lambda>i. [])\<rparr>"
  let ?acks = "[(9 :: u64, \<lparr>ho_ok = True, ho_error = ''''\<rparr>), (5, \<lparr>ho_ok = False, ho_error = ''unknown cell''\<rparr>), (5, \<lparr>ho_ok = True, ho_error = ''''\<rparr>)]"
  obtain s' res where r: "remote_op True True ?acks ?s = (s', res)" by fastforce
  have "pending_ok ?s" by (simp add: pending_ok_def)
  from remote_call_returns_its_ack [OF this r] have "res = Inl (OpFailed ''unknown cell'')" by simp
  then show ?thesis using r by blast
qed

end
