(* ===== verification/Rendezvous.thy ===== *)
theory Rendezvous
  imports GoFloat
begin

text \<open>
  Rendezvous hashing of cells to hosts (\<open>pkg/universe/rendezvous.go\<close>). The digest
  (\<open>crypto/sha256\<close>) is an argument: nothing below depends on which function it is. The maps the
  assignment functions return are maps; locality callbacks are functions, \<open>None\<close> when the Go
  callback is nil.
\<close>

section \<open>Scores\<close>

definition bytes :: "string \<Rightarrow> u8 list" where
  "bytes s = map of_char s"

definition be_u64 :: "u8 list \<Rightarrow> u64" where
  "be_u64 bs = foldl (\<lambda>a b. a * 256 + ucast b) 0 bs"

definition hrwScore :: "(u8 list \<Rightarrow> u8 list) \<Rightarrow> string \<Rightarrow> string \<Rightarrow> u64" where
  "hrwScore sha cellID hostID = be_u64 (take 8 (sha (bytes hostID @ [0] @ bytes cellID)))"

text \<open>
  The two scanning loops: a candidate replaces the best one when there is none yet (the empty
  name) or when its score is strictly greater.
\<close>

definition better :: "(string \<Rightarrow> 'a :: linorder) \<Rightarrow> string \<Rightarrow> string \<times> 'a \<Rightarrow> string \<times> 'a" where
  "better score h best = (if fst best = '''' \<or> score h > snd best then (h, score h) else best)"

definition pick_best :: "(string \<Rightarrow> 'a :: {linorder, zero}) \<Rightarrow> string list \<Rightarrow> string" where
  "pick_best score hosts = fst (fold (better score) hosts ('''', 0))"

definition AssignCellToHost :: "(u8 list \<Rightarrow> u8 list) \<Rightarrow> string \<Rightarrow> string list \<Rightarrow> string" where
  "AssignCellToHost sha cellID hosts = (if hosts = [] then '''' else pick_best (hrwScore sha cellID) hosts)"

definition AssignCellsAcrossHosts :: "(u8 list \<Rightarrow> u8 list) \<Rightarrow> string list \<Rightarrow> string list \<Rightarrow> (string \<rightharpoonup> string)" where
  "AssignCellsAcrossHosts sha cellIDs hostIDs = fold (\<lambda>c out. out(c \<mapsto> AssignCellToHost sha c hostIDs)) cellIDs Map.empty"

definition localityBonus :: rat where
  "localityBonus = f64 (15 / 100)"

text \<open>The hosts that own a neighbour of the cell.\<close>

definition bonus_hosts :: "string \<Rightarrow> (string \<Rightarrow> string list) \<Rightarrow> (string \<Rightarrow> string) \<Rightarrow> string list" where
  "bonus_hosts cellID neighborsOf cellOwner = filter (\<lambda>h. h \<noteq> '''') (map cellOwner (neighborsOf cellID))"

definition local_score :: "(u8 list \<Rightarrow> u8 list) \<Rightarrow> string \<Rightarrow> string list \<Rightarrow> string \<Rightarrow> rat" where
  "local_score sha cellID bonus h =
     (let score = f64_of_int (uint (hrwScore sha cellID h))
      in if h \<in> set bonus then f64 (score + f64_mul score localityBonus) else score)"

definition assignCellToHostWithLocality ::
  "(u8 list \<Rightarrow> u8 list) \<Rightarrow> string \<Rightarrow> string list \<Rightarrow> (string \<Rightarrow> string list) \<Rightarrow> (string \<Rightarrow> string) \<Rightarrow> string" where
  "assignCellToHostWithLocality sha cellID hosts neighborsOf cellOwner =
     (if hosts = [] then ''''
      else pick_best (local_score sha cellID (bonus_hosts cellID neighborsOf cellOwner)) hosts)"

definition AssignCellsAcrossHostsWithLocality ::
  "(u8 list \<Rightarrow> u8 list) \<Rightarrow> string list \<Rightarrow> string list \<Rightarrow> (string \<Rightarrow> string list) option \<Rightarrow> (string \<Rightarrow> string) option \<Rightarrow>
    (string \<rightharpoonup> string)" where
  "AssignCellsAcrossHostsWithLocality sha cellIDs hostIDs neighborsOf cellOwner =
     (case (neighborsOf, cellOwner) of
        (Some nf, Some ow) \<Rightarrow> fold (\<lambda>c out. out(c \<mapsto> assignCellToHostWithLocality sha c hostIDs nf ow)) cellIDs Map.empty
      | _ \<Rightarrow> AssignCellsAcrossHosts sha cellIDs hostIDs)"

section \<open>The scanning loop\<close>

text \<open>
  A chooser of a best candidate: it returns a candidate of maximal score. What follows for the
  placement of cells depends only on that.
\<close>

locale chooser =
  fixes score :: "string \<Rightarrow> 'a :: linorder" and pick :: "string list \<Rightarrow> string"
  assumes pick_in: "hosts \<noteq> [] \<Longrightarrow> '''' \<notin> set hosts \<Longrightarrow> pick hosts \<in> set hosts"
    and pick_max: "'''' \<notin> set hosts \<Longrightarrow> h \<in> set hosts \<Longrightarrow> score h \<le> score (pick hosts)"
begin

lemma pick_unique:
  assumes "'''' \<notin> set hosts" and "inj_on score (set hosts)" and "h \<in> set hosts" and "\<forall>k \<in> set hosts. score k \<le> score h"
  shows "pick hosts = h"
proof -
  have "hosts \<noteq> []" using assms(3) by auto
  then have p: "pick hosts \<in> set hosts" using assms(1) by (rule pick_in)
  then have "score (pick hosts) \<le> score h" using assms(4) by blast
  moreover have "score h \<le> score (pick hosts)" using assms(1,3) by (rule pick_max)
  ultimately show ?thesis using inj_onD [OF assms(2) _ p assms(3)] by simp
qed

lemma pick_set:
  assumes "'''' \<notin> set hosts" and "inj_on score (set hosts)" and "set hosts' = set hosts" and "hosts \<noteq> []"
  shows "pick hosts' = pick hosts"
proof -
  have "pick hosts \<in> set hosts" by (rule pick_in [OF assms(4,1)])
  then show ?thesis using pick_unique [of hosts' "pick hosts"] pick_max [OF assms(1)] assms by simp
qed

lemma pick_leave:
  assumes "'''' \<notin> set hosts" and "inj_on score (set hosts)" and "set hosts' = set hosts - {x}" and "pick hosts \<noteq> x" and "hosts \<noteq> []"
  shows "pick hosts' = pick hosts"
proof -
  have "pick hosts \<in> set hosts'" using pick_in [OF assms(5,1)] assms(3,4) by blast
  moreover have "inj_on score (set hosts')" using assms(2) unfolding assms(3) by (rule inj_on_subset) blast
  ultimately show ?thesis using pick_unique [of hosts' "pick hosts"] pick_max [OF assms(1)] assms(1,3) by blast
qed

lemma pick_join:
  assumes "'''' \<notin> set hosts'" and "inj_on score (set hosts')" and "set hosts' = insert x (set hosts)" and "hosts \<noteq> []"
  shows "pick hosts' = x \<or> pick hosts' = pick hosts"
proof (cases "pick hosts' = x \<or> x \<in> set hosts")
  case True
  moreover have "pick hosts' = pick hosts" if "x \<in> set hosts"
    using pick_set [of hosts hosts'] assms that by (simp add: insert_absorb)
  ultimately show ?thesis by blast
next
  case False
  moreover have "set hosts = set hosts' - {x}" using False assms(3) by blast
  moreover have "hosts' \<noteq> []" using assms(3) by auto
  ultimately show ?thesis using pick_leave [OF assms(1,2), of hosts x] by simp
qed

end

lemma pick_best_fold:
  assumes "'''' \<notin> set hosts" and "fst best \<noteq> '''' \<Longrightarrow> snd best = score (fst best)" and "hosts \<noteq> [] \<or> fst best \<noteq> ''''"
  shows "fst (fold (better score) hosts best) \<in> set hosts \<union> {fst best} - {''''} \<and>
    (\<forall>h \<in> set hosts \<union> {fst best} - {''''}. score h \<le> score (fst (fold (better score) hosts best)))"
  using assms
proof (induction hosts arbitrary: best)
  case (Cons h hosts)
  let ?b = "better score h best"
  have b: "fst ?b \<noteq> ''''" "snd ?b = score (fst ?b)" using Cons.prems by (auto simp: better_def)
  from Cons.IH [of ?b] b Cons.prems(1)
  have ih: "fst (fold (better score) hosts ?b) \<in> set hosts \<union> {fst ?b} - {''''}"
    "\<forall>k \<in> set hosts \<union> {fst ?b} - {''''}. score k \<le> score (fst (fold (better score) hosts ?b))" by auto
  have f: "fst ?b \<in> {h, fst best}" by (auto simp: better_def)
  have "score h \<le> score (fst ?b)" "fst best \<noteq> '''' \<Longrightarrow> score (fst best) \<le> score (fst ?b)"
    using Cons.prems(2) by (auto simp: better_def)
  moreover have "score (fst ?b) \<le> score (fst (fold (better score) hosts ?b))" using ih(2) b(1) by blast
  ultimately have "score h \<le> score (fst (fold (better score) hosts ?b))"
    "fst best \<noteq> '''' \<Longrightarrow> score (fst best) \<le> score (fst (fold (better score) hosts ?b))" by (blast intro: order_trans)+
  then show ?case using ih f by auto
qed auto

interpretation best: chooser score "pick_best score" for score :: "string \<Rightarrow> 'a :: {linorder, zero}"
proof
  show "pick_best score hosts \<in> set hosts" if "hosts \<noteq> []" "'''' \<notin> set hosts" for hosts
    using pick_best_fold [OF that(2), of "('''', 0)" score] that(1) by (auto simp: pick_best_def)
  show "score h \<le> score (pick_best score hosts)" if "'''' \<notin> set hosts" "h \<in> set hosts" for hosts h
    using pick_best_fold [OF that(1), of "('''', 0)" score] that by (cases hosts) (auto simp: pick_best_def)
qed

section \<open>Placement\<close>

text \<open>
  C33. Rendezvous hashing places a cell on a live host and moves as little as possible. With no two
  hosts of equal score: the answer does not depend on the order of the list; when a host
  leaves, a cell placed elsewhere stays where it is; when a host joins, a cell stays or moves to
  the new host.
\<close>

theorem rendezvous_is_stable:
  assumes "hosts \<noteq> []" and "'''' \<notin> set hosts" and "inj_on (hrwScore sha cell) (set hosts)"
  shows "AssignCellToHost sha cell hosts \<in> set hosts \<and>
    (\<forall>hosts'. set hosts' = set hosts \<longrightarrow> AssignCellToHost sha cell hosts' = AssignCellToHost sha cell hosts) \<and>
    (\<forall>hosts' x. set hosts' = set hosts - {x} \<longrightarrow> AssignCellToHost sha cell hosts \<noteq> x \<longrightarrow>
      AssignCellToHost sha cell hosts' = AssignCellToHost sha cell hosts) \<and>
    (\<forall>old x. set hosts = insert x (set old) \<longrightarrow> old \<noteq> [] \<longrightarrow>
      AssignCellToHost sha cell hosts \<in> {x, AssignCellToHost sha cell old})"
proof (intro conjI allI impI)
  let ?s = "hrwScore sha cell"
  have a: "AssignCellToHost sha cell hs = pick_best ?s hs" if "hs \<noteq> []" for hs using that by (simp add: AssignCellToHost_def)
  have ne: "hs \<noteq> []" if "x \<in> set hs" for hs and x :: string using that by auto
  note in_hosts = best.pick_in [OF assms(1,2), of ?s]
  show "AssignCellToHost sha cell hosts \<in> set hosts" unfolding a [OF assms(1)] by (rule in_hosts)
  show "AssignCellToHost sha cell hosts' = AssignCellToHost sha cell hosts" if "set hosts' = set hosts" for hosts'
    unfolding a [OF assms(1)] a [OF ne [OF in_hosts [folded that]]] by (rule best.pick_set [OF assms(2,3) that assms(1)])
  show "AssignCellToHost sha cell hosts' = AssignCellToHost sha cell hosts"
    if x: "set hosts' = set hosts - {x}" "AssignCellToHost sha cell hosts \<noteq> x" for hosts' x
  proof -
    have p: "pick_best ?s hosts \<noteq> x" using x(2) unfolding a [OF assms(1)] .
    then have h: "pick_best ?s hosts \<in> set hosts'" unfolding x(1) using in_hosts by blast
    show ?thesis unfolding a [OF assms(1)] a [OF ne [OF h]] by (rule best.pick_leave [OF assms(2,3) x(1) p assms(1)])
  qed
  show "AssignCellToHost sha cell hosts \<in> {x, AssignCellToHost sha cell old}" if "set hosts = insert x (set old)" "old \<noteq> []" for old x
    unfolding a [OF assms(1)] a [OF that(2)] using best.pick_join [OF assms(2,3) that] by blast
qed

definition demo_sha :: "u8 list \<Rightarrow> u8 list" where
  "demo_sha bs = replicate 7 0 @ [sum_list bs] @ replicate 24 0"

theorem rendezvous_is_stable_witness:
  "AssignCellToHost demo_sha ''c'' [''a'', ''b''] = ''b'' \<and>
   AssignCellToHost demo_sha ''c'' [''b'', ''a''] = ''b'' \<and> AssignCellToHost demo_sha ''c'' [''b''] = ''b''"
proof -
  have v: "AssignCellToHost demo_sha ''c'' [''a'', ''b''] = ''b''" by code_simp
  have "hrwScore demo_sha ''c'' ''a'' \<noteq> hrwScore demo_sha ''c'' ''b''" by code_simp
  then have i: "inj_on (hrwScore demo_sha ''c'') (set [''a'', ''b''])" by simp
  have "AssignCellToHost demo_sha ''c'' [''b'', ''a''] = AssignCellToHost demo_sha ''c'' [''a'', ''b'']"
    using rendezvous_is_stable [OF _ _ i, THEN conjunct2, THEN conjunct1, rule_format, of "[''b'', ''a'']"] by auto
  moreover have "AssignCellToHost demo_sha ''c'' [''b''] = AssignCellToHost demo_sha ''c'' [''a'', ''b'']"
    using rendezvous_is_stable [OF _ _ i, THEN conjunct2, THEN conjunct2, THEN conjunct1, rule_format, of "[''b'']" "''a''"] v by auto
  ultimately show ?thesis using v by simp
qed

lemma local_assign_in:
  "hosts \<noteq> [] \<Longrightarrow> '''' \<notin> set hosts \<Longrightarrow> assignCellToHostWithLocality sha c hosts nf ow \<in> set hosts"
  by (simp add: assignCellToHostWithLocality_def best.pick_in)

lemma locality_assigns:
  "AssignCellsAcrossHostsWithLocality sha cells hosts (Some nf) (Some ow) =
    (\<lambda>c. if c \<in> set cells then Some (assignCellToHostWithLocality sha c hosts nf ow) else None)"
proof -
  have "fold (\<lambda>c out. out(c \<mapsto> f c)) cs m = (\<lambda>c. if c \<in> set cs then Some (f c) else m c)" for f cs and m :: "string \<rightharpoonup> string"
    by (induction cs arbitrary: m) (auto simp: fun_eq_iff)
  then show ?thesis by (simp add: AssignCellsAcrossHostsWithLocality_def)
qed

end
