(* ===== verification/CellTransfer.thy ===== *)
theory CellTransfer
  imports ControlPlane Rendezvous
begin

text \<open>
  The orchestrator of cell transfers (\<open>pkg/universe/cell_transfer.go\<close>): a split, merge or migrate
  request is begun, its commands are dispatched to hosts, and it ends by commit when every
  command is acknowledged, or by rollback on a refusal or at its deadline. Its mutex makes each
  operation atomic. Closing \<open>Done\<close> is an entry of the log \<open>or_done\<close>; the goroutine that runs a
  commit is an entry of \<open>or_committing\<close> until it is taken. Abort and commit notices are recorded as
  sets, since their order is that of a map. Times are integers, the hash is a parameter, and the
  reason recorded for a timeout is abbreviated to \<open>timeout\<close>. What a commit does to the coordinator is the subject of the commit plans.
\<close>

section \<open>State\<close>

datatype transfer_kind = CellTransferUnspecified | CellTransferSplit | CellTransferMerge | CellTransferMigrate

record transfer_command =
  tc_RequestID :: u64
  tc_Kind :: transfer_kind
  tc_SrcCellID :: string
  tc_DestCellID :: string
  tc_SrcHostID :: string
  tc_DestHostID :: string
  tc_Quadrant :: u32

record topology_mutation =
  tm_add :: "string \<rightharpoonup> string"
  tm_remove :: "string list"

record transfer_request =
  rq_ID :: u64
  rq_Kind :: transfer_kind
  rq_SrcCell :: cell_id
  rq_DestCells :: "cell_id list"
  rq_commands :: "transfer_command list"
  rq_ExpectedReady :: nat
  rq_receivedOK :: "string set"
  rq_ackedCmd :: "bool list"
  rq_ackCount :: nat
  rq_Deadline :: int
  rq_mutation :: topology_mutation
  rq_adoptedUsers :: "string \<rightharpoonup> string"

datatype begin_error = ErrNoHosts | ErrUnknownCell | ErrUnknownHost | ErrNoDispatcher | ErrAlreadyOwned

record orchestrator =
  or_dispatcher :: bool
  or_timeout :: int
  or_nextID :: u64
  or_inflight :: "u64 \<rightharpoonup> transfer_request"
  or_committing :: "transfer_request list"
  or_done :: "(u64 \<times> string option) list"
  or_dispatched :: "transfer_command list"
  or_aborts :: "(u64 \<times> string) set"
  or_commits :: "(u64 \<times> string) set"
  or_commitCount :: u64

definition newCellTransferOrchestrator :: orchestrator where
  "newCellTransferOrchestrator =
     \<lparr>or_dispatcher = False, or_timeout = 10000000000, or_nextID = 0, or_inflight = Map.empty, or_committing = [],
      or_done = [], or_dispatched = [], or_aborts = {}, or_commits = {}, or_commitCount = 0\<rparr>"

definition setDispatcher :: "orchestrator \<Rightarrow> orchestrator" where
  "setDispatcher s = s\<lparr>or_dispatcher := True\<rparr>"

definition setTimeout :: "int \<Rightarrow> orchestrator \<Rightarrow> orchestrator" where
  "setTimeout d s = s\<lparr>or_timeout := d\<rparr>"

definition HasInflight :: "orchestrator \<Rightarrow> bool" where
  "HasInflight s \<longleftrightarrow> or_inflight s \<noteq> Map.empty"

section \<open>Beginning a request\<close>

definition liveHostIDs :: "go_orders \<Rightarrow> control_plane \<Rightarrow> string list" where
  "liveHostIDs o' c =
     (case cp_Registry c of
        Some r \<Rightarrow> map rh_ID (filter (\<lambda>h. rh_State h = RemoteHostRegistered \<or> rh_State h = RemoteHostLive)
                    (cellBearingHosts (o_hosts o') r))
      | None \<Rightarrow> foldl (\<lambda>ids h. if h \<in> set ids then ids else ids @ [h]) []
                  (List.map_filter (cp_CellToHost c) (o_map o' (cp_CellToHost c))))"

text \<open>The two callbacks of \<open>BeginSplit\<close>.\<close>

definition neighborsOf :: "string \<Rightarrow> string list" where
  "neighborsOf cellIDStr = (case ParseCellID cellIDStr of None \<Rightarrow> [] | Some cid \<Rightarrow> map MeshID (Neighbors cid))"

definition cellOwner :: "(string \<rightharpoonup> string) \<Rightarrow> string \<Rightarrow> string" where
  "cellOwner ownership cellIDStr = (case ownership cellIDStr of Some h \<Rightarrow> h | None \<Rightarrow> '''')"

text \<open>The fields of a request that all three kinds set alike.\<close>

definition new_request ::
  "u64 \<Rightarrow> transfer_kind \<Rightarrow> cell_id \<Rightarrow> cell_id list \<Rightarrow> transfer_command list \<Rightarrow> nat \<Rightarrow> int \<Rightarrow> topology_mutation \<Rightarrow> transfer_request" where
  "new_request reqID kind src dests cmds expected deadline mutation =
     \<lparr>rq_ID = reqID, rq_Kind = kind, rq_SrcCell = src, rq_DestCells = dests, rq_commands = cmds, rq_ExpectedReady = expected,
      rq_receivedOK = {}, rq_ackedCmd = replicate (length cmds) False, rq_ackCount = 0, rq_Deadline = deadline,
      rq_mutation = mutation, rq_adoptedUsers = Map.empty\<rparr>"

definition enqueue :: "transfer_request \<Rightarrow> orchestrator \<Rightarrow> orchestrator" where
  "enqueue req s = s\<lparr>or_nextID := or_nextID s + 1, or_inflight := (or_inflight s)(rq_ID req \<mapsto> req)\<rparr>"

definition BeginSplit ::
  "go_orders \<Rightarrow> (u8 list \<Rightarrow> u8 list) \<Rightarrow> int \<Rightarrow> cell_id \<Rightarrow> control_plane \<Rightarrow> orchestrator \<Rightarrow> orchestrator \<times> (begin_error + transfer_request)" where
  "BeginSplit o' sha now parent c s =
     (if \<not> or_dispatcher s then (s, Inl ErrNoDispatcher)
      else
        (let srcCellKey = MeshID parent;
             srcHost = HostForCellID o' srcCellKey c;
             liveIDs = liveHostIDs o' c;
             ownership = snapshotCellOwnership o' c
         in if liveIDs = [] then (s, Inl ErrNoHosts)
            else if srcHost = '''' then (s, Inl ErrUnknownCell)
            else
              (let children = Children parent;
                   childIDs = map MeshID children;
                   assignments = AssignCellsAcrossHostsWithLocality sha childIDs liveIDs (Some neighborsOf) (Some (cellOwner ownership));
                   destHost = (\<lambda>k. case assignments k of Some h \<Rightarrow> h | None \<Rightarrow> '''');
                   reqID = or_nextID s + 1;
                   cmds = map (\<lambda>(i, k). \<lparr>tc_RequestID = reqID, tc_Kind = CellTransferSplit, tc_SrcCellID = srcCellKey, tc_DestCellID = k,
                     tc_SrcHostID = srcHost, tc_DestHostID = destHost k, tc_Quadrant = of_nat i\<rparr>) (enumerate 0 childIDs);
                   add = fold (\<lambda>k m. m(k \<mapsto> destHost k)) childIDs Map.empty;
                   req = new_request reqID CellTransferSplit parent children cmds 4 (now + or_timeout s)
                     \<lparr>tm_add = add, tm_remove = [srcCellKey]\<rparr>
               in (enqueue req s, Inr req))))"

text \<open>The hosts of the siblings, up to the first sibling without one.\<close>

fun sibling_hosts :: "go_orders \<Rightarrow> control_plane \<Rightarrow> string list \<Rightarrow> string list option" where
  "sibling_hosts o' c [] = Some []"
| "sibling_hosts o' c (k # ks) =
     (let host = HostForCellID o' k c in if host = '''' then None else map_option (Cons host) (sibling_hosts o' c ks))"

definition survivor_index :: "string \<Rightarrow> string list \<Rightarrow> nat option" where
  "survivor_index h hosts = find (\<lambda>i. hosts ! i = h) [0..<4]"

definition BeginMerge ::
  "go_orders \<Rightarrow> (u8 list \<Rightarrow> u8 list) \<Rightarrow> int \<Rightarrow> cell_id \<Rightarrow> control_plane \<Rightarrow> orchestrator \<Rightarrow> orchestrator \<times> (begin_error + transfer_request)" where
  "BeginMerge o' sha now parent c s =
     (if \<not> or_dispatcher s then (s, Inl ErrNoDispatcher)
      else
        (let liveIDs = liveHostIDs o' c;
             siblings = Children parent;
             siblingKeys = map MeshID siblings
         in if liveIDs = [] then (s, Inl ErrNoHosts)
            else case sibling_hosts o' c siblingKeys of
              None \<Rightarrow> (s, Inl ErrUnknownCell)
            | Some siblingHosts \<Rightarrow>
                (let parentKey = MeshID parent;
                     survivorHost = AssignCellToHost sha parentKey liveIDs;
                     (survivorIdx, survivorHost) =
                       (case survivor_index survivorHost siblingHosts of
                          Some i \<Rightarrow> (i, survivorHost)
                        | None \<Rightarrow> (0, siblingHosts ! 0));
                     reqID = or_nextID s + 1;
                     donors = filter (\<lambda>i. i \<noteq> survivorIdx) [0..<4];
                     cmds = map (\<lambda>i. \<lparr>tc_RequestID = reqID, tc_Kind = CellTransferMerge, tc_SrcCellID = siblingKeys ! i,
                       tc_DestCellID = siblingKeys ! survivorIdx, tc_SrcHostID = siblingHosts ! i, tc_DestHostID = survivorHost,
                       tc_Quadrant = 0\<rparr>) donors;
                     req = new_request reqID CellTransferMerge parent (map (\<lambda>i. siblings ! i) donors) cmds 3 (now + or_timeout s)
                       \<lparr>tm_add = [parentKey \<mapsto> survivorHost], tm_remove = siblingKeys\<rparr>
                 in (enqueue req s, Inr req))))"

definition BeginMigrate ::
  "go_orders \<Rightarrow> int \<Rightarrow> cell_id \<Rightarrow> string \<Rightarrow> control_plane \<Rightarrow> orchestrator \<Rightarrow> orchestrator \<times> (begin_error + transfer_request)" where
  "BeginMigrate o' now cellID destHost c s =
     (if \<not> or_dispatcher s then (s, Inl ErrNoDispatcher)
      else
        (let cellKey = MeshID cellID;
             srcHost = HostForCellID o' cellKey c;
             liveIDs = liveHostIDs o' c
         in if srcHost = '''' then (s, Inl ErrUnknownCell)
            else if destHost \<notin> set liveIDs then (s, Inl ErrUnknownHost)
            else if srcHost = destHost then (s, Inl ErrAlreadyOwned)
            else
              (let reqID = or_nextID s + 1;
                   cmds = [\<lparr>tc_RequestID = reqID, tc_Kind = CellTransferMigrate, tc_SrcCellID = cellKey, tc_DestCellID = cellKey,
                     tc_SrcHostID = srcHost, tc_DestHostID = destHost, tc_Quadrant = 0\<rparr>];
                   req = new_request reqID CellTransferMigrate cellID [cellID] cmds 1 (now + or_timeout s)
                     \<lparr>tm_add = [cellKey \<mapsto> destHost], tm_remove = []\<rparr>
               in (enqueue req s, Inr req))))"

section \<open>Readies, commit and rollback\<close>

definition cellTransferRequestHosts :: "transfer_request \<Rightarrow> bool \<Rightarrow> string set" where
  "cellTransferRequestHosts req committed =
     (rq_receivedOK req \<union> tc_SrcHostID ` set (rq_commands req) \<union>
      (if committed then tc_DestHostID ` set (rq_commands req) else {})) - {''''}"

definition rollback :: "transfer_request \<Rightarrow> string \<Rightarrow> orchestrator \<Rightarrow> orchestrator" where
  "rollback req reason s =
     s\<lparr>or_inflight := (or_inflight s)(rq_ID req := None),
       or_aborts := (if or_dispatcher s then or_aborts s \<union> Pair (rq_ID req) ` cellTransferRequestHosts req False else or_aborts s),
       or_done := or_done s @ [(rq_ID req, Some reason)]\<rparr>"

text \<open>The first command not yet acknowledged that the reply matches.\<close>

definition matched_command :: "string \<Rightarrow> string \<Rightarrow> transfer_request \<Rightarrow> nat option" where
  "matched_command hostID destCellID req =
     find (\<lambda>i. \<not> rq_ackedCmd req ! i \<and> tc_DestHostID (rq_commands req ! i) = hostID \<and> tc_DestCellID (rq_commands req ! i) = destCellID)
       [0..<length (rq_commands req)]"

definition acked :: "nat \<Rightarrow> string \<Rightarrow> string \<Rightarrow> string list \<Rightarrow> transfer_request \<Rightarrow> transfer_request" where
  "acked i hostID destCellID users req =
     req\<lparr>rq_ackedCmd := (rq_ackedCmd req)[i := True], rq_ackCount := rq_ackCount req + 1,
         rq_receivedOK := insert hostID (rq_receivedOK req),
         rq_adoptedUsers := fold (\<lambda>u m. m(u \<mapsto> destCellID)) users (rq_adoptedUsers req)\<rparr>"

definition OnReady :: "u64 \<Rightarrow> string \<Rightarrow> string \<Rightarrow> bool \<Rightarrow> string \<Rightarrow> string list \<Rightarrow> orchestrator \<Rightarrow> orchestrator" where
  "OnReady requestID destCellID hostID ok errMsg adoptedUsers s =
     (case or_inflight s requestID of
        None \<Rightarrow> s
      | Some req \<Rightarrow>
          if \<not> ok then
            rollback req (''host '' @ hostID @ '' rejected: '' @ errMsg) (s\<lparr>or_inflight := (or_inflight s)(requestID := None)\<rparr>)
          else
            (case matched_command hostID destCellID req of
               None \<Rightarrow> s
             | Some i \<Rightarrow>
                 (let req = acked i hostID destCellID adoptedUsers req
                  in if rq_ackCount req < rq_ExpectedReady req then s\<lparr>or_inflight := (or_inflight s)(requestID \<mapsto> req)\<rparr>
                     else s\<lparr>or_inflight := (or_inflight s)(requestID := None), or_committing := or_committing s @ [req]\<rparr>)))"

text \<open>
  \<open>dispatchAll\<close>: \<open>results\<close> lists the outcomes of the concurrent dispatches in order of arrival, an
  error message or none.
\<close>

definition dispatchAll :: "transfer_request \<Rightarrow> (transfer_command \<times> string option) list \<Rightarrow> orchestrator \<Rightarrow> orchestrator" where
  "dispatchAll req results s =
     fold (\<lambda>(cmd, err) s. case err of None \<Rightarrow> s | Some e \<Rightarrow> OnReady (rq_ID req) (tc_DestCellID cmd) (tc_DestHostID cmd) False e [] s)
       results (s\<lparr>or_dispatched := or_dispatched s @ map fst results\<rparr>)"

text \<open>The goroutine of a commit, once \<open>applyCellTransferCommit\<close> has run: notices, the counter, \<open>Done\<close>.\<close>

definition finish_commit :: "transfer_request \<Rightarrow> orchestrator \<Rightarrow> orchestrator" where
  "finish_commit req s =
     s\<lparr>or_committing := remove1 req (or_committing s),
       or_commits := (if or_dispatcher s then or_commits s \<union> Pair (rq_ID req) ` cellTransferRequestHosts req True else or_commits s),
       or_commitCount := or_commitCount s + 1,
       or_done := or_done s @ [(rq_ID req, None)]\<rparr>"

text \<open>One scan for expired requests; \<open>keys\<close> is the visiting order.\<close>

definition scanTimeouts :: "u64 list \<Rightarrow> int \<Rightarrow> orchestrator \<Rightarrow> orchestrator" where
  "scanTimeouts keys now s =
     (let expired = List.map_filter (\<lambda>i. case or_inflight s i of
             None \<Rightarrow> None | Some req \<Rightarrow> if now > rq_Deadline req then Some (i, req) else None) keys;
          s = s\<lparr>or_inflight := fold (\<lambda>(i, req) m. m(i := None)) expired (or_inflight s)\<rparr>
      in fold (\<lambda>(i, req) s. rollback req ''timeout'' s) expired s)"

section \<open>Invariant\<close>

definition request_ok :: "transfer_request \<Rightarrow> bool" where
  "request_ok req \<longleftrightarrow> length (rq_ackedCmd req) = length (rq_commands req) \<and> rq_ExpectedReady req = length (rq_commands req) \<and>
     rq_ackCount req = length (filter id (rq_ackedCmd req)) \<and>
     (\<forall>i < length (rq_commands req). rq_ackedCmd req ! i \<longrightarrow> tc_DestHostID (rq_commands req ! i) \<in> rq_receivedOK req)"

text \<open>
  Requests begun so far are numbered from 1 to \<open>nextID\<close>; each is in flight, committing or done, in
  exactly one of these, and done at most once. Notices go out only for requests that ended the
  corresponding way.
\<close>

definition orch_ok :: "orchestrator \<Rightarrow> bool" where
  "orch_ok s \<longleftrightarrow>
     (\<forall>i req. or_inflight s i = Some req \<longrightarrow> rq_ID req = i \<and> request_ok req \<and> rq_ackCount req < rq_ExpectedReady req) \<and>
     (\<forall>req \<in> set (or_committing s). request_ok req \<and> rq_ackCount req = rq_ExpectedReady req) \<and>
     distinct (map fst (or_done s) @ map rq_ID (or_committing s)) \<and>
     dom (or_inflight s) \<inter> (fst ` set (or_done s) \<union> rq_ID ` set (or_committing s)) = {} \<and>
     dom (or_inflight s) \<union> fst ` set (or_done s) \<union> rq_ID ` set (or_committing s) = {i. 0 < i \<and> i \<le> or_nextID s} \<and>
     (\<forall>i h. (i, h) \<in> or_aborts s \<longrightarrow> (\<exists>r. (i, Some r) \<in> set (or_done s))) \<and>
     (\<forall>i h. (i, h) \<in> or_commits s \<longrightarrow> (i, None) \<in> set (or_done s))"

lemma orch_okD:
  assumes "orch_ok s"
  shows "or_inflight s i = Some req \<Longrightarrow> rq_ID req = i \<and> request_ok req \<and> rq_ackCount req < rq_ExpectedReady req"
    and "req \<in> set (or_committing s) \<Longrightarrow> request_ok req \<and> rq_ackCount req = rq_ExpectedReady req"
    and "distinct (map fst (or_done s))" and "distinct (map rq_ID (or_committing s))"
    and "fst ` set (or_done s) \<inter> rq_ID ` set (or_committing s) = {}"
    and "dom (or_inflight s) \<inter> (fst ` set (or_done s) \<union> rq_ID ` set (or_committing s)) = {}"
    and "dom (or_inflight s) \<union> fst ` set (or_done s) \<union> rq_ID ` set (or_committing s) = {i. 0 < i \<and> i \<le> or_nextID s}"
    and "(i, h) \<in> or_aborts s \<Longrightarrow> \<exists>r. (i, Some r) \<in> set (or_done s)"
    and "(i, h) \<in> or_commits s \<Longrightarrow> (i, None) \<in> set (or_done s)"
proof -
  note a = assms [unfolded orch_ok_def distinct_append set_map]
  note b = a [THEN conjunct2] and c = a [THEN conjunct2, THEN conjunct2]
  note e = c [THEN conjunct1] and f = c [THEN conjunct2, THEN conjunct2, THEN conjunct2]
  show "or_inflight s i = Some req \<Longrightarrow> rq_ID req = i \<and> request_ok req \<and> rq_ackCount req < rq_ExpectedReady req"
    using a [THEN conjunct1] by blast
  show "req \<in> set (or_committing s) \<Longrightarrow> request_ok req \<and> rq_ackCount req = rq_ExpectedReady req"
    using b [THEN conjunct1] by blast
  show "distinct (map fst (or_done s))" "distinct (map rq_ID (or_committing s))"
    "fst ` set (or_done s) \<inter> rq_ID ` set (or_committing s) = {}"
    by (rule e [THEN conjunct1], rule e [THEN conjunct2, THEN conjunct1], rule e [THEN conjunct2, THEN conjunct2])
  show "dom (or_inflight s) \<inter> (fst ` set (or_done s) \<union> rq_ID ` set (or_committing s)) = {}"
    by (rule c [THEN conjunct2, THEN conjunct1])
  show "dom (or_inflight s) \<union> fst ` set (or_done s) \<union> rq_ID ` set (or_committing s) = {i. 0 < i \<and> i \<le> or_nextID s}"
    by (rule c [THEN conjunct2, THEN conjunct2, THEN conjunct1])
  show "(i, h) \<in> or_aborts s \<Longrightarrow> \<exists>r. (i, Some r) \<in> set (or_done s)" using f [THEN conjunct1] by blast
  show "(i, h) \<in> or_commits s \<Longrightarrow> (i, None) \<in> set (or_done s)" using f [THEN conjunct2] by blast
qed

lemma orch_okI:
  assumes "\<And>i req. or_inflight s i = Some req \<Longrightarrow> rq_ID req = i \<and> request_ok req \<and> rq_ackCount req < rq_ExpectedReady req"
    and "\<And>req. req \<in> set (or_committing s) \<Longrightarrow> request_ok req \<and> rq_ackCount req = rq_ExpectedReady req"
    and "distinct (map fst (or_done s))" and "distinct (map rq_ID (or_committing s))"
    and "fst ` set (or_done s) \<inter> rq_ID ` set (or_committing s) = {}"
    and "dom (or_inflight s) \<inter> (fst ` set (or_done s) \<union> rq_ID ` set (or_committing s)) = {}"
    and "dom (or_inflight s) \<union> fst ` set (or_done s) \<union> rq_ID ` set (or_committing s) = {i. 0 < i \<and> i \<le> or_nextID s}"
    and "\<And>i h. (i, h) \<in> or_aborts s \<Longrightarrow> \<exists>r. (i, Some r) \<in> set (or_done s)"
    and "\<And>i h. (i, h) \<in> or_commits s \<Longrightarrow> (i, None) \<in> set (or_done s)"
  shows "orch_ok s"
  unfolding orch_ok_def distinct_append set_map
  by (intro conjI, use assms(1) in blast, use assms(2) in blast, rule assms(3), rule assms(4), rule assms(5),
      rule assms(6), rule assms(7), use assms(8) in blast, use assms(9) in blast)

subsection \<open>Beginning\<close>

lemma new_request_ok:
  assumes "length cmds = n" and "0 < n"
  shows "request_ok (new_request i k p ds cmds n d m)" and "rq_ackCount (new_request i k p ds cmds n d m) < rq_ExpectedReady (new_request i k p ds cmds n d m)"
    and "rq_ID (new_request i k p ds cmds n d m) = i"
  using assms by (simp_all add: request_ok_def new_request_def)

lemma length_Children: "length (Children c) = 4"
  by (simp add: Children_def Let_def)

lemma find_in: "find P xs = Some x \<Longrightarrow> x \<in> set xs \<and> P x"
  by (auto simp: find_Some_iff)

lemma length_donors: "i < 4 \<Longrightarrow> length (filter (\<lambda>j. j \<noteq> i) [0..<4]) = 3"
proof -
  assume "i < (4 :: nat)"
  then consider "i = 0" | "i = 1" | "i = 2" | "i = 3" by linarith
  then show ?thesis by cases (simp_all add: upt_rec)
qed

lemma length_donors_0 [simp]: "length (filter ((<) (0 :: nat)) [0..<4]) = 3"
  by (simp add: upt_rec)

text \<open>What the three ways of beginning have in common.\<close>

definition begun :: "orchestrator \<Rightarrow> orchestrator \<Rightarrow> transfer_request \<Rightarrow> bool" where
  "begun s s' req \<longleftrightarrow> s' = enqueue req s \<and> rq_ID req = or_nextID s + 1 \<and> request_ok req \<and> rq_ackCount req < rq_ExpectedReady req"

lemma BeginSplit_begun: "BeginSplit o' sha now p c s = (s', Inr req) \<Longrightarrow> begun s s' req"
  by (auto simp: BeginSplit_def Let_def begun_def new_request_ok length_Children length_enumerate split: if_splits)

lemma BeginMigrate_begun: "BeginMigrate o' now p h c s = (s', Inr req) \<Longrightarrow> begun s s' req"
  by (auto simp: BeginMigrate_def Let_def begun_def new_request_ok split: if_splits)

lemma BeginMerge_begun: "BeginMerge o' sha now p c s = (s', Inr req) \<Longrightarrow> begun s s' req"
  by (auto simp: BeginMerge_def Let_def begun_def new_request_ok length_donors survivor_index_def dest: find_in split: if_splits option.splits)

lemma begun_ok:
  assumes "orch_ok s" and "begun s s' req" and "or_nextID s + 1 \<noteq> 0"
  shows "orch_ok s'"
proof -
  let ?i = "or_nextID s + 1"
  have lt: "or_nextID s < ?i" by (rule word_less_inc [OF assms(3)])
  have s': "or_inflight s' = (or_inflight s)(?i \<mapsto> req)" "or_nextID s' = ?i" "or_done s' = or_done s" "or_committing s' = or_committing s"
    "or_aborts s' = or_aborts s" "or_commits s' = or_commits s" and req: "rq_ID req = ?i" "request_ok req" "rq_ackCount req < rq_ExpectedReady req"
    using assms(2) by (auto simp: begun_def enqueue_def)
  note d = orch_okD [OF assms(1)]
  have fresh: "?i \<notin> dom (or_inflight s) \<union> fst ` set (or_done s) \<union> rq_ID ` set (or_committing s)"
    unfolding d(7) using lt by (auto simp: not_le)
  have u: "unat ?i = Suc (unat (or_nextID s))" using unatSuc [of "or_nextID s"] assms(3) by (simp add: add.commute)
  have "i \<le> ?i \<longleftrightarrow> i = ?i \<or> i \<le> or_nextID s" for i
    unfolding word_le_nat_alt word_unat_eq_iff u by (auto simp: le_Suc_eq)
  moreover have "0 < ?i" using assms(3) by (simp add: word_neq_0_conv)
  ultimately have grow: "{i. 0 < i \<and> i \<le> ?i} = insert ?i {i. 0 < i \<and> i \<le> or_nextID s}" by blast
  show ?thesis
  proof (rule orch_okI, unfold s')
    fix i r assume "((or_inflight s)(?i \<mapsto> req)) i = Some r"
    then show "rq_ID r = i \<and> request_ok r \<and> rq_ackCount r < rq_ExpectedReady r" using d(1) [of i r] req by (simp split: if_splits)
  next
    show "dom ((or_inflight s)(?i \<mapsto> req)) \<inter> (fst ` set (or_done s) \<union> rq_ID ` set (or_committing s)) = {}"
      using d(6) fresh by simp
    show "dom ((or_inflight s)(?i \<mapsto> req)) \<union> fst ` set (or_done s) \<union> rq_ID ` set (or_committing s) = {i. 0 < i \<and> i \<le> ?i}"
      unfolding grow d(7) [symmetric] by simp
  qed (fact d(2) d(3) d(4) d(5) d(8) d(9))+
qed

subsection \<open>Ending\<close>

text \<open>A request that leaves the in-flight table with an outcome.\<close>

lemma rollback_ok:
  assumes "orch_ok s" and "or_inflight s i = Some req"
  shows "orch_ok (rollback req why s)"
proof -
  note d = orch_okD [OF assms(1)]
  have i: "rq_ID req = i" using d(1) [OF assms(2)] by simp
  have new: "i \<notin> fst ` set (or_done s)" "i \<notin> rq_ID ` set (or_committing s)" using d(6) assms(2) by blast+
  show ?thesis
  proof (rule orch_okI)
    let ?s = "rollback req why s"
    show "dom (or_inflight ?s) \<union> fst ` set (or_done ?s) \<union> rq_ID ` set (or_committing ?s) = {i. 0 < i \<and> i \<le> or_nextID ?s}"
      using d(7) assms(2) by (auto simp: rollback_def i)
    show "\<exists>r. (j, Some r) \<in> set (or_done ?s)" if "(j, h) \<in> or_aborts ?s" for j h
      using that d(8) [of j h] by (auto simp: rollback_def i split: if_splits)
  qed (use d new in \<open>auto simp: rollback_def i split: if_splits\<close>)
qed

lemma rollback_again: "rq_ID req = i \<Longrightarrow> rollback req why (s\<lparr>or_inflight := (or_inflight s)(i := None)\<rparr>) = rollback req why s"
  by (simp add: rollback_def)

lemma count_ack: "i < length xs \<Longrightarrow> \<not> xs ! i \<Longrightarrow> length (filter id (xs[i := True])) = Suc (length (filter id xs))"
proof (induction xs arbitrary: i)
  case (Cons x xs)
  then show ?case by (cases i) auto
qed simp

lemma matchedD:
  assumes "matched_command h c req = Some i"
  shows "i < length (rq_commands req)" and "\<not> rq_ackedCmd req ! i" and "tc_DestHostID (rq_commands req ! i) = h"
  using find_in [OF assms [unfolded matched_command_def]] by simp_all

lemma acked_ok:
  assumes "request_ok req" and "matched_command h c req = Some i"
  shows "request_ok (acked i h c us req)" and "rq_ackCount (acked i h c us req) = rq_ackCount req + 1"
    and "rq_ID (acked i h c us req) = rq_ID req" and "rq_ExpectedReady (acked i h c us req) = rq_ExpectedReady req"
proof -
  note m = matchedD [OF assms(2)]
  have "length (filter id ((rq_ackedCmd req)[i := True])) = Suc (length (filter id (rq_ackedCmd req)))"
    using m(1,2) assms(1) by (intro count_ack) (simp_all add: request_ok_def)
  moreover have "i < length (rq_ackedCmd req)" using m(1) assms(1) by (simp add: request_ok_def)
  ultimately show "request_ok (acked i h c us req)"
    using assms(1) m(3) by (auto simp: request_ok_def acked_def nth_list_update split: if_splits)
  show "rq_ackCount (acked i h c us req) = rq_ackCount req + 1" "rq_ID (acked i h c us req) = rq_ID req"
    "rq_ExpectedReady (acked i h c us req) = rq_ExpectedReady req" by (simp_all add: acked_def)
qed

lemma OnReady_ok:
  assumes "orch_ok s"
  shows "orch_ok (OnReady i c h ok err us s)"
proof (cases "or_inflight s i")
  case None
  then show ?thesis using assms by (simp add: OnReady_def)
next
  case (Some req)
  note d = orch_okD [OF assms]
  have req: "rq_ID req = i" "request_ok req" "rq_ackCount req < rq_ExpectedReady req" using d(1) [OF Some] by simp_all
  have new: "i \<notin> fst ` set (or_done s)" "i \<notin> rq_ID ` set (or_committing s)" using d(6) Some by blast+
  show ?thesis
  proof (cases "ok \<and> matched_command h c req \<noteq> None")
    case False
    then show ?thesis using Some assms rollback_ok [OF assms Some] rollback_again [OF req(1)] by (auto simp: OnReady_def)
  next
    case True
    then obtain k where k: "matched_command h c req = Some k" by blast
    let ?r = "acked k h c us req"
    note a = acked_ok [OF req(2) k, of us]
    show ?thesis
    proof (cases "rq_ackCount ?r < rq_ExpectedReady ?r")
      case less: True
      then have s': "OnReady i c h ok err us s = s\<lparr>or_inflight := (or_inflight s)(i \<mapsto> ?r)\<rparr>" using True k Some by (simp add: OnReady_def Let_def)
      have dom: "dom ((or_inflight s)(i \<mapsto> ?r)) = dom (or_inflight s)" using Some by auto
      have f: "or_inflight (s\<lparr>or_inflight := m\<rparr>) = m" "or_done (s\<lparr>or_inflight := m\<rparr>) = or_done s" "or_committing (s\<lparr>or_inflight := m\<rparr>) = or_committing s"
        "or_nextID (s\<lparr>or_inflight := m\<rparr>) = or_nextID s" "or_aborts (s\<lparr>or_inflight := m\<rparr>) = or_aborts s" "or_commits (s\<lparr>or_inflight := m\<rparr>) = or_commits s" for m
        by simp_all
      show ?thesis unfolding s'
      proof (rule orch_okI, unfold f dom)
        fix j r assume "((or_inflight s)(i \<mapsto> ?r)) j = Some r"
        then show "rq_ID r = j \<and> request_ok r \<and> rq_ackCount r < rq_ExpectedReady r" using d(1) [of j r] req a less by (auto split: if_splits)
      qed (fact d(2) d(3) d(4) d(5) d(6) d(7) d(8) d(9))+
    next
      case False
      then have s': "OnReady i c h ok err us s = s\<lparr>or_inflight := (or_inflight s)(i := None), or_committing := or_committing s @ [?r]\<rparr>"
        using True k Some by (simp add: OnReady_def Let_def)
      have full: "rq_ackCount ?r = rq_ExpectedReady ?r" using False a(2,4) req(3) by simp
      let ?s = "s\<lparr>or_inflight := (or_inflight s)(i := None), or_committing := or_committing s @ [?r]\<rparr>"
      have f: "or_inflight ?s = (or_inflight s)(i := None)" "or_done ?s = or_done s" "or_committing ?s = or_committing s @ [?r]"
        "or_nextID ?s = or_nextID s" "or_aborts ?s = or_aborts s" "or_commits ?s = or_commits s" by simp_all
      show ?thesis unfolding s'
      proof (rule orch_okI, unfold f)
        fix j r assume "((or_inflight s)(i := None)) j = Some r"
        then show "rq_ID r = j \<and> request_ok r \<and> rq_ackCount r < rq_ExpectedReady r" using d(1) [of j r] by (simp split: if_splits)
      next
        fix r assume "r \<in> set (or_committing s @ [?r])"
        then show "request_ok r \<and> rq_ackCount r = rq_ExpectedReady r" using d(2) [of r] a(1) full by auto
      next
        show "distinct (map rq_ID (or_committing s @ [?r]))" using d(4) new(2) a(3) req(1) by simp
        show "fst ` set (or_done s) \<inter> rq_ID ` set (or_committing s @ [?r]) = {}" using d(5) new(1) a(3) req(1) by simp
        show "dom ((or_inflight s)(i := None)) \<inter> (fst ` set (or_done s) \<union> rq_ID ` set (or_committing s @ [?r])) = {}"
          using d(6) a(3) req(1) by auto
        show "dom ((or_inflight s)(i := None)) \<union> fst ` set (or_done s) \<union> rq_ID ` set (or_committing s @ [?r]) = {i. 0 < i \<and> i \<le> or_nextID s}"
          unfolding d(7) [symmetric] using Some a(3) req(1) by auto
      qed (fact d(3) d(8) d(9))+
    qed
  qed
qed

lemma dispatchAll_ok: "orch_ok s \<Longrightarrow> orch_ok (dispatchAll req results s)"
proof -
  assume s: "orch_ok s"
  have "orch_ok (s\<lparr>or_dispatched := ds\<rparr>)" for ds
    using s by (simp add: orch_ok_def)
  moreover have "orch_ok (fold (\<lambda>(cmd, err) s. case err of None \<Rightarrow> s | Some e \<Rightarrow> OnReady (rq_ID req) (tc_DestCellID cmd) (tc_DestHostID cmd) False e [] s) rs u)"
    if "orch_ok u" for rs :: "(transfer_command \<times> string option) list" and u
    using that by (induction rs arbitrary: u) (auto simp: OnReady_ok split: option.splits)
  ultimately show ?thesis by (simp add: dispatchAll_def)
qed

lemma finish_commit_ok:
  assumes "orch_ok s" and "req \<in> set (or_committing s)"
  shows "orch_ok (finish_commit req s)"
proof -
  note d = orch_okD [OF assms(1)]
  have new: "rq_ID req \<notin> fst ` set (or_done s)" "rq_ID req \<notin> dom (or_inflight s)" using d(5,6) assms(2) by blast+
  have dc: "distinct (or_committing s)" using d(4) by (simp add: distinct_map)
  have inj: "inj_on rq_ID (set (or_committing s))" using d(4) by (simp add: distinct_map)
  have rest: "rq_ID ` set (remove1 req (or_committing s)) = rq_ID ` set (or_committing s) - {rq_ID req}"
    unfolding set_remove1_eq [OF dc] using inj_on_image_set_diff [OF inj _ _, of "set (or_committing s)" "{req}"] assms(2) by auto
  let ?s = "finish_commit req s"
  have f: "or_inflight ?s = or_inflight s" "or_done ?s = or_done s @ [(rq_ID req, None)]" "or_committing ?s = remove1 req (or_committing s)"
    "or_nextID ?s = or_nextID s" "or_aborts ?s = or_aborts s" by (simp_all add: finish_commit_def)
  show ?thesis
  proof (rule orch_okI, unfold f)
    show "request_ok r \<and> rq_ackCount r = rq_ExpectedReady r" if "r \<in> set (remove1 req (or_committing s))" for r
      using d(2) [of r] that set_remove1_subset [of req "or_committing s"] by blast
    show "distinct (map fst (or_done s @ [(rq_ID req, None)]))" using d(3) new(1) by simp
    show "distinct (map rq_ID (remove1 req (or_committing s)))"
      unfolding distinct_map using dc inj by (auto simp: distinct_remove1 inj_on_def dest: notin_set_remove1)
    show "fst ` set (or_done s @ [(rq_ID req, None)]) \<inter> rq_ID ` set (remove1 req (or_committing s)) = {}" unfolding rest using d(5) by auto
    show "dom (or_inflight s) \<inter> (fst ` set (or_done s @ [(rq_ID req, None)]) \<union> rq_ID ` set (remove1 req (or_committing s))) = {}"
      unfolding rest using d(6) new(2) by auto
    show "dom (or_inflight s) \<union> fst ` set (or_done s @ [(rq_ID req, None)]) \<union> rq_ID ` set (remove1 req (or_committing s)) = {i. 0 < i \<and> i \<le> or_nextID s}"
      unfolding rest d(7) [symmetric] using assms(2) by auto
    show "\<exists>r. (i, Some r) \<in> set (or_done s @ [(rq_ID req, None)])" if "(i, h) \<in> or_aborts s" for i h using d(8) [OF that] by auto
    show "(i, None) \<in> set (or_done s @ [(rq_ID req, None)])" if "(i, h) \<in> or_commits ?s" for i h
      using that d(9) [of i h] by (auto simp: finish_commit_def split: if_splits)
  qed (fact d(1))
qed

subsection \<open>Timeouts\<close>

abbreviation expire :: "u64 \<times> transfer_request \<Rightarrow> orchestrator \<Rightarrow> orchestrator" where
  "expire \<equiv> \<lambda>(i, req) s. rollback req ''timeout'' s"

abbreviation drop_req :: "u64 \<times> transfer_request \<Rightarrow> (u64 \<rightharpoonup> transfer_request) \<Rightarrow> (u64 \<rightharpoonup> transfer_request)" where
  "drop_req \<equiv> \<lambda>(i, req) m. m(i := None)"

definition expired_requests :: "u64 list \<Rightarrow> int \<Rightarrow> orchestrator \<Rightarrow> (u64 \<times> transfer_request) list" where
  "expired_requests keys now s = List.map_filter (\<lambda>i. case or_inflight s i of
     None \<Rightarrow> None | Some req \<Rightarrow> if now > rq_Deadline req then Some (i, req) else None) keys"

lemma fold_drop_req: "fold drop_req es m = (\<lambda>j. if j \<in> fst ` set es then None else m j)"
  by (induction es arbitrary: m) (auto simp: fun_eq_iff)

lemma fold_expire:
  assumes "\<forall>(i, req) \<in> set es. rq_ID req = i"
  shows "fold expire es (s\<lparr>or_inflight := m\<rparr>) = (fold expire es s)\<lparr>or_inflight := fold drop_req es m\<rparr> \<and>
    or_inflight (fold expire es s) = fold drop_req es (or_inflight s)"
  using assms
proof (induction es arbitrary: s m)
  case (Cons e es)
  obtain i req where e: "e = (i, req)" by fastforce
  have i: "rq_ID req = i" using Cons.prems e by simp
  have "rollback req ''timeout'' (s\<lparr>or_inflight := m\<rparr>) = (rollback req ''timeout'' s)\<lparr>or_inflight := m(i := None)\<rparr>"
    "or_inflight (rollback req ''timeout'' s) = (or_inflight s)(i := None)" by (simp_all add: rollback_def i)
  then show ?case using Cons.IH Cons.prems by (simp add: e fun_upd_def)
qed simp

lemma scan_spec:
  assumes "orch_ok s" and "distinct keys"
  shows "scanTimeouts keys now s = fold expire (expired_requests keys now s) s" and "orch_ok (scanTimeouts keys now s)"
    and "(i, req) \<in> set (expired_requests keys now s) \<longleftrightarrow> i \<in> set keys \<and> or_inflight s i = Some req \<and> rq_Deadline req < now"
proof -
  let ?es = "expired_requests keys now s"
  show in_es: "(i, req) \<in> set ?es \<longleftrightarrow> i \<in> set keys \<and> or_inflight s i = Some req \<and> rq_Deadline req < now" for i req
    unfolding expired_requests_def set_map_filter_iff by (auto split: option.splits if_splits)
  have ids: "\<forall>(i, req) \<in> set ?es. rq_ID req = i" using in_es orch_okD(1) [OF assms(1)] by blast
  note f = fold_expire [OF ids, THEN conjunct1] fold_expire [OF ids, THEN conjunct2]
  have "scanTimeouts keys now s = fold expire ?es (s\<lparr>or_inflight := fold drop_req ?es (or_inflight s)\<rparr>)"
    by (simp add: scanTimeouts_def Let_def expired_requests_def)
  also have "\<dots> = (fold expire ?es s)\<lparr>or_inflight := or_inflight (fold expire ?es s)\<rparr>"
    unfolding f by (simp add: fold_drop_req fun_eq_iff)
  finally show eq: "scanTimeouts keys now s = fold expire ?es s" by simp
  have "distinct (map fst ?es)"
  proof -
    have "map fst ?es = filter (\<lambda>i. case or_inflight s i of None \<Rightarrow> False | Some req \<Rightarrow> rq_Deadline req < now) keys"
      unfolding expired_requests_def by (induction keys) (auto simp: List.map_filter_simps split: option.splits)
    then show ?thesis using assms(2) by simp
  qed
  moreover have "orch_ok (fold expire es u)" if "orch_ok u" "distinct (map fst es)" "\<forall>(i, req) \<in> set es. or_inflight u i = Some req" for es u
    using that
  proof (induction es arbitrary: u)
    case (Cons e es)
    obtain i req where e: "e = (i, req)" by fastforce
    have i: "or_inflight u i = Some req" using Cons.prems(3) e by simp
    have "rq_ID req = i" using orch_okD(1) [OF Cons.prems(1) i] by simp
    then have "or_inflight (rollback req ''timeout'' u) j = (if j = i then None else or_inflight u j)" for j by (simp add: rollback_def)
    then have "\<forall>(j, r) \<in> set es. or_inflight (rollback req ''timeout'' u) j = Some r"
      using Cons.prems(2,3) e by (force simp: image_iff)
    then show ?case using Cons.IH [OF rollback_ok [OF Cons.prems(1) i]] Cons.prems(2) e by simp
  qed simp
  ultimately show "orch_ok (scanTimeouts keys now s)" unfolding eq using assms(1) in_es by blast
qed

section \<open>Runs\<close>

text \<open>
  Any interleaving of requests, replies from hosts (truthful or not, duplicated, late or stray),
  commits and timeout scans. The premise of the first three says that the counter does not wrap.
\<close>

inductive transfer_step :: "orchestrator \<Rightarrow> orchestrator \<Rightarrow> bool" where
  split: "or_nextID s + 1 \<noteq> 0 \<Longrightarrow> BeginSplit o' sha now p c s = (s', r) \<Longrightarrow> transfer_step s s'"
| merge: "or_nextID s + 1 \<noteq> 0 \<Longrightarrow> BeginMerge o' sha now p c s = (s', r) \<Longrightarrow> transfer_step s s'"
| migrate: "or_nextID s + 1 \<noteq> 0 \<Longrightarrow> BeginMigrate o' now p h c s = (s', r) \<Longrightarrow> transfer_step s s'"
| dispatch: "transfer_step s (dispatchAll req results s)"
| ready: "transfer_step s (OnReady i c h ok err us s)"
| commit: "req \<in> set (or_committing s) \<Longrightarrow> transfer_step s (finish_commit req s)"
| scan: "distinct keys \<Longrightarrow> transfer_step s (scanTimeouts keys now s)"
| configure: "transfer_step s (setDispatcher s)"
| timeout: "transfer_step s (setTimeout d s)"

definition transfer_reachable :: "orchestrator \<Rightarrow> bool" where
  "transfer_reachable s \<longleftrightarrow> transfer_step\<^sup>*\<^sup>* newCellTransferOrchestrator s"

lemma begin_error_unchanged:
  "BeginSplit o' sha now p c s = (s', Inl e) \<Longrightarrow> s' = s" "BeginMerge o' sha now p c s = (s', Inl e) \<Longrightarrow> s' = s"
  "BeginMigrate o' now p h c s = (s', Inl e) \<Longrightarrow> s' = s"
  by (auto simp: BeginSplit_def BeginMerge_def BeginMigrate_def Let_def split: if_splits option.splits prod.splits)

lemma transfer_step_ok: "transfer_step s s' \<Longrightarrow> orch_ok s \<Longrightarrow> orch_ok s'"
proof (induction rule: transfer_step.induct)
  case (split s o' sha now p c s' r)
  then show ?case using begun_ok [OF _ BeginSplit_begun] begin_error_unchanged(1) by (cases r) blast+
next
  case (merge s o' sha now p c s' r)
  then show ?case using begun_ok [OF _ BeginMerge_begun] begin_error_unchanged(2) by (cases r) blast+
next
  case (migrate s o' now p h c s' r)
  then show ?case using begun_ok [OF _ BeginMigrate_begun] begin_error_unchanged(3) by (cases r) blast+
next
  case (configure s)
  then show ?case by (simp add: setDispatcher_def orch_ok_def)
next
  case (timeout s d)
  then show ?case by (simp add: setTimeout_def orch_ok_def)
qed (simp_all add: dispatchAll_ok OnReady_ok finish_commit_ok scan_spec(2))

lemma reachable_ok: "transfer_reachable s \<Longrightarrow> orch_ok s"
  unfolding transfer_reachable_def
proof (induction rule: rtranclp_induct)
  case base
  have "{i :: u64. 0 < i \<and> i \<le> 0} = {}" by auto
  then show ?case by (simp add: orch_ok_def newCellTransferOrchestrator_def)
next
  case (step y z)
  then show ?case using transfer_step_ok by blast
qed

text \<open>
  C34. Every transfer request ends at most once and one way. In every reachable state the requests
  begun so far are split, without overlap, into those in flight, those committing and those done;
  no \<open>Done\<close> channel is closed twice; and if some host was told to commit a request then no host
  was told to abort it.
\<close>

theorem transfers_end_once:
  assumes "transfer_reachable s"
  shows "distinct (map fst (or_done s)) \<and>
    (\<forall>i. 0 < i \<and> i \<le> or_nextID s \<longleftrightarrow> i \<in> dom (or_inflight s) \<or> i \<in> rq_ID ` set (or_committing s) \<or> i \<in> fst ` set (or_done s)) \<and>
    dom (or_inflight s) \<inter> rq_ID ` set (or_committing s) = {} \<and> dom (or_inflight s) \<inter> fst ` set (or_done s) = {} \<and>
    rq_ID ` set (or_committing s) \<inter> fst ` set (or_done s) = {} \<and>
    (\<forall>i h h'. (i, h) \<in> or_commits s \<longrightarrow> (i, h') \<notin> or_aborts s)"
proof (intro conjI allI impI notI)
  note d = orch_okD [OF reachable_ok [OF assms]]
  show "distinct (map fst (or_done s))" by (rule d(3))
  show "0 < i \<and> i \<le> or_nextID s \<longleftrightarrow> i \<in> dom (or_inflight s) \<or> i \<in> rq_ID ` set (or_committing s) \<or> i \<in> fst ` set (or_done s)" for i
    using d(7) by blast
  show "dom (or_inflight s) \<inter> rq_ID ` set (or_committing s) = {}" "dom (or_inflight s) \<inter> fst ` set (or_done s) = {}"
    "rq_ID ` set (or_committing s) \<inter> fst ` set (or_done s) = {}" using d(5,6) by blast+
  fix i h h' assume "(i, h) \<in> or_commits s" "(i, h') \<in> or_aborts s"
  then obtain r where "(i, None) \<in> set (or_done s)" "(i, Some r) \<in> set (or_done s)" using d(8,9) by blast
  then show False using eq_key_imp_eq_value [OF d(3)] by blast
qed

definition demo_hosts :: control_plane where
  "demo_hosts = \<lparr>cp_CellToHost = Map.empty, cp_Registry = Some (RegisterLocal ''b'' '''' [] True 1 1 demo_registry), cp_Topology = None\<rparr>"

definition demo_orders2 :: go_orders where
  "demo_orders2 = demo_orders\<lparr>o_hosts := [''a'', ''b'']\<rparr>"

definition demo_request :: transfer_request where
  "demo_request = new_request 1 CellTransferMigrate (mk_cell 0 0 0) [mk_cell 0 0 0]
     [\<lparr>tc_RequestID = 1, tc_Kind = CellTransferMigrate, tc_SrcCellID = ''cell_0_0'', tc_DestCellID = ''cell_0_0'',
       tc_SrcHostID = ''a'', tc_DestHostID = ''b'', tc_Quadrant = 0\<rparr>] 1 10000000005 \<lparr>tm_add = [''cell_0_0'' \<mapsto> ''b''], tm_remove = []\<rparr>"

definition demo_begun :: orchestrator where
  "demo_begun = enqueue demo_request (setDispatcher newCellTransferOrchestrator)"

definition demo_acked :: orchestrator where
  "demo_acked = OnReady 1 ''cell_0_0'' ''b'' True '''' [''eve''] demo_begun"

lemma demo_begin:
  "BeginMigrate demo_orders2 5 (mk_cell 0 0 0) ''b'' demo_hosts (setDispatcher newCellTransferOrchestrator) = (demo_begun, Inr demo_request)"
proof -
  have "MeshID (mk_cell 0 0 0) = ''cell_0_0''" by code_simp
  then show ?thesis
    by (simp add: BeginMigrate_def demo_begun_def demo_request_def demo_hosts_def demo_orders2_def demo_orders_def setDispatcher_def
      newCellTransferOrchestrator_def HostForCellID_def OwnerOf_def demo_registry_def RegisterLocal_def NewHostRegistry_def
      liveHostIDs_def cellBearingHosts_def List.map_filter_simps Let_def)
qed

lemma demo_reachable: "transfer_reachable demo_begun" "transfer_reachable demo_acked"
proof -
  have "transfer_reachable (setDispatcher newCellTransferOrchestrator)"
    unfolding transfer_reachable_def by (intro r_into_rtranclp transfer_step.configure)
  moreover have "transfer_step (setDispatcher newCellTransferOrchestrator) demo_begun"
    by (rule transfer_step.migrate [OF _ demo_begin]) (simp add: setDispatcher_def newCellTransferOrchestrator_def)
  ultimately show "transfer_reachable demo_begun"
    unfolding transfer_reachable_def by (rule rtranclp.rtrancl_into_rtrancl)
  then show "transfer_reachable demo_acked"
    unfolding transfer_reachable_def demo_acked_def by (rule rtranclp.rtrancl_into_rtrancl) (rule transfer_step.ready)
qed

theorem transfers_end_once_witness:
  "or_nextID demo_begun = 1 \<and> 1 \<in> dom (or_inflight demo_begun) \<and> 1 \<notin> fst ` set (or_done demo_begun)"
proof -
  have "1 \<in> dom (or_inflight demo_begun)" "or_nextID demo_begun = 1"
    by (simp_all add: demo_begun_def enqueue_def demo_request_def new_request_def setDispatcher_def newCellTransferOrchestrator_def)
  then show ?thesis using transfers_end_once [OF demo_reachable(1)] by blast
qed


lemma fold_expire_fields:
  "or_committing (fold expire es v) = or_committing v \<and> or_nextID (fold expire es v) = or_nextID v \<and>
   or_done (fold expire es v) = or_done v @ map (\<lambda>(i, req). (rq_ID req, Some ''timeout'')) es"
  by (induction es arbitrary: v) (auto simp: rollback_def)

lemma fold_commit_spec:
  assumes "orch_ok v" and "distinct cs" and "set cs \<subseteq> set (or_committing v)"
  shows "or_inflight (fold finish_commit cs v) = or_inflight v \<and> or_nextID (fold finish_commit cs v) = or_nextID v \<and>
    or_committing (fold finish_commit cs v) = fold remove1 cs (or_committing v) \<and> orch_ok (fold finish_commit cs v) \<and>
    set (or_done v) \<subseteq> set (or_done (fold finish_commit cs v))"
  using assms
proof (induction cs arbitrary: v)
  case (Cons c cs)
  let ?v = "finish_commit c v"
  have c: "orch_ok ?v" using Cons.prems finish_commit_ok by simp
  have f: "or_inflight ?v = or_inflight v" "or_nextID ?v = or_nextID v" "or_committing ?v = remove1 c (or_committing v)"
    "set (or_done v) \<subseteq> set (or_done ?v)" by (auto simp: finish_commit_def)
  have "x \<in> set (or_committing ?v)" if x: "x \<in> set cs" for x
  proof -
    have "x \<noteq> c" "x \<in> set (or_committing v)" using x Cons.prems(2,3) by auto
    then show ?thesis unfolding f(3) by simp
  qed
  then show ?case using Cons.IH [OF c] Cons.prems(2) f by auto
qed simp



text \<open>
  A split request moves the parent's region exactly once: it carries one command per child, in
  quadrant order, all with the parent as source and its current owner as source host; the
  destination of each child is a live host, the same one the ownership change records; and only
  the parent is removed.
\<close>

theorem split_request_covers_the_children:
  assumes "BeginSplit o' sha now p c s = (s', Inr req)" and "'''' \<notin> set (liveHostIDs o' c)"
  shows "map tc_DestCellID (rq_commands req) = map MeshID (Children p) \<and>
    map tc_Quadrant (rq_commands req) = [0, 1, 2, 3] \<and>
    (\<forall>cmd \<in> set (rq_commands req). tc_SrcCellID cmd = MeshID p \<and> OwnerOf o' (MeshID p) c = Some (tc_SrcHostID cmd) \<and>
      tc_DestHostID cmd \<in> set (liveHostIDs o' c) \<and> tm_add (rq_mutation req) (tc_DestCellID cmd) = Some (tc_DestHostID cmd)) \<and>
    dom (tm_add (rq_mutation req)) = set (map MeshID (Children p)) \<and> tm_remove (rq_mutation req) = [MeshID p]"
proof -
  let ?live = "liveHostIDs o' c" and ?own = "cellOwner (snapshotCellOwnership o' c)" and ?ids = "map MeshID (Children p)"
  let ?dest = "\<lambda>k. assignCellToHostWithLocality sha k ?live neighborsOf ?own"
  let ?host = "\<lambda>k. case if k \<in> set ?ids then Some (?dest k) else None of None \<Rightarrow> '''' | Some h \<Rightarrow> h"
  have live: "?live \<noteq> []" and src: "HostForCellID o' (MeshID p) c \<noteq> ''''" and
    cmds: "rq_commands req = map (\<lambda>(i, k). \<lparr>tc_RequestID = or_nextID s + 1, tc_Kind = CellTransferSplit, tc_SrcCellID = MeshID p, tc_DestCellID = k,
      tc_SrcHostID = HostForCellID o' (MeshID p) c, tc_DestHostID = ?host k, tc_Quadrant = of_nat i\<rparr>) (enumerate 0 ?ids)"
    and rem: "tm_remove (rq_mutation req) = [MeshID p]"
    and add: "tm_add (rq_mutation req) = fold (\<lambda>k m. m(k \<mapsto> ?host k)) ?ids Map.empty"
    using assms(1) by (auto simp: BeginSplit_def Let_def new_request_def locality_assigns split: if_splits)
  have "fold (\<lambda>k m. m(k \<mapsto> f k)) ks m = (\<lambda>j. if j \<in> set ks then Some (f j) else m j)" for f ks and m :: "string \<rightharpoonup> string"
    by (induction ks arbitrary: m) (auto simp: fun_eq_iff)
  then have add: "tm_add (rq_mutation req) = (\<lambda>j. if j \<in> set ?ids then Some (?dest j) else None)" unfolding add by auto
  have own: "OwnerOf o' (MeshID p) c = Some (HostForCellID o' (MeshID p) c)"
    using src by (auto simp: HostForCellID_def split: option.splits)
  have "enumerate 0 ?ids = zip [0..<4] ?ids" by (simp add: enumerate_eq_zip length_Children)
  then have q: "map tc_Quadrant (rq_commands req) = map of_nat (map fst (zip [0..<4] ?ids))" "map tc_DestCellID (rq_commands req) = map snd (zip [0..<4] ?ids)"
    unfolding cmds by (simp_all add: o_def case_prod_unfold)
  have quads: "map of_nat (map fst (zip [0..<4] ?ids)) = [0, 1, 2, 3 :: u32]" "map snd (zip [0..<4] ?ids) = ?ids"
    using length_Children [of p] by (simp_all add: map_fst_zip map_snd_zip upt_rec)
  have each: "\<forall>cmd \<in> set (rq_commands req). tc_DestCellID cmd \<in> set ?ids \<and> tc_SrcCellID cmd = MeshID p \<and>
      tc_SrcHostID cmd = HostForCellID o' (MeshID p) c \<and> tc_DestHostID cmd = ?dest (tc_DestCellID cmd)"
  proof -
    have "k \<in> set ?ids" if "(i, k) \<in> set (enumerate 0 ?ids)" for i k
      using that unfolding enumerate_eq_zip by (rule set_zip_rightD)
    then show ?thesis unfolding cmds by auto
  qed
  have "\<forall>cmd \<in> set (rq_commands req). tc_SrcCellID cmd = MeshID p \<and> OwnerOf o' (MeshID p) c = Some (tc_SrcHostID cmd) \<and>
      tc_DestHostID cmd \<in> set ?live \<and> tm_add (rq_mutation req) (tc_DestCellID cmd) = Some (tc_DestHostID cmd)"
    using each own local_assign_in [OF live assms(2)] unfolding add by simp
  moreover have "dom (tm_add (rq_mutation req)) = set ?ids" unfolding add dom_def by simp
  ultimately show ?thesis unfolding q quads using rem by blast
qed

theorem split_request_covers_the_children_witness:
  "\<exists>s' req. BeginSplit demo_orders2 (\<lambda>bs. bs) 5 (mk_cell 0 0 0) demo_hosts (setDispatcher newCellTransferOrchestrator) = (s', Inr req) \<and>
     map tc_DestCellID (rq_commands req) = map MeshID (Children (mk_cell 0 0 0)) \<and>
     (\<forall>cmd \<in> set (rq_commands req). tc_DestHostID cmd \<in> {''a'', ''b''})"
proof -
  have key: "MeshID (mk_cell 0 0 0) = ''cell_0_0''" by code_simp
  have live: "liveHostIDs demo_orders2 demo_hosts = [''a'', ''b'']"
    by (simp add: demo_hosts_def demo_orders2_def demo_orders_def demo_registry_def RegisterLocal_def NewHostRegistry_def
      liveHostIDs_def cellBearingHosts_def List.map_filter_simps)
  have src: "HostForCellID demo_orders2 ''cell_0_0'' demo_hosts = ''a''"
    by (simp add: demo_hosts_def demo_orders2_def demo_orders_def demo_registry_def RegisterLocal_def NewHostRegistry_def
      HostForCellID_def OwnerOf_def Let_def)
  obtain s' req where r: "BeginSplit demo_orders2 (\<lambda>bs. bs) 5 (mk_cell 0 0 0) demo_hosts (setDispatcher newCellTransferOrchestrator) = (s', Inr req)"
    by (simp add: BeginSplit_def key live src setDispatcher_def Let_def)
  have "'''' \<notin> set (liveHostIDs demo_orders2 demo_hosts)" by (simp add: live)
  from split_request_covers_the_children [OF r this] r show ?thesis unfolding live by auto
qed


end
