(* ===== verification/SessionRoutes.thy ===== *)
theory SessionRoutes
  imports GoPrelude
begin

text \<open>
  The routing table from client sessions to cells (\<open>pkg/universe/session_routes.go\<close>). The table
  is a map from session keys to routes; the source stores pointers but hands out copies only, so
  routes are values here. The keys a range visits, in order, are an argument. The epoch is a
  64-bit fencing token.
\<close>

section \<open>State\<close>

record session_key =
  sk_GatewayID :: string
  sk_ConnID :: u32

record session_route =
  sr_Key :: session_key
  sr_Username :: string
  sr_HostID :: string
  sr_CellID :: string
  sr_Epoch :: u64

type_synonym session_routes = "session_key \<rightharpoonup> session_route"

definition InprocGatewayID :: string where
  "InprocGatewayID = ''inproc''"

section \<open>Operations\<close>

definition sr_Set :: "session_route \<Rightarrow> session_routes \<Rightarrow> session_routes" where
  "sr_Set route r = r(sr_Key route \<mapsto> route)"

definition UpdateCell :: "session_key \<Rightarrow> string \<Rightarrow> session_routes \<Rightarrow> session_routes \<times> bool" where
  "UpdateCell key newCell r =
     (case r key of None \<Rightarrow> (r, False) | Some v \<Rightarrow> (r(key \<mapsto> v\<lparr>sr_CellID := newCell\<rparr>), True))"

definition AdvanceCellFrom :: "session_key \<Rightarrow> string \<Rightarrow> u64 \<Rightarrow> session_routes \<Rightarrow> session_routes \<times> u64" where
  "AdvanceCellFrom key newCell floor r =
     (case r key of
        Some v \<Rightarrow>
          (let e = (if floor > sr_Epoch v then floor else sr_Epoch v) + 1
           in (r(key \<mapsto> v\<lparr>sr_Epoch := e, sr_CellID := newCell\<rparr>), e))
      | None \<Rightarrow>
          (let e = (if floor \<noteq> 0 then floor + 1 else 1)
           in (r(key \<mapsto> \<lparr>sr_Key = key, sr_Username = '''', sr_HostID = '''', sr_CellID = newCell, sr_Epoch = e\<rparr>), e)))"

definition AdvanceCell :: "session_key \<Rightarrow> string \<Rightarrow> session_routes \<Rightarrow> session_routes \<times> u64" where
  "AdvanceCell key newCell = AdvanceCellFrom key newCell 0"

definition sr_Get :: "session_key \<Rightarrow> session_routes \<Rightarrow> session_route option" where
  "sr_Get key r = r key"

text \<open>\<open>ForEach\<close> collects what the callbacks of its callers append: a filter over the visited routes.\<close>

definition sr_collect :: "session_key list \<Rightarrow> (session_route \<Rightarrow> 'a option) \<Rightarrow> session_routes \<Rightarrow> 'a list" where
  "sr_collect keys f r = List.map_filter (\<lambda>k. Option.bind (r k) f) keys"

definition sr_Len :: "session_key list \<Rightarrow> session_routes \<Rightarrow> nat" where
  "sr_Len keys r = length (filter (\<lambda>k. r k \<noteq> None) keys)"

definition sr_Remove :: "session_key \<Rightarrow> session_routes \<Rightarrow> session_routes" where
  "sr_Remove key r = r(key := None)"

definition Migrate :: "session_key \<Rightarrow> string \<Rightarrow> string \<Rightarrow> session_routes \<Rightarrow> session_routes \<times> u64 \<times> bool" where
  "Migrate key newHost newCell r =
     (case r key of
        None \<Rightarrow> (r, 0, False)
      | Some v \<Rightarrow>
          (r(key \<mapsto> v\<lparr>sr_Epoch := sr_Epoch v + 1, sr_HostID := newHost, sr_CellID := newCell\<rparr>), sr_Epoch v + 1, True))"

text \<open>The two bulk removals: a loop that deletes the matching keys and counts them.\<close>

definition remove_where :: "session_key list \<Rightarrow> (session_key \<Rightarrow> session_route \<Rightarrow> bool) \<Rightarrow> session_routes \<Rightarrow> session_routes \<times> nat" where
  "remove_where keys p r =
     fold (\<lambda>k (r, n). case r k of Some v \<Rightarrow> if p k v then (r(k := None), n + 1) else (r, n) | None \<Rightarrow> (r, n)) keys (r, 0)"

definition RemoveByGateway :: "session_key list \<Rightarrow> string \<Rightarrow> session_routes \<Rightarrow> session_routes \<times> nat" where
  "RemoveByGateway keys gatewayID = remove_where keys (\<lambda>k v. sk_GatewayID k = gatewayID)"

definition RemoveByHost :: "session_key list \<Rightarrow> string \<Rightarrow> session_routes \<Rightarrow> session_routes \<times> nat" where
  "RemoveByHost keys hostID = remove_where keys (\<lambda>k v. sr_HostID v = hostID)"

text \<open>The three remapping loops: rewrite the matching routes and list what was rewritten.\<close>

definition remap_where ::
  "session_key list \<Rightarrow> (session_route \<Rightarrow> session_route option) \<Rightarrow> session_routes \<Rightarrow> session_routes \<times> (session_key \<times> u64) list" where
  "remap_where keys f r =
     fold (\<lambda>k (r, out). case Option.bind (r k) f of Some v \<Rightarrow> (r(k \<mapsto> v), out @ [(k, sr_Epoch v)]) | None \<Rightarrow> (r, out)) keys (r, [])"

definition remapCell :: "session_key list \<Rightarrow> (string \<Rightarrow> bool) \<Rightarrow> string \<Rightarrow> session_routes \<Rightarrow> session_routes \<times> session_key list" where
  "remapCell keys p newCell r =
     (case remap_where keys (\<lambda>v. if p (sr_CellID v) then Some (v\<lparr>sr_CellID := newCell\<rparr>) else None) r of
        (r, out) \<Rightarrow> (r, map fst out))"

definition remapCellPerRoute ::
  "session_key list \<Rightarrow> (session_route \<Rightarrow> string option) \<Rightarrow> session_routes \<Rightarrow> session_routes \<times> session_key list" where
  "remapCellPerRoute keys decide r =
     (case remap_where keys (\<lambda>v. map_option (\<lambda>c. v\<lparr>sr_CellID := c\<rparr>) (decide v)) r of (r, out) \<Rightarrow> (r, map fst out))"

definition remapHostCell ::
  "session_key list \<Rightarrow> (string \<Rightarrow> bool) \<Rightarrow> string \<Rightarrow> string \<Rightarrow> session_routes \<Rightarrow> session_routes \<times> (session_key \<times> u64) list" where
  "remapHostCell keys p newHost newCell r =
     remap_where keys (\<lambda>v. if p (sr_CellID v)
       then Some (v\<lparr>sr_Epoch := sr_Epoch v + 1, sr_HostID := newHost, sr_CellID := newCell\<rparr>) else None) r"

section \<open>What the loops compute\<close>

lemma remap_where_spec:
  assumes "distinct keys"
  shows "fst (remap_where keys f r) j = (if j \<in> set keys \<and> Option.bind (r j) f \<noteq> None then Option.bind (r j) f else r j)"
    and "snd (remap_where keys f r) = List.map_filter (\<lambda>k. map_option (\<lambda>v. (k, sr_Epoch v)) (Option.bind (r k) f)) keys"
proof -
  let ?step = "\<lambda>k (r, out). case Option.bind (r k) f of Some v \<Rightarrow> (r(k \<mapsto> v), out @ [(k, sr_Epoch v)]) | None \<Rightarrow> (r, out)"
  let ?out = "\<lambda>r. List.map_filter (\<lambda>k. map_option (\<lambda>v. (k, sr_Epoch v)) (Option.bind (r k) f))"
  have "fst (fold ?step keys (r, out)) j = (if j \<in> set keys \<and> Option.bind (r j) f \<noteq> None then Option.bind (r j) f else r j) \<and>
      snd (fold ?step keys (r, out)) = out @ ?out r keys" for out
    using assms
  proof (induction keys arbitrary: r out)
    case Nil
    then show ?case by (simp add: List.map_filter_simps)
  next
    case (Cons k keys)
    show ?case
    proof (cases "Option.bind (r k) f")
      case None
      then show ?thesis using Cons.IH [of r out] Cons.prems by (auto simp: List.map_filter_simps)
    next
      case (Some v)
      obtain u where u: "u = r(k \<mapsto> v)" by simp
      have k: "k \<notin> set keys" "distinct keys" using Cons.prems by simp_all
      have uk: "u k = Some v" and same: "i \<noteq> k \<Longrightarrow> u i = r i" for i by (simp_all add: u)
      have keep: "i \<in> set keys \<Longrightarrow> u i = r i" for i using k(1) same by metis
      have "?out u keys = ?out r keys"
        unfolding List.map_filter_def by (intro map_cong filter_cong refl) (auto simp: keep)
      moreover have "fold ?step (k # keys) (r, out) = fold ?step keys (u, out @ [(k, sr_Epoch v)])"
        unfolding u by (simp only: fold.simps o_apply prod.case Some option.case)
      ultimately show ?thesis
        using Cons.IH [OF k(2), of u "out @ [(k, sr_Epoch v)]"] k Some same uk
        by (cases "j = k") (auto simp: List.map_filter_simps)
    qed
  qed
  from this [of "[]"]
  show "fst (remap_where keys f r) j = (if j \<in> set keys \<and> Option.bind (r j) f \<noteq> None then Option.bind (r j) f else r j)"
    and "snd (remap_where keys f r) = ?out r keys"
    by (simp_all add: remap_where_def)
qed

lemma remove_where_spec:
  assumes "distinct keys"
  shows "fst (remove_where keys p r) j = (if j \<in> set keys \<and> (\<exists>v. r j = Some v \<and> p j v) then None else r j)"
    and "snd (remove_where keys p r) = length (filter (\<lambda>k. \<exists>v. r k = Some v \<and> p k v) keys)"
proof -
  let ?step = "\<lambda>k (r, n). case r k of Some v \<Rightarrow> if p k v then (r(k := None), n + 1) else (r, n) | None \<Rightarrow> (r, n)"
  let ?hit = "\<lambda>r. filter (\<lambda>k. \<exists>v. r k = Some v \<and> p k v)"
  have "fst (fold ?step keys (r, n)) j = (if j \<in> set keys \<and> (\<exists>v. r j = Some v \<and> p j v) then None else r j) \<and>
      snd (fold ?step keys (r, n)) = n + length (?hit r keys)" for n :: nat
    using assms
  proof (induction keys arbitrary: r n)
    case (Cons k keys)
    have fresh: "k \<notin> set keys" "distinct keys" using Cons.prems by simp_all
    show ?case
    proof (cases "\<exists>v. r k = Some v \<and> p k v")
      case True
      obtain u where u: "u = r(k := None)" by simp
      have s: "fold ?step (k # keys) (r, n) = fold ?step keys (u, n + 1)" using True unfolding u by auto
      have uk: "u k = None" and same: "i \<noteq> k \<Longrightarrow> u i = r i" for i by (simp_all add: u)
      have keep: "i \<in> set keys \<Longrightarrow> u i = r i" for i using fresh(1) same by metis
      have "?hit u keys = ?hit r keys" by (intro filter_cong refl) (simp add: keep)
      then show ?thesis
        unfolding s using Cons.IH [of u "n + 1"] fresh True same uk by (cases "j = k") auto
    next
      case False
      then have s: "fold ?step (k # keys) (r, n) = fold ?step keys (r, n)" by (auto split: option.splits)
      show ?thesis unfolding s using Cons.IH [of r n] fresh False by (cases "j = k") simp_all
    qed
  qed simp
  from this [of 0]
  show "fst (remove_where keys p r) j = (if j \<in> set keys \<and> (\<exists>v. r j = Some v \<and> p j v) then None else r j)"
    and "snd (remove_where keys p r) = length (?hit r keys)"
    by (simp_all add: remove_where_def)
qed

section \<open>Fencing\<close>

text \<open>
  The operations that change the table, \<open>Set\<close> apart: there the caller chooses the epoch. The
  premises say that no counter is at its maximum.
\<close>

definition no_wrap :: "session_routes \<Rightarrow> bool" where
  "no_wrap r \<longleftrightarrow> (\<forall>k v. r k = Some v \<longrightarrow> sr_Epoch v + 1 \<noteq> 0)"

inductive route_step :: "session_routes \<Rightarrow> session_routes \<Rightarrow> bool" where
  update: "route_step r (fst (UpdateCell key c r))"
| advance: "no_wrap r \<Longrightarrow> floor + 1 \<noteq> 0 \<Longrightarrow> route_step r (fst (AdvanceCellFrom key c floor r))"
| migrate: "no_wrap r \<Longrightarrow> route_step r (fst (Migrate key h c r))"
| remove: "route_step r (sr_Remove key r)"
| gateway: "distinct keys \<Longrightarrow> route_step r (fst (RemoveByGateway keys g r))"
| host: "distinct keys \<Longrightarrow> route_step r (fst (RemoveByHost keys h r))"
| remap: "distinct keys \<Longrightarrow> route_step r (fst (remapCell keys p c r))"
| remap_route: "distinct keys \<Longrightarrow> route_step r (fst (remapCellPerRoute keys decide r))"
| remap_host: "distinct keys \<Longrightarrow> no_wrap r \<Longrightarrow> route_step r (fst (remapHostCell keys p h c r))"

text \<open>A run of the table during which the session \<open>k\<close> stays present.\<close>

inductive session_run :: "session_key \<Rightarrow> session_routes \<Rightarrow> session_routes \<Rightarrow> bool" for k where
  none: "r k \<noteq> None \<Longrightarrow> session_run k r r"
| step: "session_run k r r1 \<Longrightarrow> route_step r1 r2 \<Longrightarrow> r2 k \<noteq> None \<Longrightarrow> session_run k r r2"

text \<open>The newer route of a session fences the older one.\<close>

definition fences :: "session_route \<Rightarrow> session_route \<Rightarrow> bool" where
  "fences v v' \<longleftrightarrow> sr_Epoch v \<le> sr_Epoch v' \<and> (sr_HostID v' \<noteq> sr_HostID v \<longrightarrow> sr_Epoch v < sr_Epoch v') \<and>
     sr_Key v' = sr_Key v \<and> sr_Username v' = sr_Username v"

lemma fences_trans: "fences u v \<Longrightarrow> fences v w \<Longrightarrow> fences u w"
  unfolding fences_def by (metis le_less_trans less_le_trans order_trans)

lemma route_step_fences:
  assumes "route_step r r'" and "r k = Some v" and "r' k = Some v'"
  shows "fences v v'"
  using assms
proof cases
  case (update key c)
  then show ?thesis using assms by (auto simp: UpdateCell_def fences_def split: option.splits if_splits)
next
  case (advance floor key c)
  have inc: "sr_Epoch v < sr_Epoch v + 1" using advance(2) assms(2) by (intro word_less_inc) (auto simp: no_wrap_def)
  have "floor < floor + 1" using advance(3) by (rule word_less_inc)
  then show ?thesis using advance(1) assms(2,3) inc
    by (auto simp: AdvanceCellFrom_def fences_def Let_def split: option.splits if_splits)
next
  case (migrate key h c)
  have inc: "sr_Epoch v < sr_Epoch v + 1" using migrate(2) assms(2) by (intro word_less_inc) (auto simp: no_wrap_def)
  then show ?thesis using migrate(1) assms(2,3) by (auto simp: Migrate_def fences_def split: option.splits if_splits)
next
  case (remove key)
  then show ?thesis using assms by (auto simp: sr_Remove_def fences_def split: if_splits)
next
  case (gateway keys g)
  then show ?thesis using assms(2,3) by (auto simp: RemoveByGateway_def remove_where_spec fences_def split: if_splits)
next
  case (host keys h)
  then show ?thesis using assms(2,3) by (auto simp: RemoveByHost_def remove_where_spec fences_def split: if_splits)
next
  case (remap keys p c)
  then show ?thesis using assms(2,3)
    by (auto simp: remapCell_def case_prod_unfold remap_where_spec fences_def split: if_splits)
next
  case (remap_route keys decide)
  then show ?thesis using assms(2,3)
    by (auto simp: remapCellPerRoute_def case_prod_unfold remap_where_spec fences_def split: if_splits)
next
  case (remap_host keys p h c)
  have inc: "sr_Epoch v < sr_Epoch v + 1" using remap_host(3) assms(2) by (intro word_less_inc) (auto simp: no_wrap_def)
  then show ?thesis using remap_host(1,2) assms(2,3)
    by (auto simp: remapHostCell_def remap_where_spec fences_def split: if_splits)
qed


definition demo_key :: session_key where
  "demo_key = \<lparr>sk_GatewayID = ''inproc'', sk_ConnID = 3\<rparr>"

definition demo_routes :: session_routes where
  "demo_routes = fst (AdvanceCell demo_key ''cell_0_0'' Map.empty)"


end
