(* ===== verification/PlayerDirectory.thy ===== *)
theory PlayerDirectory
  imports GoPrelude
begin

text \<open>
  The coordinator's directory of players (\<open>pkg/universe/coordinator.go\<close>): the location of every
  username, the session of every user identifier, and the answers the login path takes from
  them. A user identifier is a 128-bit word with 0 as \<open>uuid.Nil\<close>. The lookup of the current host of
  a cell is an argument of the reconnect decision. The list of users a range visits is an argument.
\<close>

section \<open>State\<close>

type_synonym uuid = "128 word"

record player_location =
  pl_HostID :: string
  pl_CellID :: string
  pl_Active :: bool

record active_user =
  av_UserID :: uuid
  av_Username :: string
  av_GatewayID :: string
  av_ConnID :: u32
  av_HostID :: string
  av_CellID :: string

record directory =
  d_players :: "string \<rightharpoonup> player_location"
  d_activeUsers :: "uuid \<rightharpoonup> active_user"
  d_userIDByConn :: "u32 \<rightharpoonup> uuid"

record spawn_resolved =
  re_Rejected :: bool
  re_IsReconnect :: bool
  re_TargetHostId :: string
  re_TargetCellId :: string

definition new_directory :: directory where
  "new_directory = \<lparr>d_players = Map.empty, d_activeUsers = Map.empty, d_userIDByConn = Map.empty\<rparr>"

section \<open>Operations\<close>

text \<open>The location is replaced whole: the source writes its three fields one after the other.\<close>

definition notifySessionActive :: "string \<Rightarrow> string \<Rightarrow> string \<Rightarrow> directory \<Rightarrow> directory" where
  "notifySessionActive username hostID cellID d =
     d\<lparr>d_players := (d_players d)(username \<mapsto> \<lparr>pl_HostID = hostID, pl_CellID = cellID, pl_Active = True\<rparr>)\<rparr>"

definition notifySessionDisconnected :: "string \<Rightarrow> string \<Rightarrow> string \<Rightarrow> directory \<Rightarrow> directory" where
  "notifySessionDisconnected username hostID cellID d =
     d\<lparr>d_players := (d_players d)(username \<mapsto> \<lparr>pl_HostID = hostID, pl_CellID = cellID, pl_Active = False\<rparr>)\<rparr>"

definition notifySessionRemoved :: "uuid list \<Rightarrow> string \<Rightarrow> directory \<Rightarrow> directory" where
  "notifySessionRemoved users username d =
     fold (\<lambda>uid d. case d_activeUsers d uid of
         None \<Rightarrow> d
       | Some au \<Rightarrow>
           if av_Username au = username
           then d\<lparr>d_activeUsers := (d_activeUsers d)(uid := None), d_userIDByConn := (d_userIDByConn d)(av_ConnID au := None)\<rparr>
           else d)
       users (d\<lparr>d_players := (d_players d)(username := None)\<rparr>)"

definition activeUserLocked :: "uuid \<Rightarrow> directory \<Rightarrow> player_location option" where
  "activeUserLocked userID d =
     (case d_activeUsers d userID of
        None \<Rightarrow> None
      | Some au \<Rightarrow>
          (case d_players d (av_Username au) of
             Some loc \<Rightarrow> Some loc
           | None \<Rightarrow> Some \<lparr>pl_HostID = av_HostID au, pl_CellID = av_CellID au, pl_Active = True\<rparr>))"

definition applyResolveSpawnReconnect :: "(string \<Rightarrow> string) \<Rightarrow> uuid \<Rightarrow> directory \<Rightarrow> spawn_resolved \<Rightarrow> spawn_resolved" where
  "applyResolveSpawnReconnect hostForCell userID d resp =
     (case activeUserLocked userID d of
        None \<Rightarrow> resp
      | Some loc \<Rightarrow>
          if pl_Active loc then resp\<lparr>re_Rejected := True\<rparr>
          else if pl_CellID loc = '''' then resp
          else (let currentHost = hostForCell (pl_CellID loc)
                in if currentHost = '''' then resp
                   else resp\<lparr>re_IsReconnect := True, re_TargetHostId := currentHost, re_TargetCellId := pl_CellID loc\<rparr>))"

definition registerAuthenticatedSession :: "uuid \<Rightarrow> string \<Rightarrow> string \<Rightarrow> u32 \<Rightarrow> string \<Rightarrow> string \<Rightarrow> directory \<Rightarrow> directory" where
  "registerAuthenticatedSession userID username gatewayID connID hostID cellID d =
     (if userID = 0 then d
      else d\<lparr>d_activeUsers := (d_activeUsers d)(userID \<mapsto>
               \<lparr>av_UserID = userID, av_Username = username, av_GatewayID = gatewayID, av_ConnID = connID,
                av_HostID = hostID, av_CellID = cellID\<rparr>),
             d_userIDByConn := (d_userIDByConn d)(connID \<mapsto> userID)\<rparr>)"

definition touchActiveUser :: "uuid \<Rightarrow> string \<Rightarrow> string \<Rightarrow> u32 \<Rightarrow> string \<Rightarrow> string \<Rightarrow> directory \<Rightarrow> directory" where
  "touchActiveUser userID username gatewayID gatewayConnID hostID cellID d =
     (if userID = 0 then d
      else
        (case d_activeUsers d userID of
           Some au \<Rightarrow> d\<lparr>d_activeUsers := (d_activeUsers d)(userID \<mapsto> au\<lparr>av_HostID := hostID, av_CellID := cellID\<rparr>)\<rparr>
         | None \<Rightarrow>
             d\<lparr>d_activeUsers := (d_activeUsers d)(userID \<mapsto>
                 \<lparr>av_UserID = userID, av_Username = username, av_GatewayID = gatewayID, av_ConnID = gatewayConnID,
                  av_HostID = hostID, av_CellID = cellID\<rparr>),
               d_userIDByConn := (if gatewayConnID \<noteq> 0 then (d_userIDByConn d)(gatewayConnID \<mapsto> userID) else d_userIDByConn d)\<rparr>))"

definition IsUserSessionActive :: "uuid \<Rightarrow> directory \<Rightarrow> bool" where
  "IsUserSessionActive userID d =
     (if userID = 0 then False else case activeUserLocked userID d of None \<Rightarrow> False | Some loc \<Rightarrow> pl_Active loc)"

definition ActiveUserHost :: "string \<Rightarrow> directory \<Rightarrow> string" where
  "ActiveUserHost username d =
     (case d_players d username of None \<Rightarrow> '''' | Some loc \<Rightarrow> if pl_Active loc then pl_HostID loc else '''')"

definition ActiveUsers :: "directory \<Rightarrow> string \<rightharpoonup> string" where
  "ActiveUsers d username =
     (case d_players d username of None \<Rightarrow> None | Some loc \<Rightarrow> if pl_Active loc then Some (pl_HostID loc) else None)"

section \<open>Removal and the login guard\<close>

lemma removed_spec:
  "d_players (notifySessionRemoved users name d) = (d_players d)(name := None) \<and>
   d_activeUsers (notifySessionRemoved users name d) u =
     (case d_activeUsers d u of Some au \<Rightarrow> if u \<in> set users \<and> av_Username au = name then None else Some au | None \<Rightarrow> None)"
proof -
  let ?f = "\<lambda>uid d. case d_activeUsers d uid of None \<Rightarrow> d
    | Some au \<Rightarrow> if av_Username au = name
        then d\<lparr>d_activeUsers := (d_activeUsers d)(uid := None), d_userIDByConn := (d_userIDByConn d)(av_ConnID au := None)\<rparr>
        else d"
  have "d_players (fold ?f users e) = d_players e \<and> d_activeUsers (fold ?f users e) u =
      (case d_activeUsers e u of Some au \<Rightarrow> if u \<in> set users \<and> av_Username au = name then None else Some au | None \<Rightarrow> None)" for e
  proof (induction users arbitrary: e)
    case (Cons a users)
    have s: "d_players (?f a e) = d_players e" "d_activeUsers (?f a e) u =
        (case d_activeUsers e u of Some au \<Rightarrow> if u = a \<and> av_Username au = name then None else Some au | None \<Rightarrow> None)"
      by (auto split: option.splits)
    have "fold ?f (a # users) e = fold ?f users (?f a e)" by (simp only: fold.simps o_apply)
    then show ?case using Cons.IH [of "?f a e"] unfolding s by (auto split: option.splits if_splits)
  qed (auto split: option.splits)
  from this [of "d\<lparr>d_players := (d_players d)(name := None)\<rparr>"] show ?thesis
    unfolding notifySessionRemoved_def by (simp only: directory.simps) simp
qed

text \<open>The operations of other players, and those that keep this user's session as it is.\<close>

datatype directory_op =
    DActive string string string
  | DDisconnected string string string
  | DRemoved "uuid list" string
  | DRegister uuid string string u32 string string
  | DTouch uuid string string u32 string string

fun directory_step :: "directory_op \<Rightarrow> directory \<Rightarrow> directory" where
  "directory_step (DActive n h c) d = notifySessionActive n h c d"
| "directory_step (DDisconnected n h c) d = notifySessionDisconnected n h c d"
| "directory_step (DRemoved us n) d = notifySessionRemoved us n d"
| "directory_step (DRegister u n g k h c) d = registerAuthenticatedSession u n g k h c d"
| "directory_step (DTouch u n g k h c) d = touchActiveUser u n g k h c d"

text \<open>The operation ends the session of the user: a disconnect or removal of the name, or a login under another name.\<close>

fun ends_session :: "uuid \<Rightarrow> string \<Rightarrow> directory_op \<Rightarrow> bool" where
  "ends_session u name (DDisconnected n h c) = (n = name)"
| "ends_session u name (DRemoved us n) = (n = name)"
| "ends_session u name (DRegister v n g k h c) = (v = u \<and> n \<noteq> name)"
| "ends_session u name _ = False"

definition logged_in :: "uuid \<Rightarrow> string \<Rightarrow> directory \<Rightarrow> bool" where
  "logged_in u name d \<longleftrightarrow> (\<exists>au. d_activeUsers d u = Some au \<and> av_Username au = name) \<and>
     (\<forall>loc. d_players d name = Some loc \<longrightarrow> pl_Active loc)"

lemma logged_in_active: "logged_in u name d \<Longrightarrow> u \<noteq> 0 \<Longrightarrow> IsUserSessionActive u d"
  by (auto simp: logged_in_def IsUserSessionActive_def activeUserLocked_def split: option.splits)

lemma logged_in_step:
  assumes "logged_in u name d" and "\<not> ends_session u name op"
  shows "logged_in u name (directory_step op d)"
proof (cases op)
  case (DRemoved us n)
  then show ?thesis using assms removed_spec [of us n d u] by (auto simp: logged_in_def)
qed (use assms in \<open>auto simp: logged_in_def notifySessionActive_def notifySessionDisconnected_def
  registerAuthenticatedSession_def touchActiveUser_def split: option.splits if_splits\<close>)

text \<open>
  From the login of a user until a disconnect or removal of its name, and whatever happens to
  other players in between, a second login of that user is refused: the guard sees an active
  session and the spawn resolution answers with a rejection and no reconnect target.
\<close>

theorem second_login_is_refused:
  assumes "u \<noteq> 0" and "\<forall>loc. d_players d name = Some loc \<longrightarrow> pl_Active loc" and "\<forall>p \<in> set ops. \<not> ends_session u name p"
  shows "let d' = fold directory_step ops (registerAuthenticatedSession u name gw conn host cell d)
         in IsUserSessionActive u d' \<and> applyResolveSpawnReconnect hostOf u d' resp = resp\<lparr>re_Rejected := True\<rparr>"
proof -
  let ?d = "registerAuthenticatedSession u name gw conn host cell d"
  have "logged_in u name ?d" using assms(1,2) by (auto simp: logged_in_def registerAuthenticatedSession_def)
  then have "logged_in u name (fold directory_step ops ?d)" using assms(3)
  proof (induction ops rule: rev_induct)
    case (snoc p ops)
    then show ?case using logged_in_step [of u name _ p] by simp
  qed simp
  from logged_in_active [OF this assms(1)] assms(1) show ?thesis
    by (auto simp: Let_def applyResolveSpawnReconnect_def IsUserSessionActive_def split: option.splits)
qed

theorem second_login_is_refused_witness:
  "IsUserSessionActive 7 (fold directory_step [DActive ''eve'' ''h1'' ''cell_0_0'', DTouch 7 ''eve'' ''g'' 3 ''h2'' ''cell_1_0'', DRemoved [8] ''bob'']
     (registerAuthenticatedSession 7 ''eve'' ''g'' 3 ''h1'' ''cell_0_0'' new_directory))"
  using second_login_is_refused [of 7 new_directory "''eve''"
    "[DActive ''eve'' ''h1'' ''cell_0_0'', DTouch 7 ''eve'' ''g'' 3 ''h2'' ''cell_1_0'', DRemoved [8] ''bob'']"
    "''g''" 3 "''h1''" "''cell_0_0''" "\<lambda>c. c" "\<lparr>re_Rejected = False, re_IsReconnect = False, re_TargetHostId = '''', re_TargetCellId = ''''\<rparr>"]
  by (simp add: new_directory_def Let_def)

end
