(* ===== verification/NetIds.thy ===== *)
theory NetIds
  imports GoPrelude
begin

text \<open>
  Network identifiers: the allocator of identifier ranges (\<open>pkg/universe/net_id_alloc.go\<close>), the
  per-cell counter (\<open>NextNetID\<close> in \<open>pkg/engine/engine.go\<close>), the ranges the assignment engine grants
  to hosts (\<open>dispatchCellAssign\<close> in \<open>pkg/universe/coord_assignment.go\<close>) and the per-cell index from
  identifiers to entities (\<open>pkg/universe/netid_index.go\<close>). A panic is \<open>None\<close>. The entity handle is a
  type variable: the index only compares handles.
\<close>

section \<open>Ranges\<close>

record netid_alloc =
  na_next :: u32
  na_size :: u32
  na_free :: "u32 list"

definition NewNetIDAllocator :: "u32 \<Rightarrow> u32 \<Rightarrow> netid_alloc" where
  "NewNetIDAllocator startBase rangeSize = \<lparr>na_next = startBase, na_size = rangeSize, na_free = []\<rparr>"

definition Allocate :: "netid_alloc \<Rightarrow> (u32 \<times> netid_alloc) option" where
  "Allocate a =
     (if na_free a \<noteq> [] then Some (last (na_free a), a\<lparr>na_free := butlast (na_free a)\<rparr>)
      else if na_size a > 0 \<and> na_next a > - 1 - na_size a then None
      else Some (na_next a, a\<lparr>na_next := na_next a + na_size a\<rparr>))"

definition na_Release :: "u32 \<Rightarrow> netid_alloc \<Rightarrow> netid_alloc" where
  "na_Release base a = a\<lparr>na_free := na_free a @ [base]\<rparr>"

definition SetBase :: "u32 \<Rightarrow> netid_alloc \<Rightarrow> netid_alloc" where
  "SetBase base a = (if base > na_next a then a\<lparr>na_next := base\<rparr> else a)"

text \<open>A cell's counter: the base of its range and the number of identifiers handed out.\<close>

definition NextNetID :: "u32 \<Rightarrow> u32 \<Rightarrow> u32 \<times> u32" where
  "NextNetID base n = (base + (n + 1), n + 1)"

definition netIDRangeSize :: u32 where
  "netIDRangeSize = 10000000"

text \<open>The range \<open>dispatchCellAssign\<close> grants; the second component is \<open>nextNetIDStart\<close>.\<close>

definition grant_range :: "netid_alloc \<times> u32 \<Rightarrow> (u32 \<times> netid_alloc \<times> u32) option" where
  "grant_range s =
     (case s of (a, nextStart) \<Rightarrow>
        (case (if nextStart = 0 then Allocate a else Some (nextStart, a)) of
           None \<Rightarrow> None
         | Some (start, a) \<Rightarrow> Some (start, a, start + netIDRangeSize)))"

section \<open>The index of a cell\<close>

datatype presence = PresenceNone | PresenceLive | PresenceReplica

datatype transition_action = ActionInstalled | ActionUpdated | ActionRejected | ActionDuplicate

type_synonym 'e netid_index = "u32 \<rightharpoonup> 'e \<times> presence"

type_synonym 'e transition_result = "transition_action \<times> 'e option"

definition Lookup :: "u32 \<Rightarrow> 'e netid_index \<Rightarrow> ('e \<times> presence) option" where
  "Lookup netID idx = idx netID"

definition Enter :: "u32 \<Rightarrow> 'e \<Rightarrow> presence \<Rightarrow> 'e netid_index \<Rightarrow> 'e netid_index \<times> 'e transition_result" where
  "Enter netID entity to idx =
     (case idx netID of
        None \<Rightarrow> (idx(netID \<mapsto> (entity, to)), ActionInstalled, None)
      | Some (cur, PresenceLive) \<Rightarrow>
          if to = PresenceLive then (idx, ActionDuplicate, Some cur) else (idx, ActionRejected, None)
      | Some (cur, PresenceReplica) \<Rightarrow>
          if to = PresenceReplica then (idx(netID \<mapsto> (entity, PresenceReplica)), ActionUpdated, None)
          else (idx, ActionRejected, None)
      | Some (cur, PresenceNone) \<Rightarrow> (idx, ActionRejected, None))"

definition ExitEntity :: "u32 \<Rightarrow> 'e \<Rightarrow> 'e netid_index \<Rightarrow> 'e netid_index \<times> bool" where
  "ExitEntity netID entity idx =
     (case idx netID of
        None \<Rightarrow> (idx, False)
      | Some (cur, p) \<Rightarrow> if cur \<noteq> entity then (idx, False) else (idx(netID := None), True))"

definition Demote :: "u32 \<Rightarrow> 'e \<Rightarrow> 'e netid_index \<Rightarrow> 'e netid_index \<times> 'e transition_result" where
  "Demote netID entity idx =
     (case idx netID of
        Some (cur, PresenceLive) \<Rightarrow> (idx(netID \<mapsto> (entity, PresenceReplica)), ActionUpdated, Some cur)
      | _ \<Rightarrow> (idx, ActionRejected, None))"

definition Promote :: "u32 \<Rightarrow> 'e \<Rightarrow> 'e netid_index \<Rightarrow> 'e netid_index \<times> 'e transition_result" where
  "Promote netID entity idx =
     (case idx netID of
        Some (cur, PresenceReplica) \<Rightarrow> (idx(netID \<mapsto> (entity, PresenceLive)), ActionUpdated, Some cur)
      | _ \<Rightarrow> (idx, ActionRejected, None))"

section \<open>Disjointness of ranges\<close>

text \<open>
  \<open>live\<close> is the set of bases in use. All known bases lie one range below \<open>next\<close> and are one range
  apart, and none is both in use and free.
\<close>

definition alloc_ok :: "u32 set \<Rightarrow> netid_alloc \<Rightarrow> bool" where
  "alloc_ok live a \<longleftrightarrow> na_size a > 0 \<and> distinct (na_free a) \<and> live \<inter> set (na_free a) = {} \<and>
     (\<forall>b \<in> live \<union> set (na_free a). unat b + unat (na_size a) \<le> unat (na_next a)) \<and>
     (\<forall>b \<in> live \<union> set (na_free a). \<forall>c \<in> live \<union> set (na_free a). b < c \<longrightarrow> unat b + unat (na_size a) \<le> unat c)"

inductive alloc_step :: "u32 set \<times> netid_alloc \<Rightarrow> u32 set \<times> netid_alloc \<Rightarrow> bool" where
  allocate: "Allocate a = Some (b, a') \<Longrightarrow> alloc_step (live, a) (insert b live, a')"
| release: "b \<in> live \<Longrightarrow> alloc_step (live, a) (live - {b}, na_Release b a)"
| set_base: "alloc_step (live, a) (live, SetBase base a)"

lemma unat_u32_less: "unat (x :: u32) < 2 ^ 32"
  by (rule order_less_le_trans [OF unsigned_less]) simp

lemma unat_plus_fits:
  assumes "a \<le> - 1 - (s :: u32)"
  shows "unat (a + s) = unat a + unat s"
proof -
  have "unat a \<le> unat (- 1 - s)" using assms by (simp add: word_le_nat_alt)
  also have "unat (- 1 - s) = 2 ^ 32 - 1 - unat s"
    by (subst unat_sub) (simp_all add: unsigned_minus_1_eq_mask mask_eq_exp_minus_1)
  finally have "unat a + unat s < 2 ^ 32" using unat_u32_less [of s] by simp
  then show ?thesis by (simp add: unat_word_ariths)
qed

lemma allocate_keeps:
  assumes "alloc_ok live a" and "Allocate a = Some (b, a')"
  shows "alloc_ok (insert b live) a'" and "b \<notin> live"
proof -
  have "alloc_ok (insert b live) a' \<and> b \<notin> live"
  proof (cases "na_free a = []")
    case False
    then obtain fs where f: "na_free a = fs @ [b]" "a' = a\<lparr>na_free := fs\<rparr>"
      using assms(2) by (cases "na_free a" rule: rev_cases) (auto simp: Allocate_def)
    then show ?thesis using assms(1) by (auto simp: alloc_ok_def)
  next
    case True
    then have b: "b = na_next a" "a' = a\<lparr>na_next := na_next a + na_size a\<rparr>" and le: "na_next a \<le> - 1 - na_size a"
      using assms by (auto simp: Allocate_def alloc_ok_def not_less split: if_splits)
    have u: "unat (na_next a + na_size a) = unat (na_next a) + unat (na_size a)" by (rule unat_plus_fits [OF le])
    have pos: "0 < unat (na_size a)" using assms(1) by (simp add: alloc_ok_def word_less_nat_alt)
    have low: "\<forall>c \<in> live. unat c + unat (na_size a) \<le> unat (na_next a)" using assms(1) by (simp add: alloc_ok_def)
    then have "\<forall>c \<in> live. c < na_next a" using pos by (auto simp: word_less_nat_alt)
    then show ?thesis
      using assms(1) True low u pos unfolding b alloc_ok_def
      by (auto simp: word_less_nat_alt dest: bspec)
  qed
  then show "alloc_ok (insert b live) a'" "b \<notin> live" by simp_all
qed

lemma alloc_step_keeps:
  assumes "alloc_step s s'" and "alloc_ok (fst s) (snd s)"
  shows "alloc_ok (fst s') (snd s')"
  using assms
proof cases
  case (allocate a b a' live)
  then show ?thesis using allocate_keeps(1) [of live a b a'] assms(2) by simp
next
  case (release b live a)
  then have "live - {b} \<union> set (na_free (na_Release b a)) = live \<union> set (na_free a)" by (auto simp: na_Release_def)
  then show ?thesis using assms(2) release unfolding alloc_ok_def by (auto simp: na_Release_def)
next
  case (set_base live a base)
  then show ?thesis using assms(2)
    by (auto simp: alloc_ok_def SetBase_def word_less_nat_alt intro: order_trans [OF _ less_imp_le])
qed

text \<open>
  C38. Whatever the sequence of allocations, releases of bases in use and grants, the identifiers
  of two cells that are in use at the same time never coincide, as long as neither cell has handed
  out more identifiers than the size of a range.
\<close>

theorem live_ranges_are_disjoint:
  assumes "alloc_step\<^sup>*\<^sup>* ({}, NewNetIDAllocator start sz) (live, a)" and "0 < sz"
    and "b \<in> live" and "c \<in> live" and "b \<noteq> c" and "n < sz" and "m < sz"
  shows "fst (NextNetID b n) \<noteq> fst (NextNetID c m)"
proof -
  have "alloc_ok (fst s) (snd s) \<and> na_size (snd s) = sz"
    if "alloc_step\<^sup>*\<^sup>* ({}, NewNetIDAllocator start sz) s" for s
    using that
  proof induction
    case base
    then show ?case using assms(2) by (simp add: alloc_ok_def NewNetIDAllocator_def)
  next
    case (step s s')
    have "na_size (snd s') = na_size (snd s)"
      using step.hyps(2) by cases (auto simp: Allocate_def na_Release_def SetBase_def split: if_splits)
    then show ?case using step.IH alloc_step_keeps [OF step.hyps(2)] by simp
  qed
  from this [OF assms(1)] have ok: "alloc_ok live a" "na_size a = sz" by simp_all
  have val: "unat (fst (NextNetID x k)) = unat x + unat k + 1" if x: "x \<in> live" "k < sz" for x k
  proof -
    have "unat x + unat sz \<le> unat (na_next a)" using ok x(1) by (simp add: alloc_ok_def)
    moreover have "unat k < unat sz" using x(2) by (simp add: word_less_nat_alt)
    moreover have "unat (na_next a) < 2 ^ 32" using unat_u32_less [of "na_next a"] by simp
    ultimately have "unat k + 1 < 2 ^ 32" "unat x + (unat k + 1) < 2 ^ 32" by linarith+
    then show ?thesis by (simp add: NextNetID_def unat_word_ariths)
  qed
  have gap: "unat x + unat sz \<le> unat y" if "x \<in> live" "y \<in> live" "x < y" for x y
    using ok that by (simp add: alloc_ok_def)
  have nm: "unat n < unat sz" "unat m < unat sz" using assms(6,7) by (simp_all add: word_less_nat_alt)
  have "unat (fst (NextNetID b n)) \<noteq> unat (fst (NextNetID c m))"
    unfolding val [OF assms(3,6)] val [OF assms(4,7)]
    using gap [OF assms(3,4)] gap [OF assms(4,3)] nm by (cases rule: linorder_cases [of b c]) (use assms(5) in auto)
  then show ?thesis by metis
qed

theorem live_ranges_are_disjoint_witness:
  "\<exists>a. alloc_step\<^sup>*\<^sup>* ({}, NewNetIDAllocator 0 netIDRangeSize) ({0, netIDRangeSize}, a) \<and>
     fst (NextNetID 0 41) \<noteq> fst (NextNetID netIDRangeSize 41)"
proof -
  let ?a0 = "NewNetIDAllocator 0 netIDRangeSize"
  let ?a1 = "?a0\<lparr>na_next := netIDRangeSize\<rparr>"
  let ?a2 = "?a0\<lparr>na_next := netIDRangeSize + netIDRangeSize\<rparr>"
  have "Allocate ?a0 = Some (0, ?a1)" "Allocate ?a1 = Some (netIDRangeSize, ?a2)"
    by (simp_all add: Allocate_def NewNetIDAllocator_def netIDRangeSize_def)
  then have "alloc_step ({}, ?a0) ({0}, ?a1)" "alloc_step ({0}, ?a1) ({netIDRangeSize, 0}, ?a2)"
    by (auto intro: alloc_step.allocate)
  then have r: "alloc_step\<^sup>*\<^sup>* ({}, ?a0) ({0, netIDRangeSize}, ?a2)" by (simp add: insert_commute)
  have "fst (NextNetID 0 41) \<noteq> fst (NextNetID netIDRangeSize 41)"
    by (rule live_ranges_are_disjoint [OF r]) (simp_all add: netIDRangeSize_def)
  then show ?thesis using r by blast
qed



section \<open>Authority\<close>

datatype 'e index_op =
    OpEnter u32 'e presence
  | OpExit u32 'e
  | OpDemote u32 'e
  | OpPromote u32 'e

fun run_op :: "'e index_op \<Rightarrow> 'e netid_index \<Rightarrow> 'e netid_index" where
  "run_op (OpEnter n e p) idx = fst (Enter n e p idx)"
| "run_op (OpExit n e) idx = fst (ExitEntity n e idx)"
| "run_op (OpDemote n e) idx = fst (Demote n e idx)"
| "run_op (OpPromote n e) idx = fst (Promote n e idx)"

text \<open>
  An authoritative entry changes only by its own demotion or removal: over any sequence of
  index operations that contains neither a demotion of the identifier nor an exit of that very
  entity, the slot keeps its entity and stays live.
\<close>

theorem live_entry_is_stable:
  assumes "idx n = Some (e, PresenceLive)" and "\<forall>x. OpDemote n x \<notin> set ops" and "OpExit n e \<notin> set ops"
  shows "fold run_op ops idx n = Some (e, PresenceLive)"
  using assms
proof (induction ops arbitrary: idx)
  case (Cons p ops)
  have "run_op p idx n = Some (e, PresenceLive)"
    using Cons.prems
    by (cases p) (auto simp: Enter_def ExitEntity_def Demote_def Promote_def split: option.splits presence.splits if_splits)
  then show ?case using Cons.IH Cons.prems by simp
qed simp

theorem live_entry_is_stable_witness:
  "fold run_op [OpEnter 7 ''b'' PresenceReplica, OpExit 7 ''b'', OpEnter 7 ''c'' PresenceLive, OpPromote 7 ''d'']
     [7 \<mapsto> (''a'', PresenceLive)] 7 = Some (''a'', PresenceLive)"
  by (rule live_entry_is_stable) simp_all

end
