(* ===== verification/BoundedLogs.thy ===== *)
theory BoundedLogs
  imports GoPrelude
begin

text \<open>
  The three bounded in-memory logs: the commit log (\<open>pkg/universe/commit_log.go\<close>), the audit log
  (\<open>pkg/admin/audit.go\<close>) and the log ring (\<open>pkg/admin/log_ring.go\<close>). The slots are a list written in
  place at \<open>head\<close>; instants are integers, 0 standing for the zero time. Appending to the
  category logger is not modelled. A subscriber of the commit log is the buffer of its channel.
\<close>

section \<open>The slot array\<close>

record 'a ring =
  rg_ring :: "'a list"
  rg_head :: nat
  rg_cap :: nat

definition ring_new :: "'a \<Rightarrow> nat \<Rightarrow> 'a ring" where
  "ring_new z cap = \<lparr>rg_ring = replicate cap z, rg_head = 0, rg_cap = cap\<rparr>"

definition ring_write :: "'a \<Rightarrow> 'a ring \<Rightarrow> 'a ring" where
  "ring_write e r = r\<lparr>rg_ring := (rg_ring r)[rg_head r := e], rg_head := (rg_head r + 1) mod rg_cap r\<rparr>"

text \<open>The backward walk of the two admin logs: at most \<open>n\<close> slots, stopping at an empty one.\<close>

fun ring_back :: "('a \<Rightarrow> bool) \<Rightarrow> nat \<Rightarrow> nat \<Rightarrow> 'a ring \<Rightarrow> 'a list" where
  "ring_back vac 0 idx r = []"
| "ring_back vac (Suc n) idx r =
     (let e = rg_ring r ! idx
      in if vac e then [] else e # ring_back vac n (if idx = 0 then rg_cap r - 1 else idx - 1) r)"

section \<open>Audit log and log ring\<close>

record audit_entry =
  au_TraceID :: string
  au_Username :: string
  au_IP :: string
  au_Verb :: string
  au_ArgsJSON :: string
  au_OK :: bool
  au_Error :: string
  au_StartedAt :: int
  au_FinishedAt :: int

definition zero_audit :: audit_entry where
  "zero_audit = \<lparr>au_TraceID = '''', au_Username = '''', au_IP = '''', au_Verb = '''', au_ArgsJSON = '''', au_OK = False,
     au_Error = '''', au_StartedAt = 0, au_FinishedAt = 0\<rparr>"

definition NewAuditLog :: "int \<Rightarrow> audit_entry ring" where
  "NewAuditLog capacity = ring_new zero_audit (nat (if capacity \<le> 0 then 4096 else capacity))"

definition au_Append :: "audit_entry \<Rightarrow> audit_entry ring \<Rightarrow> audit_entry ring" where
  "au_Append = ring_write"

definition au_Recent :: "int \<Rightarrow> audit_entry ring \<Rightarrow> audit_entry list" where
  "au_Recent n a =
     (let n = (if n \<le> 0 \<or> n > int (rg_cap a) then rg_cap a else nat n)
      in ring_back (\<lambda>e. au_StartedAt e = 0) n (if rg_head a = 0 then rg_cap a - 1 else rg_head a - 1) a)"

record log_entry =
  le_Host :: string
  le_Cat :: string
  le_Msg :: string
  le_T :: int

definition zero_log :: log_entry where
  "zero_log = \<lparr>le_Host = '''', le_Cat = '''', le_Msg = '''', le_T = 0\<rparr>"

definition NewLogRing :: "int \<Rightarrow> log_entry ring" where
  "NewLogRing capacity = ring_new zero_log (nat (if capacity \<le> 0 then 4096 else capacity))"

definition lr_Append :: "log_entry \<Rightarrow> log_entry ring \<Rightarrow> log_entry ring" where
  "lr_Append = ring_write"

definition lr_Recent :: "int \<Rightarrow> log_entry ring \<Rightarrow> log_entry list" where
  "lr_Recent n r =
     (let n = (if n \<le> 0 \<or> n > int (rg_cap r) then rg_cap r else nat n)
      in ring_back (\<lambda>e. le_T e = 0) n (if rg_head r = 0 then rg_cap r - 1 else rg_head r - 1) r)"

section \<open>Commit log\<close>

datatype commit_kind = CommitKindSplit | CommitKindMerge | CommitKindMigrate

datatype event_kind =
    EventCommitSplit
  | EventCommitMerge
  | EventCommitMigrate
  | EventInvariantViolation
  | EventHostJoin
  | EventHostLeave
  | EventSessionRouteRemap

definition commitKindToEvent :: "commit_kind \<Rightarrow> event_kind" where
  "commitKindToEvent k =
     (case k of CommitKindSplit \<Rightarrow> EventCommitSplit | CommitKindMerge \<Rightarrow> EventCommitMerge | CommitKindMigrate \<Rightarrow> EventCommitMigrate)"

record commit_event =
  ce_SeqNo :: u64
  ce_Timestamp :: int
  ce_CommitID :: u64
  ce_Kind :: event_kind
  ce_Scenario :: commit_kind
  ce_StepIndex :: int
  ce_Step :: string
  ce_Success :: bool
  ce_DurationMs :: int
  ce_Affected :: "string list"
  ce_HostIDs :: "string list"
  ce_Error :: string
  ce_Context :: "(string \<times> string) list"

definition zero_event :: commit_event where
  "zero_event = \<lparr>ce_SeqNo = 0, ce_Timestamp = 0, ce_CommitID = 0, ce_Kind = EventCommitSplit, ce_Scenario = CommitKindSplit,
     ce_StepIndex = 0, ce_Step = '''', ce_Success = False, ce_DurationMs = 0, ce_Affected = [], ce_HostIDs = [],
     ce_Error = '''', ce_Context = []\<rparr>"

record commit_log =
  cl_ring :: "commit_event ring"
  cl_size :: nat
  cl_seq :: u64
  cl_subs :: "(nat \<times> commit_event list) list"
  cl_nextSub :: nat

definition newCommitLog :: "int \<Rightarrow> commit_log" where
  "newCommitLog cap =
     \<lparr>cl_ring = ring_new zero_event (nat (if cap < 1 then 1 else cap)), cl_size = 0, cl_seq = 0, cl_subs = [], cl_nextSub = 0\<rparr>"

text \<open>The event as stored: numbered, and stamped with the clock when it has no time.\<close>

definition stamped :: "u64 \<Rightarrow> int \<Rightarrow> commit_event \<Rightarrow> commit_event" where
  "stamped seq now e = e\<lparr>ce_SeqNo := seq, ce_Timestamp := (if ce_Timestamp e = 0 then now else ce_Timestamp e)\<rparr>"

definition cl_Append :: "int \<Rightarrow> commit_event \<Rightarrow> commit_log \<Rightarrow> commit_log" where
  "cl_Append now e l =
     (let seq = cl_seq l + 1;
          e = stamped seq now e
      in l\<lparr>cl_seq := seq, cl_ring := ring_write e (cl_ring l),
           cl_size := (if cl_size l < rg_cap (cl_ring l) then cl_size l + 1 else cl_size l),
           cl_subs := map (\<lambda>(c, buf). (c, if length buf < 64 then buf @ [e] else buf)) (cl_subs l)\<rparr>)"

text \<open>Slot \<open>i\<close> of the occupied part, oldest first; the index arithmetic of all four queries.\<close>

definition cl_slot :: "commit_log \<Rightarrow> nat \<Rightarrow> commit_event" where
  "cl_slot l i =
     (let start = (rg_head (cl_ring l) + rg_cap (cl_ring l) - cl_size l) mod rg_cap (cl_ring l)
      in rg_ring (cl_ring l) ! ((start + i) mod rg_cap (cl_ring l)))"

text \<open>A negative \<open>n\<close> makes the allocation of the result panic.\<close>

definition cl_Recent :: "int \<Rightarrow> commit_log \<Rightarrow> commit_event list option" where
  "cl_Recent n l =
     (let n = (if n > int (cl_size l) then int (cl_size l) else n)
      in if n < 0 then None else Some (map (cl_slot l) [cl_size l - nat n..<cl_size l]))"

definition ByCommitID :: "u64 \<Rightarrow> commit_log \<Rightarrow> commit_event list" where
  "ByCommitID i l = filter (\<lambda>e. ce_CommitID e = i) (map (cl_slot l) [0..<cl_size l])"

definition ByCell :: "string \<Rightarrow> commit_log \<Rightarrow> commit_event list" where
  "ByCell cellID l = filter (\<lambda>e. cellID \<in> set (ce_Affected e)) (map (cl_slot l) [0..<cl_size l])"

definition Since :: "int \<Rightarrow> commit_log \<Rightarrow> commit_event list" where
  "Since t l = filter (\<lambda>e. ce_Timestamp e > t \<or> ce_Timestamp e = t) (map (cl_slot l) [0..<cl_size l])"

definition Subscribe :: "commit_log \<Rightarrow> nat \<times> commit_log" where
  "Subscribe l = (cl_nextSub l, l\<lparr>cl_subs := cl_subs l @ [(cl_nextSub l, [])], cl_nextSub := cl_nextSub l + 1\<rparr>)"

definition Unsubscribe :: "nat \<Rightarrow> commit_log \<Rightarrow> commit_log" where
  "Unsubscribe ch l =
     l\<lparr>cl_subs := takeWhile (\<lambda>(c, b). c \<noteq> ch) (cl_subs l) @ tl (dropWhile (\<lambda>(c, b). c \<noteq> ch) (cl_subs l))\<rparr>"

section \<open>A ring holds the newest part of its history\<close>

text \<open>
  \<open>es\<close> is everything written so far. Entry \<open>k\<close> of the history is in slot \<open>k mod cap\<close> as long as
  it is among the last \<open>cap\<close>; slots not yet reached hold the initial value.
\<close>

definition ring_holds :: "'a \<Rightarrow> 'a list \<Rightarrow> 'a ring \<Rightarrow> bool" where
  "ring_holds z es r \<longleftrightarrow> 0 < rg_cap r \<and> length (rg_ring r) = rg_cap r \<and> rg_head r = length es mod rg_cap r \<and>
     (\<forall>k < length es. length es \<le> k + rg_cap r \<longrightarrow> rg_ring r ! (k mod rg_cap r) = es ! k) \<and>
     (\<forall>j < rg_cap r. length es \<le> j \<longrightarrow> rg_ring r ! j = z)"

lemma ring_holds_new: "0 < cap \<Longrightarrow> ring_holds z [] (ring_new z cap)"
  by (simp add: ring_holds_def ring_new_def)

lemma mod_near_neq:
  assumes "k < (n :: nat)" and "n < k + c"
  shows "k mod c \<noteq> n mod c"
proof
  assume "k mod c = n mod c"
  then have "c dvd n - k" using assms(1) by (metis mod_eq_dvd_iff_nat less_imp_le)
  then show False using assms by (auto dest: dvd_imp_le)
qed

lemma ring_holds_write:
  assumes "ring_holds z es r"
  shows "ring_holds z (es @ [e]) (ring_write e r)"
proof -
  have c: "0 < rg_cap r" "length (rg_ring r) = rg_cap r" "rg_head r = length es mod rg_cap r"
    using assms by (simp_all add: ring_holds_def)
  have "(rg_ring r)[rg_head r := e] ! (k mod rg_cap r) = (es @ [e]) ! k"
    if "k < length (es @ [e])" "length (es @ [e]) \<le> k + rg_cap r" for k
  proof (cases "k = length es")
    case True
    then show ?thesis using c by simp
  next
    case False
    then have "k mod rg_cap r \<noteq> rg_head r" using that c(3) mod_near_neq [of k "length es" "rg_cap r"] by simp
    then show ?thesis using that False assms by (simp add: ring_holds_def nth_append)
  qed
  moreover have "(rg_ring r)[rg_head r := e] ! j = z" if "j < rg_cap r" "length (es @ [e]) \<le> j" for j
    using that assms by (simp add: ring_holds_def)
  ultimately show ?thesis using c by (simp add: ring_holds_def ring_write_def mod_Suc_eq)
qed

text \<open>What the two admin rings share, over the test for an empty slot.\<close>

locale stamped_ring =
  fixes z :: 'a and is_empty :: "'a \<Rightarrow> bool"
  assumes zero_empty: "is_empty z"
begin

lemma back_take:
  assumes "ring_holds z es r" and "\<forall>e \<in> set es. \<not> is_empty e" and "m \<le> length es" and "length es \<le> m + rg_cap r"
    and "n + length es \<le> m + rg_cap r"
  shows "ring_back is_empty n (if m mod rg_cap r = 0 then rg_cap r - 1 else m mod rg_cap r - 1) r = take n (rev (take m es))"
  using assms(3-5)
proof (induction n arbitrary: m)
  case (Suc n)
  have c: "0 < rg_cap r" using assms(1) by (simp add: ring_holds_def)
  show ?case
  proof (cases m)
    case 0
    have "length es \<le> rg_cap r - 1" using Suc.prems 0 by simp
    then have "rg_ring r ! (rg_cap r - 1) = z" using assms(1) c by (simp add: ring_holds_def)
    then show ?thesis using 0 zero_empty by simp
  next
    case (Suc k)
    have idx: "(if m mod rg_cap r = 0 then rg_cap r - 1 else m mod rg_cap r - 1) = k mod rg_cap r"
      unfolding Suc by (auto simp: mod_Suc)
    have k: "k < length es" "length es \<le> k + rg_cap r" using Suc Suc.prems by simp_all
    then have "rg_ring r ! (k mod rg_cap r) = es ! k" "\<not> is_empty (es ! k)" using assms(1,2) by (simp_all add: ring_holds_def)
    moreover have "n + length es \<le> k + rg_cap r" "k \<le> length es" using Suc Suc.prems by simp_all
    ultimately show ?thesis
      unfolding idx using Suc.IH [of k] k Suc by (simp add: Let_def take_Suc_conv_app_nth)
  qed
qed simp

end

interpretation audit: stamped_ring zero_audit "\<lambda>e. au_StartedAt e = 0"
  by unfold_locales (simp add: zero_audit_def)

interpretation lines: stamped_ring zero_log "\<lambda>e. le_T e = 0"
  by unfold_locales (simp add: zero_log_def)

section \<open>The logs return the newest entries\<close>

lemma fold_write_holds: "ring_holds z es r \<Longrightarrow> ring_holds z (es @ xs) (fold ring_write xs r)"
proof (induction xs arbitrary: es r)
  case (Cons x xs)
  from Cons.IH [OF ring_holds_write [OF Cons.prems, of x]] show ?case by simp
qed simp

lemma holds_head: "ring_holds z es r \<Longrightarrow> rg_head r = length es mod rg_cap r"
  by (simp add: ring_holds_def)

lemma rg_cap_fold [simp]: "rg_cap (fold ring_write xs r) = rg_cap r"
  by (induction xs arbitrary: r) (simp_all add: ring_write_def)

text \<open>
  The audit log and the log ring return, newest first, exactly the last \<open>n\<close> entries written,
  however many entries the ring has dropped, and all the entries still held when \<open>n\<close> is not
  positive or larger than the capacity.
\<close>

theorem admin_logs_return_newest:
  assumes "\<forall>e \<in> set es. au_StartedAt e \<noteq> 0" and "\<forall>e \<in> set ls. le_T e \<noteq> 0" and "0 < cap"
  shows "au_Recent n (fold au_Append es (NewAuditLog cap)) = take (nat (if n \<le> 0 \<or> n > cap then cap else n)) (rev es) \<and>
    lr_Recent n (fold lr_Append ls (NewLogRing cap)) = take (nat (if n \<le> 0 \<or> n > cap then cap else n)) (rev ls)"
proof -
  let ?m = "nat (if n \<le> 0 \<or> n > cap then cap else n)"
  have m: "?m \<le> nat cap" by auto
  define a where "a = fold ring_write es (ring_new zero_audit (nat cap))"
  define l where "l = fold ring_write ls (ring_new zero_log (nat cap))"
  have a: "ring_holds zero_audit es a" and l: "ring_holds zero_log ls l"
    using fold_write_holds [OF ring_holds_new, of "nat cap" zero_audit es]
      fold_write_holds [OF ring_holds_new, of "nat cap" zero_log ls] assms(3) by (simp_all add: a_def l_def)
  have ca: "rg_cap a = nat cap" and cl: "rg_cap l = nat cap" by (simp_all add: ring_new_def a_def l_def)
  have eq: "(if n \<le> 0 \<or> n > int (nat cap) then nat cap else nat n) = ?m" using assms(3) by simp
  have "au_Recent n a = take ?m (rev es)"
    unfolding au_Recent_def Let_def holds_head [OF a] using audit.back_take [OF a, of "length es" ?m] assms(1) m unfolding ca eq by simp
  moreover have "lr_Recent n l = take ?m (rev ls)"
    unfolding lr_Recent_def Let_def holds_head [OF l] using lines.back_take [OF l, of "length ls" ?m] assms(2) m unfolding cl eq by simp
  moreover have "fold au_Append es (NewAuditLog cap) = a" "fold lr_Append ls (NewLogRing cap) = l"
    using assms(3) by (simp_all add: a_def l_def au_Append_def lr_Append_def NewAuditLog_def NewLogRing_def)
  ultimately show ?thesis by simp
qed

theorem admin_logs_return_newest_witness:
  "map au_Verb (au_Recent 2 (fold au_Append (map (\<lambda>v. zero_audit\<lparr>au_Verb := v, au_StartedAt := 5\<rparr>) [''a'', ''b'', ''c'', ''d'']) (NewAuditLog 3))) = [''d'', ''c''] \<and>
   map le_Msg (lr_Recent 0 (fold lr_Append (map (\<lambda>v. zero_log\<lparr>le_Msg := v, le_T := 5\<rparr>) [''x'', ''y'', ''z'', ''w'']) (NewLogRing 3))) = [''w'', ''z'', ''y'']"
  using admin_logs_return_newest [of "map (\<lambda>v. zero_audit\<lparr>au_Verb := v, au_StartedAt := 5\<rparr>) [''a'', ''b'', ''c'', ''d'']" "[]" 3 2]
    admin_logs_return_newest [of "[]" "map (\<lambda>v. zero_log\<lparr>le_Msg := v, le_T := 5\<rparr>) [''x'', ''y'', ''z'', ''w'']" 3 0]
  by simp

text \<open>The commit log and its history of stored events.\<close>

definition log_holds :: "commit_event list \<Rightarrow> commit_log \<Rightarrow> bool" where
  "log_holds es l \<longleftrightarrow> ring_holds zero_event es (cl_ring l) \<and> cl_size l = min (length es) (rg_cap (cl_ring l)) \<and>
     cl_seq l = of_nat (length es)"

fun history :: "u64 \<Rightarrow> (int \<times> commit_event) list \<Rightarrow> commit_event list" where
  "history seq [] = []"
| "history seq ((now, e) # es) = stamped (seq + 1) now e # history (seq + 1) es"

lemma log_holds_Append:
  assumes "log_holds es l"
  shows "log_holds (es @ [stamped (cl_seq l + 1) now e]) (cl_Append now e l)"
  using assms ring_holds_write [of zero_event es "cl_ring l" "stamped (cl_seq l + 1) now e"]
  by (auto simp: log_holds_def cl_Append_def Let_def ring_write_def)

lemma log_holds_fold:
  "log_holds es l \<Longrightarrow> log_holds (es @ history (cl_seq l) as) (fold (\<lambda>(now, e). cl_Append now e) as l)"
proof (induction as arbitrary: es l)
  case (Cons a as)
  obtain now e where a: "a = (now, e)" by fastforce
  have "cl_seq (cl_Append now e l) = cl_seq l + 1" by (simp add: cl_Append_def Let_def)
  with Cons.IH [OF log_holds_Append [OF Cons.prems, of now e]] show ?case by (simp add: a)
qed simp

lemma log_slots:
  assumes "log_holds es l"
  shows "map (cl_slot l) [0..<cl_size l] = drop (length es - rg_cap (cl_ring l)) es"
proof (rule nth_equalityI)
  let ?c = "rg_cap (cl_ring l)"
  have c: "0 < ?c" "rg_head (cl_ring l) = length es mod ?c" "cl_size l = min (length es) ?c"
    using assms by (simp_all add: log_holds_def ring_holds_def)
  show "length (map (cl_slot l) [0..<cl_size l]) = length (drop (length es - ?c) es)" using c(3) by simp
  fix i assume "i < length (map (cl_slot l) [0..<cl_size l])"
  then have i: "i < min (length es) ?c" using c(3) by simp
  let ?k = "length es - cl_size l + i"
  have "((length es mod ?c + ?c - cl_size l) mod ?c + i) mod ?c = (length es mod ?c + (?c - cl_size l) + i) mod ?c"
    using c(3) by (simp add: mod_add_left_eq)
  also have "\<dots> = (length es + (?c - cl_size l) + i) mod ?c" by (metis add.assoc mod_add_left_eq)
  also have "length es + (?c - cl_size l) + i = ?k + ?c" using c(3) by simp
  finally have "cl_slot l i = rg_ring (cl_ring l) ! (?k mod ?c)" by (simp add: cl_slot_def Let_def c(2))
  moreover have "?k < length es" "length es \<le> ?k + ?c" "?k = length es - ?c + i" using i c(3) by (auto simp: min_def)
  ultimately show "map (cl_slot l) [0..<cl_size l] ! i = drop (length es - ?c) es ! i"
    using i c(3) assms by (simp add: log_holds_def ring_holds_def)
qed

text \<open>
  Whatever was appended before, the commit log answers every query from the last \<open>cap\<close> events
  of its history, in the order and with the sequence numbers of the appends: \<open>Recent\<close> gives the
  last \<open>n\<close> of them, the other three exactly the ones that match.
\<close>

theorem commit_log_answers_from_history:
  assumes "1 \<le> cap" and "0 \<le> n"
  shows "let l = fold (\<lambda>(now, e). cl_Append now e) as (newCommitLog cap);
             h = drop (length as - nat cap) (history 0 as)
         in cl_Recent n l = Some (drop (length h - nat n) h) \<and> ByCommitID i l = filter (\<lambda>e. ce_CommitID e = i) h \<and>
            ByCell c l = filter (\<lambda>e. c \<in> set (ce_Affected e)) h \<and> Since t l = filter (\<lambda>e. t \<le> ce_Timestamp e) h"
proof -
  define l where "l = fold (\<lambda>(now, e). cl_Append now e) as (newCommitLog cap)"
  have len: "length (history s as) = length as" for s by (induction as arbitrary: s) auto
  have "log_holds [] (newCommitLog cap)" using ring_holds_new [of "nat cap" zero_event] assms(1) by (simp add: log_holds_def newCommitLog_def)
  from log_holds_fold [OF this, of as] have ok: "log_holds (history 0 as) l" by (simp add: l_def newCommitLog_def)
  have "rg_cap (cl_ring (cl_Append now e k)) = rg_cap (cl_ring k)" for now e k by (simp add: cl_Append_def Let_def ring_write_def)
  then have "rg_cap (cl_ring (fold (\<lambda>(now, e). cl_Append now e) xs k)) = rg_cap (cl_ring k)" for xs k
    by (induction xs arbitrary: k) auto
  then have cap: "rg_cap (cl_ring l) = nat cap" using assms(1) by (simp add: l_def newCommitLog_def ring_new_def)
  let ?h = "drop (length as - nat cap) (history 0 as)"
  have slots: "map (cl_slot l) [0..<cl_size l] = ?h" using log_slots [OF ok] cap len by simp
  have size: "cl_size l = length ?h" unfolding slots [symmetric] by simp
  have "map (cl_slot l) [cl_size l - k..<cl_size l] = drop (length ?h - k) ?h" for k
    unfolding slots [symmetric] by (simp add: drop_map size [symmetric])
  moreover have "cl_Recent n l = Some (map (cl_slot l) [cl_size l - nat n..<cl_size l])"
    using assms(2) by (cases "n > int (cl_size l)") (simp_all add: cl_Recent_def Let_def)
  moreover have "Since t l = filter (\<lambda>e. t \<le> ce_Timestamp e) ?h"
    unfolding Since_def slots by (intro filter_cong refl) auto
  ultimately show ?thesis
    unfolding Let_def l_def [symmetric] ByCommitID_def ByCell_def slots by simp
qed

theorem commit_log_answers_from_history_witness:
  "map_option (map ce_SeqNo) (cl_Recent 5 (fold (\<lambda>(now, e). cl_Append now e) (replicate 3 (7, zero_event)) (newCommitLog 2))) = Some [2, 3] \<and>
   map ce_SeqNo (Since 7 (fold (\<lambda>(now, e). cl_Append now e) (replicate 3 (7, zero_event)) (newCommitLog 2))) = [2, 3]"
  using commit_log_answers_from_history [of 2 5 "replicate 3 (7, zero_event)" 0 "''''" 7]
  by (simp add: Let_def numeral_eq_Suc stamped_def zero_event_def)

end
