(* ===== verification/CommitPlans.thy ===== *)
theory CommitPlans
  imports CellTransfer SessionRoutes PlayerDirectory NetIds BoundedLogs "HOL-Library.Char_ord" "HOL-Library.List_Lexorder"
begin

text \<open>
  The commit of a cell transfer (\<open>pkg/universe/cell_transfer_commit.go\<close>, \<open>commit_plan.go\<close>,
  \<open>commit_builders_split.go\<close>, \<open>commit_builders_merge.go\<close>, \<open>commit_builders_migrate.go\<close>, with
  \<open>applyRegistryDelta\<close> of \<open>coordinator.go\<close> and the rewire computation of \<open>partition.go\<close>): the steps
  of each plan on the coordinator's state, the interpreter that runs a plan under invariant checks
  and logs it, and the invariants (\<open>integrity.go\<close>, \<open>conservation.go\<close>). A cell object is a reference
  into a store. A process has at most one local host. What leaves the process (messages to hosts,
  gateways and game loops) is appended to a list; failures of such sends are only logged by the
  source. Moving entities between game loops is not part of this state.
\<close>

section \<open>State\<close>

text \<open>What a scan of a cell's entities on its game loop gives; ghosts and replicas are left out.\<close>

datatype cell_scan = LoopStopped | ScanFailed | LiveEntities "u32 list"

record cell_obj =
  co_CellID :: cell_id
  co_NetIDBase :: u32
  co_Scan :: cell_scan

datatype effect =
    UpstreamSwitch session_key string string u64
  | SessionRegister string session_key u64 string
  | RemoteRelease string string
  | RemoteRename string string string
  | Rewire nat "string \<rightharpoonup> nat"
  | DrainResiduals "nat list" nat
  | TopologyChanged
  | BroadcastPeerList

record process =
  p_Control :: control_plane
  p_Sessions :: session_routes
  p_Directory :: directory
  p_Cells :: "string \<rightharpoonup> nat"
  p_CellOwner :: "cell_id \<rightharpoonup> string"
  p_LocalHost :: "string option"
  p_HostCells :: "cell_id \<rightharpoonup> nat"
  p_Objs :: "nat \<Rightarrow> cell_obj"
  p_NetIDs :: netid_alloc
  p_Cooldowns :: "cell_id \<rightharpoonup> int"
  p_Sent :: "effect list"

text \<open>
  Orders and settings of a commit: the visiting orders of the maps, the base cell size, the
  cooldown if partitioning is on, the clock when the cooldowns are set, the clock at each append to
  the commit log (by its number), the duration of each step.
\<close>

record commit_env =
  ev_orders :: go_orders
  ev_sessions :: "session_key list"
  ev_base :: rat
  ev_cooldown :: "int option"
  ev_now :: int
  ev_cells :: "(string \<rightharpoonup> nat) \<Rightarrow> string list"
  ev_ids :: "(u32 \<rightharpoonup> string) \<Rightarrow> u32 list"
  ev_clock :: "u64 \<Rightarrow> int"
  ev_duration :: "nat \<Rightarrow> int"

record commit_context =
  cc_PreOwnership :: "string \<rightharpoonup> string"
  cc_ParentCell :: "nat option"
  cc_Directives :: "(nat \<times> (string \<rightharpoonup> nat)) list"
  cc_DonorCells :: "nat list"
  cc_Survivor :: "nat option"
  cc_SrcHost :: string
  cc_SrcCell :: "nat option"

definition empty_context :: commit_context where
  "empty_context = \<lparr>cc_PreOwnership = Map.empty, cc_ParentCell = None, cc_Directives = [], cc_DonorCells = [],
     cc_Survivor = None, cc_SrcHost = '''', cc_SrcCell = None\<rparr>"

text \<open>An invariant gives the text of a violation, if there is one; a step gives its error, if it fails.\<close>

type_synonym invariant = "string \<times> (process \<Rightarrow> string option)"

record plan_step =
  ps_Name :: string
  ps_Run :: "process \<times> commit_context \<Rightarrow> string option \<times> process \<times> commit_context"
  ps_Invariants :: "invariant list"

record commit_plan =
  pl_ID :: u64
  pl_Kind :: commit_kind
  pl_Req :: transfer_request
  pl_Steps :: "plan_step list"

text \<open>A step whose source returns \<open>nil\<close> on every path, checked against the default invariants.\<close>

definition plain_step :: "string \<Rightarrow> (process \<times> commit_context \<Rightarrow> process \<times> commit_context) \<Rightarrow> plan_step" where
  "plain_step name f = \<lparr>ps_Name = name, ps_Run = (\<lambda>s. (None, f s)), ps_Invariants = []\<rparr>"

definition mergeNoInvariants :: "invariant list" where
  "mergeNoInvariants = [(''merge-intermediate-ok'', \<lambda>p. None)]"

definition migrateNoInvariants :: "invariant list" where
  "migrateNoInvariants = [(''migrate-intermediate-ok'', \<lambda>p. None)]"

definition send :: "effect list \<Rightarrow> process \<Rightarrow> process" where
  "send es p = p\<lparr>p_Sent := p_Sent p @ es\<rparr>"

section \<open>Shared parts of the plans\<close>

definition snapshotOwnershipLocked :: "go_orders \<Rightarrow> transfer_request \<Rightarrow> process \<Rightarrow> string \<rightharpoonup> string" where
  "snapshotOwnershipLocked o' req p =
     (let m = rq_mutation req;
          out = fold (\<lambda>cmd out. if tc_SrcCellID cmd \<noteq> '''' \<and> tc_SrcHostID cmd \<noteq> '''' then out(tc_SrcCellID cmd \<mapsto> tc_SrcHostID cmd) else out)
            (rq_commands req) Map.empty
      in fold (\<lambda>k out. if out k = None
             then out(k \<mapsto> (case cp_CellToHost (p_Control p) k of Some h \<Rightarrow> h | None \<Rightarrow> '''')) else out)
           (tm_remove m @ o_map o' (tm_add m)) out)"

text \<open>The changes of \<open>cellToHostMap\<close>.\<close>

definition flip_owners :: "topology_mutation \<Rightarrow> control_plane \<Rightarrow> control_plane" where
  "flip_owners m c = c\<lparr>cp_CellToHost := fold (\<lambda>k f. f(k := None)) (tm_remove m) (cp_CellToHost c) ++ tm_add m\<rparr>"

definition applyRegistryDelta :: "go_orders \<Rightarrow> rat \<Rightarrow> topology_mutation \<Rightarrow> (string \<rightharpoonup> string) \<Rightarrow> control_plane \<Rightarrow> control_plane" where
  "applyRegistryDelta o' base m pre c =
     (let release = (\<lambda>k c. case pre k of
             Some prev \<Rightarrow> if prev \<noteq> '''' then release_cell o' base prev k c else c
           | None \<Rightarrow> c);
          claim = (\<lambda>k c. case tm_add m k of
             None \<Rightarrow> c
           | Some newOwner \<Rightarrow>
               (let c = (case pre k of
                      Some prev \<Rightarrow> if prev \<noteq> '''' \<and> prev \<noteq> newOwner then release_cell o' base prev k c else c
                    | None \<Rightarrow> c)
                in assign_cell o' base newOwner k c))
      in if cp_Registry c = None then c
         else fold claim (o_map o' (tm_add m)) (fold release (tm_remove m) c))"

definition computeRewireDirectivesLocked :: "go_orders \<Rightarrow> cell_id list \<Rightarrow> process \<Rightarrow> (nat \<times> (string \<rightharpoonup> nat)) list" where
  "computeRewireDirectivesLocked o' affected p =
     (if affected = [] then []
      else
        (let t = (case cp_Topology (p_Control p) of None \<Rightarrow> Map.empty | Some t \<Rightarrow> t);
             touched = remdups affected @
               filter (\<lambda>cid. cid \<notin> set affected \<and> (\<exists>nc \<in> set (nbrs t cid). nc \<in> set affected)) (o_keys o' t);
             key = (\<lambda>cid. case p_CellOwner p cid of Some k \<Rightarrow> k | None \<Rightarrow> '''')
         in List.map_filter (\<lambda>cid. map_option (\<lambda>node.
               (node, fold (\<lambda>nc m. case p_Cells p (key nc) of Some n \<Rightarrow> m(key nc \<mapsto> n) | None \<Rightarrow> m) (nbrs t cid) Map.empty))
             (p_Cells p (key cid))) (o_front o' touched)))"

definition applyRewireDirectives :: "(nat \<times> (string \<rightharpoonup> nat)) list \<Rightarrow> process \<Rightarrow> process" where
  "applyRewireDirectives dirs = send (map (\<lambda>(cell, ns). Rewire cell ns) dirs)"

text \<open>\<open>hostProxy(h).ReleaseCell\<close>: the local host forgets and stops the cell, a remote one is sent a message.\<close>

definition host_release :: "string \<Rightarrow> string \<Rightarrow> process \<Rightarrow> process" where
  "host_release h cellKey p =
     (if p_LocalHost p = Some h then
        (case Option.bind (ParseCellID cellKey) (p_HostCells p) of
           None \<Rightarrow> p
         | Some cell \<Rightarrow>
             p\<lparr>p_HostCells := (p_HostCells p)(co_CellID (p_Objs p cell) := None),
               p_Objs := (p_Objs p)(cell := (p_Objs p cell)\<lparr>co_Scan := LoopStopped\<rparr>)\<rparr>)
      else send [RemoteRelease h cellKey] p)"

definition renameCellOnNode :: "string \<Rightarrow> string \<Rightarrow> process \<Rightarrow> process" where
  "renameCellOnNode from to p =
     (case Option.bind (ParseCellID from) (p_HostCells p) of
        None \<Rightarrow> p
      | Some cell \<Rightarrow>
          (case ParseCellID to of
             None \<Rightarrow> p
           | Some toCellID \<Rightarrow>
               (let old = co_CellID (p_Objs p cell)
                in p\<lparr>p_HostCells := (p_HostCells p)(old := None, toCellID \<mapsto> cell),
                     p_Cells := (p_Cells p)(from := None, to \<mapsto> cell),
                     p_CellOwner := (p_CellOwner p)(old := None, toCellID \<mapsto> to),
                     p_Objs := (p_Objs p)(cell := (p_Objs p cell)\<lparr>co_CellID := toCellID\<rparr>)\<rparr>)))"

definition host_rename :: "string \<Rightarrow> string \<Rightarrow> string \<Rightarrow> process \<Rightarrow> process" where
  "host_rename h from to p = (if p_LocalHost p = Some h then renameCellOnNode from to p else send [RemoteRename h from to] p)"

definition release_netid :: "nat \<Rightarrow> process \<Rightarrow> process" where
  "release_netid cell p = p\<lparr>p_NetIDs := na_Release (co_NetIDBase (p_Objs p cell)) (p_NetIDs p)\<rparr>"

text \<open>Moving one session to its new cell and host: table, directory, destination host, gateway.\<close>

definition move_session :: "string \<Rightarrow> string \<Rightarrow> session_key \<Rightarrow> string \<Rightarrow> process \<Rightarrow> process" where
  "move_session destHost destCell key username p =
     (case Migrate key destHost destCell (p_Sessions p) of
        (r, newEpoch, ok) \<Rightarrow>
          if \<not> ok then p
          else send [SessionRegister destHost key newEpoch destCell, UpstreamSwitch key destHost destCell newEpoch]
                 (p\<lparr>p_Sessions := r,
                   p_Directory := (if username \<noteq> '''' then notifySessionActive username destHost destCell (p_Directory p) else p_Directory p)\<rparr>))"

definition move_sessions :: "(session_key \<times> string \<times> string \<times> string) list \<Rightarrow> process \<Rightarrow> process" where
  "move_sessions = fold (\<lambda>(key, username, destCell, destHost). move_session destHost destCell key username)"

section \<open>Split\<close>

definition stepSplitApplyCoordMutation :: "commit_env \<Rightarrow> transfer_request \<Rightarrow> process \<times> commit_context \<Rightarrow> process \<times> commit_context" where
  "stepSplitApplyCoordMutation ev req = (\<lambda>(p, ctx).
     (let parent = rq_SrcCell req;
          children = Children parent;
          parentKey = MeshID parent;
          pre = snapshotOwnershipLocked (ev_orders ev) req p;
          p = p\<lparr>p_Control := flip_owners (rq_mutation req) (p_Control p)\<rparr>;
          parentCell = p_Cells p parentKey;
          p = (if parentCell \<noteq> None
               then p\<lparr>p_Cells := (p_Cells p)(parentKey := None), p_CellOwner := (p_CellOwner p)(parent := None)\<rparr> else p);
          ctx = ctx\<lparr>cc_PreOwnership := pre, cc_ParentCell := parentCell\<rparr>
      in case cp_Topology (p_Control p) of
           None \<Rightarrow> (p, ctx\<lparr>cc_Directives := []\<rparr>)
         | Some t \<Rightarrow>
             (let t = UpdateAfterSplit parent children (ev_base ev) t;
                  t = RebuildNeighborsFor (o_keys (ev_orders ev) t) (o_front (ev_orders ev)) children (ev_base ev) t;
                  p = p\<lparr>p_Control := (p_Control p)\<lparr>cp_Topology := Some t\<rparr>\<rparr>
              in (p, ctx\<lparr>cc_Directives := computeRewireDirectivesLocked (ev_orders ev) children p\<rparr>))))"

definition stepApplyRewireDirectives :: "process \<times> commit_context \<Rightarrow> process \<times> commit_context" where
  "stepApplyRewireDirectives = (\<lambda>(p, ctx). (applyRewireDirectives (cc_Directives ctx) p, ctx))"

definition split_target :: "transfer_request \<Rightarrow> session_route \<Rightarrow> (session_key \<times> string \<times> string \<times> string) option" where
  "split_target req route =
     (let add = tm_add (rq_mutation req);
          fallbackChildKey = MeshID (Children (rq_SrcCell req) ! 0);
          fallbackHost = (case add fallbackChildKey of Some h \<Rightarrow> h | None \<Rightarrow> '''')
      in if sr_CellID route \<noteq> MeshID (rq_SrcCell req) then None
         else
           (let destCell = (case rq_adoptedUsers req (sr_Username route) of Some k \<Rightarrow> k | None \<Rightarrow> fallbackChildKey);
                destHost = (case add destCell of Some h \<Rightarrow> h | None \<Rightarrow> '''');
                destHost = (if destHost = '''' then fallbackHost else destHost)
            in Some (sr_Key route, sr_Username route, destCell, destHost)))"

definition stepSplitRemapSessions :: "commit_env \<Rightarrow> transfer_request \<Rightarrow> process \<times> commit_context \<Rightarrow> process \<times> commit_context" where
  "stepSplitRemapSessions ev req = (\<lambda>(p, ctx).
     (move_sessions (sr_collect (ev_sessions ev) (split_target req) (p_Sessions p)) p, ctx))"

definition stepApplyRegistryDelta :: "commit_env \<Rightarrow> transfer_request \<Rightarrow> process \<times> commit_context \<Rightarrow> process \<times> commit_context" where
  "stepApplyRegistryDelta ev req = (\<lambda>(p, ctx).
     (p\<lparr>p_Control := applyRegistryDelta (ev_orders ev) (ev_base ev) (rq_mutation req) (cc_PreOwnership ctx) (p_Control p)\<rparr>, ctx))"

definition stepSplitReleaseParentHost :: "transfer_request \<Rightarrow> process \<times> commit_context \<Rightarrow> process \<times> commit_context" where
  "stepSplitReleaseParentHost req = (\<lambda>(p, ctx).
     (let p = (case rq_commands req of
            [] \<Rightarrow> p
          | cmd # _ \<Rightarrow> if tc_SrcHostID cmd \<noteq> '''' then host_release (tc_SrcHostID cmd) (MeshID (rq_SrcCell req)) p else p);
          p = (case cc_ParentCell ctx of None \<Rightarrow> p | Some cell \<Rightarrow> release_netid cell p)
      in (p, ctx)))"

definition stepSplitPrimeCooldowns :: "commit_env \<Rightarrow> transfer_request \<Rightarrow> process \<times> commit_context \<Rightarrow> process \<times> commit_context" where
  "stepSplitPrimeCooldowns ev req = (\<lambda>(p, ctx).
     (case ev_cooldown ev of
        None \<Rightarrow> (p, ctx)
      | Some d \<Rightarrow>
          (send [TopologyChanged]
             (p\<lparr>p_Cooldowns := fold (\<lambda>ch m. m(ch \<mapsto> ev_now ev + d)) (Children (rq_SrcCell req)) (p_Cooldowns p)\<rparr>), ctx)))"

definition stepBroadcastPeerList :: "process \<times> commit_context \<Rightarrow> process \<times> commit_context" where
  "stepBroadcastPeerList = (\<lambda>(p, ctx). (send [BroadcastPeerList] p, ctx))"

definition buildSplitPlan :: "commit_env \<Rightarrow> transfer_request \<Rightarrow> commit_plan" where
  "buildSplitPlan ev req =
     \<lparr>pl_ID = rq_ID req, pl_Kind = CommitKindSplit, pl_Req = req, pl_Steps =
       [plain_step ''apply-coord-mutation'' (stepSplitApplyCoordMutation ev req),
        plain_step ''apply-rewire-directives'' stepApplyRewireDirectives,
        plain_step ''remap-sessions'' (stepSplitRemapSessions ev req),
        plain_step ''apply-registry-delta'' (stepApplyRegistryDelta ev req),
        plain_step ''release-parent-host'' (stepSplitReleaseParentHost req),
        plain_step ''prime-cooldowns'' (stepSplitPrimeCooldowns ev req),
        plain_step ''broadcast-peer-list'' stepBroadcastPeerList]\<rparr>"

section \<open>Merge\<close>

text \<open>The loop over the siblings: the survivor is skipped, the others leave the cell maps; donors are collected.\<close>

definition detach_donors :: "string \<Rightarrow> cell_id list \<Rightarrow> process \<Rightarrow> process \<times> nat list" where
  "detach_donors survivorKey siblings p =
     fold (\<lambda>sib (p, donors).
         if MeshID sib = survivorKey then (p, donors)
         else
           (case p_Cells p (MeshID sib) of
              None \<Rightarrow> (p\<lparr>p_CellOwner := (p_CellOwner p)(sib := None)\<rparr>, donors)
            | Some cell \<Rightarrow> (p\<lparr>p_Cells := (p_Cells p)(MeshID sib := None), p_CellOwner := (p_CellOwner p)(sib := None)\<rparr>, donors @ [cell])))
       siblings (p, [])"

definition survivor_key :: "transfer_request \<Rightarrow> string" where
  "survivor_key req = (case rq_commands req of [] \<Rightarrow> '''' | cmd # _ \<Rightarrow> tc_DestCellID cmd)"

definition stepMergeApplyCoordMutation :: "commit_env \<Rightarrow> transfer_request \<Rightarrow> process \<times> commit_context \<Rightarrow> process \<times> commit_context" where
  "stepMergeApplyCoordMutation ev req = (\<lambda>(p, ctx).
     (let parent = rq_SrcCell req;
          siblings = Children parent;
          parentKey = MeshID parent;
          survivorKey = survivor_key req;
          pre = snapshotOwnershipLocked (ev_orders ev) req p;
          p = p\<lparr>p_Control := flip_owners (rq_mutation req) (p_Control p)\<rparr>;
          (p, donorCells) = detach_donors survivorKey siblings p;
          survivorID = find (\<lambda>sib. MeshID sib = survivorKey) (rev siblings);
          survivor = (if survivorID \<noteq> None \<and> survivorKey \<noteq> '''' then p_Cells p survivorKey else None);
          p = (case p_Cells p survivorKey of
                 None \<Rightarrow> p
               | Some local \<Rightarrow>
                   p\<lparr>p_Cells := (p_Cells p)(survivorKey := None, parentKey \<mapsto> local),
                     p_CellOwner := (p_CellOwner p)((case survivorID of Some sib \<Rightarrow> sib | None \<Rightarrow> mk_cell 0 0 0) := None, parent \<mapsto> parentKey)\<rparr>);
          ctx = ctx\<lparr>cc_PreOwnership := pre, cc_DonorCells := donorCells, cc_Survivor := survivor\<rparr>
      in case cp_Topology (p_Control p) of
           None \<Rightarrow> (p, ctx\<lparr>cc_Directives := []\<rparr>)
         | Some t \<Rightarrow>
             (let t = UpdateAfterMerge (o_ext1 (ev_orders ev)) (o_ext2 (ev_orders ev)) siblings parent (ev_base ev) t;
                  t = RebuildNeighborsFor (o_keys (ev_orders ev) t) (o_front (ev_orders ev)) [parent] (ev_base ev) t;
                  p = p\<lparr>p_Control := (p_Control p)\<lparr>cp_Topology := Some t\<rparr>\<rparr>
              in (p, ctx\<lparr>cc_Directives := computeRewireDirectivesLocked (ev_orders ev) [parent] p\<rparr>))))"

definition stepMergeRenameSurvivorHost :: "transfer_request \<Rightarrow> process \<times> commit_context \<Rightarrow> process \<times> commit_context" where
  "stepMergeRenameSurvivorHost req = (\<lambda>(p, ctx).
     (let parentKey = MeshID (rq_SrcCell req);
          survivorKey = survivor_key req
      in if survivorKey \<noteq> '''' \<and> survivorKey \<noteq> parentKey then
           (case tm_add (rq_mutation req) parentKey of
              None \<Rightarrow> (p, ctx)
            | Some survivorHost \<Rightarrow> if survivorHost \<noteq> '''' then (host_rename survivorHost survivorKey parentKey p, ctx) else (p, ctx))
         else (p, ctx)))"

definition merge_affected :: "transfer_request \<Rightarrow> string set" where
  "merge_affected req =
     (if survivor_key req \<noteq> '''' then {survivor_key req} else {}) \<union>
     {tc_SrcCellID cmd | cmd. cmd \<in> set (rq_commands req) \<and> tc_Kind cmd = CellTransferMerge \<and> tc_SrcCellID cmd \<noteq> ''''}"

definition merge_target :: "transfer_request \<Rightarrow> session_route \<Rightarrow> (session_key \<times> string \<times> string \<times> string) option" where
  "merge_target req route =
     (let parentKey = MeshID (rq_SrcCell req);
          parentHost = (case tm_add (rq_mutation req) parentKey of Some h \<Rightarrow> h | None \<Rightarrow> '''')
      in if sr_CellID route \<in> merge_affected req then Some (sr_Key route, sr_Username route, parentKey, parentHost) else None)"

definition stepMergeRemapSessions :: "commit_env \<Rightarrow> transfer_request \<Rightarrow> process \<times> commit_context \<Rightarrow> process \<times> commit_context" where
  "stepMergeRemapSessions ev req = (\<lambda>(p, ctx).
     (move_sessions (sr_collect (ev_sessions ev) (merge_target req) (p_Sessions p)) p, ctx))"

definition stepMergeDrainDonorResiduals :: "process \<times> commit_context \<Rightarrow> process \<times> commit_context" where
  "stepMergeDrainDonorResiduals = (\<lambda>(p, ctx).
     (case cc_Survivor ctx of
        None \<Rightarrow> (p, ctx)
      | Some survivor \<Rightarrow>
          if cc_DonorCells ctx = [] then (p, ctx)
          else (send (replicate 2 (DrainResiduals (cc_DonorCells ctx) survivor)) p, ctx)))"

definition stepMergeReleaseDonors :: "transfer_request \<Rightarrow> process \<times> commit_context \<Rightarrow> process \<times> commit_context" where
  "stepMergeReleaseDonors req = (\<lambda>(p, ctx).
     (fold (\<lambda>cmd p. if tc_Kind cmd \<noteq> CellTransferMerge \<or> tc_SrcCellID cmd = '''' \<or> tc_SrcHostID cmd = '''' then p
          else host_release (tc_SrcHostID cmd) (tc_SrcCellID cmd) p) (rq_commands req) p, ctx))"

definition stepMergeReleaseDonorNetIDs :: "process \<times> commit_context \<Rightarrow> process \<times> commit_context" where
  "stepMergeReleaseDonorNetIDs = (\<lambda>(p, ctx). (fold release_netid (cc_DonorCells ctx) p, ctx))"

definition stepMergePrimeCooldowns :: "commit_env \<Rightarrow> transfer_request \<Rightarrow> process \<times> commit_context \<Rightarrow> process \<times> commit_context" where
  "stepMergePrimeCooldowns ev req = (\<lambda>(p, ctx).
     (case ev_cooldown ev of
        None \<Rightarrow> (p, ctx)
      | Some d \<Rightarrow>
          (send [TopologyChanged]
             (p\<lparr>p_Cooldowns := fold (\<lambda>sib m. m(sib := None)) (Children (rq_SrcCell req))
               ((p_Cooldowns p)(rq_SrcCell req \<mapsto> ev_now ev + d))\<rparr>), ctx)))"

definition buildMergePlan :: "commit_env \<Rightarrow> transfer_request \<Rightarrow> commit_plan" where
  "buildMergePlan ev req =
     \<lparr>pl_ID = rq_ID req, pl_Kind = CommitKindMerge, pl_Req = req, pl_Steps =
       [(plain_step ''apply-coord-mutation'' (stepMergeApplyCoordMutation ev req))\<lparr>ps_Invariants := mergeNoInvariants\<rparr>,
        plain_step ''rename-survivor-host'' (stepMergeRenameSurvivorHost req),
        plain_step ''apply-rewire-directives'' stepApplyRewireDirectives,
        plain_step ''remap-sessions'' (stepMergeRemapSessions ev req),
        plain_step ''apply-registry-delta'' (stepApplyRegistryDelta ev req),
        plain_step ''drain-donor-residuals'' stepMergeDrainDonorResiduals,
        plain_step ''release-donors'' (stepMergeReleaseDonors req),
        plain_step ''release-donor-netids'' stepMergeReleaseDonorNetIDs,
        plain_step ''prime-cooldowns'' (stepMergePrimeCooldowns ev req),
        plain_step ''broadcast-peer-list'' stepBroadcastPeerList]\<rparr>"

section \<open>Migrate\<close>

definition stepMigrateApplyCoordMutation :: "commit_env \<Rightarrow> transfer_request \<Rightarrow> process \<times> commit_context \<Rightarrow> process \<times> commit_context" where
  "stepMigrateApplyCoordMutation ev req = (\<lambda>(p, ctx).
     (let src = rq_SrcCell req;
          srcCellKey = MeshID src;
          destHost = (case tm_add (rq_mutation req) srcCellKey of Some h \<Rightarrow> h | None \<Rightarrow> '''');
          pre = snapshotOwnershipLocked (ev_orders ev) req p;
          srcHost = (case pre srcCellKey of Some h \<Rightarrow> h | None \<Rightarrow> '''');
          p = p\<lparr>p_Control := (p_Control p)\<lparr>cp_CellToHost := (cp_CellToHost (p_Control p))(srcCellKey \<mapsto> destHost)\<rparr>\<rparr>;
          srcCell = (if p_LocalHost p = Some srcHost then p_HostCells p src else None);
          p = (case (if p_LocalHost p = Some destHost then p_HostCells p src else None) of
                 Some newCell \<Rightarrow> p\<lparr>p_Cells := (p_Cells p)(srcCellKey \<mapsto> newCell), p_CellOwner := (p_CellOwner p)(src \<mapsto> srcCellKey)\<rparr>
               | None \<Rightarrow> p)
      in (p, ctx\<lparr>cc_PreOwnership := pre, cc_SrcHost := srcHost, cc_SrcCell := srcCell\<rparr>)))"

definition stepMigrateRemapSessions :: "commit_env \<Rightarrow> transfer_request \<Rightarrow> process \<times> commit_context \<Rightarrow> process \<times> commit_context" where
  "stepMigrateRemapSessions ev req = (\<lambda>(p, ctx).
     (let srcCellKey = MeshID (rq_SrcCell req);
          destHost = (case tm_add (rq_mutation req) srcCellKey of Some h \<Rightarrow> h | None \<Rightarrow> '''');
          (r, results) = remapHostCell (ev_sessions ev) (\<lambda>cellID. cellID = srcCellKey) destHost srcCellKey (p_Sessions p)
      in (send (concat (map (\<lambda>(key, epoch). [UpstreamSwitch key destHost srcCellKey epoch, SessionRegister destHost key epoch srcCellKey]) results))
            (p\<lparr>p_Sessions := r\<rparr>), ctx)))"

definition stepMigrateReleaseSrcHost :: "transfer_request \<Rightarrow> process \<times> commit_context \<Rightarrow> process \<times> commit_context" where
  "stepMigrateReleaseSrcHost req = (\<lambda>(p, ctx). (host_release (cc_SrcHost ctx) (MeshID (rq_SrcCell req)) p, ctx))"

definition stepMigrateReleaseSrcNetID :: "process \<times> commit_context \<Rightarrow> process \<times> commit_context" where
  "stepMigrateReleaseSrcNetID = (\<lambda>(p, ctx). (case cc_SrcCell ctx of None \<Rightarrow> p | Some cell \<Rightarrow> release_netid cell p, ctx))"

definition buildMigratePlan :: "commit_env \<Rightarrow> transfer_request \<Rightarrow> commit_plan" where
  "buildMigratePlan ev req =
     \<lparr>pl_ID = rq_ID req, pl_Kind = CommitKindMigrate, pl_Req = req, pl_Steps =
       [(plain_step ''apply-coord-mutation'' (stepMigrateApplyCoordMutation ev req))\<lparr>ps_Invariants := migrateNoInvariants\<rparr>,
        plain_step ''remap-sessions'' (stepMigrateRemapSessions ev req),
        plain_step ''apply-registry-delta'' (stepApplyRegistryDelta ev req),
        plain_step ''release-src-host'' (stepMigrateReleaseSrcHost req),
        plain_step ''release-src-netid'' stepMigrateReleaseSrcNetID,
        plain_step ''broadcast-peer-list'' stepBroadcastPeerList]\<rparr>"

section \<open>Invariants\<close>

definition violated :: "string \<Rightarrow> bool \<Rightarrow> string option" where
  "violated msg holds = (if holds then None else Some msg)"

definition coord_maps_consistent :: "process \<Rightarrow> bool" where
  "coord_maps_consistent p \<longleftrightarrow>
     (\<forall>key cell. p_Cells p key = Some cell \<longrightarrow> p_CellOwner p (co_CellID (p_Objs p cell)) = Some key) \<and>
     (\<forall>cellID key. p_CellOwner p cellID = Some key \<longrightarrow> (\<exists>cell. p_Cells p key = Some cell \<and> co_CellID (p_Objs p cell) = cellID))"

definition host_ownership_matches :: "process \<Rightarrow> bool" where
  "host_ownership_matches p \<longleftrightarrow>
     (\<forall>cellKey hostID. cp_CellToHost (p_Control p) cellKey = Some hostID \<longrightarrow> p_LocalHost p = Some hostID \<longrightarrow>
       (\<exists>cell. p_Cells p cellKey = Some cell \<and> p_HostCells p (co_CellID (p_Objs p cell)) \<noteq> None))"

definition topology_owned :: "go_orders \<Rightarrow> process \<Rightarrow> bool" where
  "topology_owned o' p \<longleftrightarrow>
     (\<forall>t. cp_Topology (p_Control p) = Some t \<longrightarrow>
       (\<forall>cell \<in> dom t. OwnerOf o' (MeshID cell) (p_Control p) \<noteq> None \<and>
         (\<forall>n \<in> set (nbrs t cell). OwnerOf o' (MeshID n) (p_Control p) \<noteq> None)))"

definition session_hosts_live :: "process \<Rightarrow> bool" where
  "session_hosts_live p \<longleftrightarrow>
     (\<forall>r. cp_Registry (p_Control p) = Some r \<longrightarrow>
       (\<forall>v \<in> ran (p_Sessions p). sr_HostID v = '''' \<or> hr_Get (sr_HostID v) r \<noteq> None))"

definition no_duplicate_presence :: "process \<Rightarrow> bool" where
  "no_duplicate_presence p \<longleftrightarrow>
     (\<forall>cell \<in> ran (p_Cells p). case co_Scan (p_Objs p cell) of
        LoopStopped \<Rightarrow> True | ScanFailed \<Rightarrow> False | LiveEntities ids \<Rightarrow> distinct ids)"

definition defaultInvariants :: "go_orders \<Rightarrow> invariant list" where
  "defaultInvariants o' =
     [(''coord-maps-consistent'', violated ''cell maps differ'' \<circ> coord_maps_consistent),
      (''host-ownership-matches-coord'', violated ''host lacks a cell'' \<circ> host_ownership_matches),
      (''topology-neighbors-owned'', violated ''cell without owner'' \<circ> topology_owned o'),
      (''session-route-host-live'', violated ''host is not registered'' \<circ> session_hosts_live),
      (''no-duplicate-presence-per-cell'', violated ''duplicate or unreadable'' \<circ> no_duplicate_presence)]"

datatype invariant_mode = InvariantOff | InvariantLog | InvariantPanic

definition log_event :: "commit_env \<Rightarrow> commit_event \<Rightarrow> commit_log \<Rightarrow> commit_log" where
  "log_event ev e l = cl_Append (ev_clock ev (cl_seq l + 1)) e l"

text \<open>The checks in order; a violation is logged, and in panic mode it ends the process: \<open>None\<close>.\<close>

fun check_all :: "commit_env \<Rightarrow> invariant_mode \<Rightarrow> invariant list \<Rightarrow> string \<Rightarrow> process \<Rightarrow> commit_log \<Rightarrow> commit_log option" where
  "check_all ev mode [] contextMsg p l = Some l"
| "check_all ev mode ((name, chk) # invs) contextMsg p l =
     (case chk p of
        None \<Rightarrow> check_all ev mode invs contextMsg p l
      | Some err \<Rightarrow>
          (let l = log_event ev (zero_event\<lparr>ce_Kind := EventInvariantViolation, ce_StepIndex := -1, ce_Step := name,
                     ce_Error := err, ce_Context := [(''where'', contextMsg)]\<rparr>) l
           in if mode = InvariantPanic then None else check_all ev mode invs contextMsg p l))"

definition CheckInvariants :: "commit_env \<Rightarrow> invariant_mode \<Rightarrow> invariant list \<Rightarrow> string \<Rightarrow> process \<Rightarrow> commit_log \<Rightarrow> commit_log option" where
  "CheckInvariants ev mode invs contextMsg p l = (if mode = InvariantOff then Some l else check_all ev mode invs contextMsg p l)"

section \<open>Conservation of entities\<close>

fun census_loop :: "process \<Rightarrow> string list \<Rightarrow> (u32 \<rightharpoonup> string) \<Rightarrow> (u32 \<rightharpoonup> string) option" where
  "census_loop p [] census = Some census"
| "census_loop p (cellKey # ks) census =
     (case p_Cells p cellKey of
        None \<Rightarrow> census_loop p ks census
      | Some cell \<Rightarrow>
          (case co_Scan (p_Objs p cell) of
             LoopStopped \<Rightarrow> census_loop p ks census
           | ScanFailed \<Rightarrow> None
           | LiveEntities ids \<Rightarrow> census_loop p ks (fold (\<lambda>i m. m(i \<mapsto> cellKey)) ids census)))"

definition liveEntityCensus :: "commit_env \<Rightarrow> process \<Rightarrow> (u32 \<rightharpoonup> string) option" where
  "liveEntityCensus ev p = census_loop p (ev_cells ev (p_Cells p)) Map.empty"

text \<open>The lost entities, ascending, and the cells they were on; \<open>None\<close> when nothing was lost.\<close>

definition cellsOf :: "(u32 \<rightharpoonup> string) \<Rightarrow> u32 list \<Rightarrow> string list" where
  "cellsOf before lost = sort (remdups (map (\<lambda>i. case before i of Some k \<Rightarrow> k | None \<Rightarrow> '''') lost))"

definition checkEntityConservation ::
  "commit_env \<Rightarrow> (u32 \<rightharpoonup> string) \<Rightarrow> (u32 \<rightharpoonup> string) \<Rightarrow> string \<Rightarrow> (u32 list \<times> string list) option" where
  "checkEntityConservation ev before after departedCell =
     (let lost = filter (\<lambda>netID. after netID = None \<and> \<not> (departedCell \<noteq> '''' \<and> before netID = Some departedCell)) (ev_ids ev before);
          lost = sort lost
      in if lost = [] then None else Some (lost, cellsOf before lost))"

definition departedCellFor :: "commit_plan \<Rightarrow> string" where
  "departedCellFor plan = (if pl_Kind plan = CommitKindMigrate then MeshID (rq_SrcCell (pl_Req plan)) else '''')"

definition kind_String :: "commit_kind \<Rightarrow> string" where
  "kind_String k = (case k of CommitKindSplit \<Rightarrow> ''Split'' | CommitKindMerge \<Rightarrow> ''Merge'' | CommitKindMigrate \<Rightarrow> ''Migrate'')"

definition where_msg :: "commit_plan \<Rightarrow> string \<Rightarrow> string" where
  "where_msg plan point = ''commit '' @ show_nat (unat (pl_ID plan)) @ '' '' @ point @ '' ('' @ kind_String (pl_Kind plan) @ '')''"

definition reportConservation ::
  "commit_env \<Rightarrow> invariant_mode \<Rightarrow> commit_plan \<Rightarrow> (u32 \<rightharpoonup> string) \<Rightarrow> process \<Rightarrow> commit_log \<Rightarrow> commit_log option" where
  "reportConservation ev mode plan before p l =
     (case liveEntityCensus ev p of
        None \<Rightarrow> Some l
      | Some after \<Rightarrow>
          (case checkEntityConservation ev before after (departedCellFor plan) of
             None \<Rightarrow> Some l
           | Some lost \<Rightarrow>
               (let l = log_event ev (zero_event\<lparr>ce_CommitID := pl_ID plan, ce_Kind := EventInvariantViolation, ce_StepIndex := -1,
                          ce_Step := ''entity-conservation'', ce_Error := ''entities vanished'',
                          ce_Context := [(''where'', where_msg plan ''exit'')]\<rparr>) l
                in if mode = InvariantPanic then None else Some l)))"

section \<open>The interpreter\<close>

definition plan_event :: "commit_plan \<Rightarrow> int \<Rightarrow> string \<Rightarrow> commit_event" where
  "plan_event plan i step = zero_event\<lparr>ce_CommitID := pl_ID plan, ce_Kind := commitKindToEvent (pl_Kind plan),
     ce_Scenario := pl_Kind plan, ce_StepIndex := i, ce_Step := step, ce_Success := True\<rparr>"

text \<open>The loop over the steps: \<open>None\<close> is a panic, an error ends the loop.\<close>

fun run_steps ::
  "commit_env \<Rightarrow> invariant_mode \<Rightarrow> commit_plan \<Rightarrow> nat \<Rightarrow> plan_step list \<Rightarrow> (process \<times> commit_context) \<times> commit_log \<Rightarrow>
     (string option \<times> (process \<times> commit_context) \<times> commit_log) option" where
  "run_steps ev mode plan i [] s = Some (None, s)"
| "run_steps ev mode plan i (step # steps) (s, l) =
     (case ps_Run step s of
        (err, s) \<Rightarrow>
          (let l = log_event ev ((plan_event plan (int i) (ps_Name step))\<lparr>ce_Success := (err = None), ce_DurationMs := ev_duration ev i,
                     ce_Error := (case err of None \<Rightarrow> '''' | Some e \<Rightarrow> e)\<rparr>) l
           in case err of
                Some e \<Rightarrow> Some (Some e, s, l)
              | None \<Rightarrow>
                  (let invs = (if ps_Invariants step = [] then defaultInvariants (ev_orders ev) else ps_Invariants step)
                   in case CheckInvariants ev mode invs (''commit '' @ show_nat (unat (pl_ID plan)) @ '' after '' @ ps_Name step) (fst s) l of
                        None \<Rightarrow> None
                      | Some l \<Rightarrow> run_steps ev mode plan (i + 1) steps (s, l))))"

definition ExecuteCommitPlan ::
  "commit_env \<Rightarrow> invariant_mode \<Rightarrow> commit_plan \<Rightarrow> process \<Rightarrow> commit_log \<Rightarrow> (string option \<times> process \<times> commit_log) option" where
  "ExecuteCommitPlan ev mode plan p l =
     (let invs = defaultInvariants (ev_orders ev);
          l = log_event ev (plan_event plan (- 1) ''begin'') l
      in case CheckInvariants ev mode invs (where_msg plan ''entry'') p l of
           None \<Rightarrow> None
         | Some l \<Rightarrow>
             (let censusBefore = (if mode \<noteq> InvariantOff then liveEntityCensus ev p else None)
              in case run_steps ev mode plan 0 (pl_Steps plan) ((p, empty_context), l) of
                   None \<Rightarrow> None
                 | Some (Some err, (p, ctx), l) \<Rightarrow> Some (Some err, p, l)
                 | Some (None, (p, ctx), l) \<Rightarrow>
                     (case CheckInvariants ev mode invs (where_msg plan ''exit'') p l of
                        None \<Rightarrow> None
                      | Some l \<Rightarrow>
                          (case (case censusBefore of None \<Rightarrow> Some l | Some before \<Rightarrow> reportConservation ev mode plan before p l) of
                             None \<Rightarrow> None
                           | Some l \<Rightarrow> Some (None, p, log_event ev (plan_event plan (- 1) ''end'') l)))))"

text \<open>The error of a plan is only logged by the three commits.\<close>

definition apply_plan :: "commit_env \<Rightarrow> invariant_mode \<Rightarrow> commit_plan \<Rightarrow> process \<times> commit_log \<Rightarrow> (process \<times> commit_log) option" where
  "apply_plan ev mode plan = (\<lambda>(p, l). map_option snd (ExecuteCommitPlan ev mode plan p l))"

definition applySplitCommit :: "commit_env \<Rightarrow> invariant_mode \<Rightarrow> transfer_request \<Rightarrow> process \<times> commit_log \<Rightarrow> (process \<times> commit_log) option" where
  "applySplitCommit ev mode req = apply_plan ev mode (buildSplitPlan ev req)"

definition applyMergeCommit :: "commit_env \<Rightarrow> invariant_mode \<Rightarrow> transfer_request \<Rightarrow> process \<times> commit_log \<Rightarrow> (process \<times> commit_log) option" where
  "applyMergeCommit ev mode req = apply_plan ev mode (buildMergePlan ev req)"

definition applyMigrateCommit :: "commit_env \<Rightarrow> invariant_mode \<Rightarrow> transfer_request \<Rightarrow> process \<times> commit_log \<Rightarrow> (process \<times> commit_log) option" where
  "applyMigrateCommit ev mode req = apply_plan ev mode (buildMigratePlan ev req)"

definition applyCellTransferCommit ::
  "commit_env \<Rightarrow> invariant_mode \<Rightarrow> transfer_request \<Rightarrow> process \<times> commit_log \<Rightarrow> (process \<times> commit_log) option" where
  "applyCellTransferCommit ev mode req s =
     (case rq_Kind req of
        CellTransferSplit \<Rightarrow> applySplitCommit ev mode req s
      | CellTransferMerge \<Rightarrow> applyMergeCommit ev mode req s
      | CellTransferMigrate \<Rightarrow> applyMigrateCommit ev mode req s
      | CellTransferUnspecified \<Rightarrow> (case s of (p, l) \<Rightarrow> Some (p\<lparr>p_Control := flip_owners (rq_mutation req) (p_Control p)\<rparr>, l)))"

end
