(* ===== verification/CommitEffects.thy ===== *)
theory CommitEffects
  imports CommitPlans
begin

text \<open>
  What the commits do to the coordinator: after a split, merge or migrate commit the ownership
  lookup, the neighbour graph and the session table agree with the new layout. The registry delta,
  the ownership snapshot and the session loop are treated once and used by all three.
\<close>

section \<open>The registry delta\<close>

text \<open>The neighbour graph is the full one on the cells \<open>D\<close>, and the orders list every graph on \<open>D\<close>.\<close>

definition mesh_on :: "rat \<Rightarrow> cell_id set \<Rightarrow> control_plane \<Rightarrow> bool" where
  "mesh_on base D c \<longleftrightarrow> (\<exists>t. cp_Topology c = Some t \<and> topo_ok base t \<and> dom t = D)"

definition lists_graphs :: "go_orders \<Rightarrow> cell_id set \<Rightarrow> bool" where
  "lists_graphs o' D \<longleftrightarrow> (\<forall>t. dom t = D \<longrightarrow> enumerates (o_keys o' t) t)"

lemma topo_ok_rebuild:
  assumes "topo_ok base t" and "enumerates keys t"
  shows "topo_ok base (RebuildNeighborsFor keys ord affected base t)" and "dom (RebuildNeighborsFor keys ord affected base t) = dom t"
proof -
  have t: "consistent (\<lambda>a b. AreAdjacent a b base) t" and k: "distinct keys" "set keys = dom t"
    using assms by (simp_all add: topo_ok_def enumerates_def)
  show d: "dom (RebuildNeighborsFor keys ord affected base t) = dom t"
    unfolding RebuildNeighborsFor_def by (rule cells.rebuild_consistent(2) [OF t k])
  show "topo_ok base (RebuildNeighborsFor keys ord affected base t)"
    using cells.rebuild_consistent(1) [OF t k, of ord affected] d assms(1) unfolding topo_ok_def RebuildNeighborsFor_def by simp
qed

lemma callback_keeps_mesh:
  assumes "mesh_on base D c" and "lists_graphs o' D" and "ParseCellID k = Some cid" and "OwnerOf o' k c \<noteq> None \<longleftrightarrow> cid \<in> D"
  shows "mesh_on base D (rebuildTopologyForCell o' base k c)"
proof -
  obtain t where t: "cp_Topology c = Some t" "topo_ok base t" "dom t = D" using assms(1) by (auto simp: mesh_on_def)
  have "(if OwnerOf o' k c = None then t(cid := None) else if t cid = None then t(cid \<mapsto> []) else t) = t"
    using assms(4) t(3) by (auto simp: fun_upd_idem domIff)
  then have "cp_Topology (rebuildTopologyForCell o' base k c) = Some (RebuildNeighborsFor (o_keys o' t) (o_front o') [cid] base t)"
    using assms(3) t(1) by (simp add: rebuildTopologyForCell_def Let_def)
  moreover have "enumerates (o_keys o' t) t" using assms(2) t(3) by (simp add: lists_graphs_def)
  ultimately show ?thesis using topo_ok_rebuild [OF t(2)] t(3) by (simp add: mesh_on_def)
qed

lemma OwnerOf_unowned:
  assumes "cp_Registry c = Some r" and "\<forall>h. \<not> owned_by r h k"
  shows "OwnerOf o' k c = cp_CellToHost c k"
proof -
  have "find (\<lambda>h. owned_by r h k) (o_hosts o') = None" using assms(2) by (simp add: find_None_iff)
  then show ?thesis using assms(1) by (simp add: OwnerOf_def HostForCell_scan)
qed

lemma OwnerOf_mapped: "cp_CellToHost c k \<noteq> None \<Longrightarrow> OwnerOf o' k c \<noteq> None"
  by (auto simp: OwnerOf_def Let_def split: option.splits)

lemma OwnerOf_cong:
  assumes "cp_Registry c = Some r" and "cp_Registry c' = Some r'" and "\<forall>h. owned_by r h k \<longleftrightarrow> owned_by r' h k"
    and "cp_CellToHost c k = cp_CellToHost c' k"
  shows "OwnerOf o' k c = OwnerOf o' k c'"
  using assms by (simp add: OwnerOf_def HostForCell_scan Let_def)

lemma OwnerOf_owned:
  assumes "cp_Registry c = Some r" and "enumerates (o_hosts o') r" and "one_owner r" and "owned_by r h k"
  shows "OwnerOf o' k c = Some h"
proof -
  have "h \<noteq> ''''" using assms(3,4) by (auto simp: one_owner_def owned_by_def)
  then show ?thesis using HostForCell_owner [OF assms(2-4)] assms(1) by (simp add: OwnerOf_def Let_def)
qed

lemma release_cell_spec:
  assumes "cp_Registry c = Some r"
  shows "cp_Registry (release_cell o' base h k c) = Some (ReleaseCell h k r)"
    and "cp_CellToHost (release_cell o' base h k c) = cp_CellToHost c"
  using assms by (simp_all add: release_cell_def)

lemma release_cell_mesh:
  assumes "cp_Registry c = Some r" and "mesh_on base D c" and "lists_graphs o' D" and "ParseCellID k = Some cid"
    and "OwnerOf o' k (c\<lparr>cp_Registry := Some (ReleaseCell h k r)\<rparr>) \<noteq> None \<longleftrightarrow> cid \<in> D"
  shows "mesh_on base D (release_cell o' base h k c)"
  using callback_keeps_mesh [OF _ assms(3,4,5)] assms(1,2) by (simp add: release_cell_def mesh_on_def)

lemma assign_cell_spec:
  assumes "cp_Registry c = Some r" and "h \<in> dom r"
  obtains r' where "AssignCell h k r = Some r'" "cp_Registry (assign_cell o' base h k c) = Some r'"
    "cp_CellToHost (assign_cell o' base h k c) = cp_CellToHost c"
    "assign_cell o' base h k c = rebuildTopologyForCell o' base k (c\<lparr>cp_Registry := Some r'\<rparr>)"
  using assms by (cases "AssignCell h k r") (auto simp: assign_cell_def AssignCell_def)

text \<open>The two loops of \<open>applyRegistryDelta\<close>.\<close>

abbreviation release_step :: "go_orders \<Rightarrow> rat \<Rightarrow> (string \<rightharpoonup> string) \<Rightarrow> string \<Rightarrow> control_plane \<Rightarrow> control_plane" where
  "release_step o' base pre \<equiv> \<lambda>k c. case pre k of
     Some prev \<Rightarrow> if prev \<noteq> '''' then release_cell o' base prev k c else c
   | None \<Rightarrow> c"

abbreviation claim_step :: "go_orders \<Rightarrow> rat \<Rightarrow> (string \<rightharpoonup> string) \<Rightarrow> (string \<rightharpoonup> string) \<Rightarrow> string \<Rightarrow> control_plane \<Rightarrow> control_plane" where
  "claim_step o' base add pre \<equiv> \<lambda>k c. case add k of
     None \<Rightarrow> c
   | Some newOwner \<Rightarrow>
       (let c = (case pre k of
              Some prev \<Rightarrow> if prev \<noteq> '''' \<and> prev \<noteq> newOwner then release_cell o' base prev k c else c
            | None \<Rightarrow> c)
        in assign_cell o' base newOwner k c)"

text \<open>What a loop leaves behind: a registry with the given ownership, the same map, a full graph.\<close>

definition delta_state :: "rat \<Rightarrow> cell_id set \<Rightarrow> control_plane \<Rightarrow> host_registry \<Rightarrow> (string \<Rightarrow> string \<Rightarrow> bool) \<Rightarrow> control_plane \<Rightarrow> bool" where
  "delta_state base D c r own c' \<longleftrightarrow> (\<exists>r'. cp_Registry c' = Some r' \<and> dom r' = dom r \<and> (\<forall>h j. owned_by r' h j \<longleftrightarrow> own h j)) \<and>
     cp_CellToHost c' = cp_CellToHost c \<and> mesh_on base D c'"

lemma release_loop:
  assumes "cp_Registry c = Some r" and "r '''' = None" and "mesh_on base D c" and "lists_graphs o' D"
    and "\<forall>k \<in> set ks. (\<forall>h. owned_by r h k \<longrightarrow> pre k = Some h) \<and> cp_CellToHost c k = None \<and> (\<exists>cid. ParseCellID k = Some cid \<and> cid \<notin> D)"
  shows "delta_state base D c r (\<lambda>h j. owned_by r h j \<and> j \<notin> set ks) (fold (release_step o' base pre) ks c)"
  using assms(1,2,3,5)
proof (induction ks arbitrary: c r)
  case Nil
  then show ?case by (simp add: delta_state_def)
next
  case (Cons k ks)
  have own: "owned_by r h k \<Longrightarrow> pre k = Some h" and unmapped: "cp_CellToHost c k = None" for h using Cons.prems(4) by simp_all
  obtain cid where cid: "ParseCellID k = Some cid" "cid \<notin> D" using Cons.prems(4) by auto
  have named: "h \<noteq> ''''" if "owned_by r h k" for h using that Cons.prems(2) by (auto simp: owned_by_def)
  show ?case
  proof (cases "\<exists>h. pre k = Some h \<and> h \<noteq> ''''")
    case True
    then obtain h where h: "pre k = Some h" "h \<noteq> ''''" by blast
    let ?r = "ReleaseCell h k r" and ?c = "release_cell o' base h k c"
    have o: "owned_by ?r g j \<longleftrightarrow> owned_by r g j \<and> j \<noteq> k" for g j using own h(1) by (auto simp: owned_by_Release)
    have "OwnerOf o' k (c\<lparr>cp_Registry := Some ?r\<rparr>) = None" by (subst OwnerOf_unowned [of _ ?r]) (simp_all add: o unmapped)
    then have m: "mesh_on base D ?c" using cid by (intro release_cell_mesh [OF Cons.prems(1,3) assms(4) cid(1)]) simp
    have e: "?r '''' = None" using Cons.prems(2) by (simp add: ReleaseCell_def modify_host_def split: option.splits)
    have "delta_state base D ?c ?r (\<lambda>h j. owned_by ?r h j \<and> j \<notin> set ks) (fold (release_step o' base pre) ks ?c)"
      by (rule Cons.IH [OF release_cell_spec(1) [OF Cons.prems(1)] e m])
        (use Cons.prems(4) in \<open>auto simp: o release_cell_spec [OF Cons.prems(1)]\<close>)
    then show ?thesis using h by (auto simp: delta_state_def o release_cell_spec [OF Cons.prems(1)])
  next
    case False
    then have free: "\<not> owned_by r h k" for h using own named by blast
    have "release_step o' base pre k c = c" using False by (auto split: option.splits)
    moreover have "delta_state base D c r (\<lambda>h j. owned_by r h j \<and> j \<notin> set ks) (fold (release_step o' base pre) ks c)"
      by (rule Cons.IH [OF Cons.prems(1-3)]) (use Cons.prems(4) in simp)
    ultimately show ?thesis using free by (auto simp: delta_state_def)
  qed
qed

lemma claim_loop:
  assumes "cp_Registry c = Some r" and "mesh_on base D c" and "lists_graphs o' D" and "distinct ks"
    and "\<forall>k \<in> set ks. (\<exists>h. add k = Some h \<and> h \<in> dom r) \<and> (\<forall>h. owned_by r h k \<longrightarrow> pre k = Some h) \<and>
      cp_CellToHost c k \<noteq> None \<and> (\<exists>cid. ParseCellID k = Some cid \<and> cid \<in> D)" and "r '''' = None"
  shows "delta_state base D c r (\<lambda>h j. if j \<in> set ks then add j = Some h else owned_by r h j) (fold (claim_step o' base add pre) ks c)"
  using assms(1,2,4-6)
proof (induction ks arbitrary: c r)
  case Nil
  then show ?case by (simp add: delta_state_def)
next
  case (Cons k ks)
  obtain h cid where h: "add k = Some h" "h \<in> dom r" and cid: "ParseCellID k = Some cid" "cid \<in> D"
    and mapped: "cp_CellToHost c k \<noteq> None" using Cons.prems(4) by auto
  have own: "owned_by r g k \<Longrightarrow> pre k = Some g" for g using Cons.prems(4) by simp
  have named: "g \<noteq> ''''" if "owned_by r g k" for g using that Cons.prems(5) by (auto simp: owned_by_def)
  define c1 where "c1 = (case pre k of
     Some prev \<Rightarrow> if prev \<noteq> '''' \<and> prev \<noteq> h then release_cell o' base prev k c else c | None \<Rightarrow> c)"
  have "\<exists>r1. cp_Registry c1 = Some r1 \<and> dom r1 = dom r \<and> cp_CellToHost c1 = cp_CellToHost c \<and> mesh_on base D c1 \<and>
      (\<forall>g j. owned_by r1 g j \<longleftrightarrow> owned_by r g j \<and> (j = k \<longrightarrow> g = h))"
  proof (cases "\<exists>g. pre k = Some g \<and> g \<noteq> '''' \<and> g \<noteq> h")
    case True
    then obtain g where g: "pre k = Some g" "g \<noteq> ''''" "g \<noteq> h" by blast
    have "mesh_on base D (release_cell o' base g k c)"
      by (rule release_cell_mesh [OF Cons.prems(1,2) assms(3) cid(1)]) (use OwnerOf_mapped mapped cid in auto)
    then show ?thesis
      using g own unfolding c1_def by (auto simp: release_cell_spec [OF Cons.prems(1)] owned_by_Release)
  next
    case False
    then have "c1 = c" unfolding c1_def by (auto split: option.splits)
    moreover have "owned_by r g k \<Longrightarrow> g = h" for g using own named False by blast
    ultimately show ?thesis using Cons.prems(1,2) by auto
  qed
  then obtain r1 where r1: "cp_Registry c1 = Some r1" "dom r1 = dom r" "cp_CellToHost c1 = cp_CellToHost c" "mesh_on base D c1"
    and o1: "owned_by r1 g j \<longleftrightarrow> owned_by r g j \<and> (j = k \<longrightarrow> g = h)" for g j by blast
  have "h \<in> dom r1" using h(2) r1(2) by simp
  then obtain r2 where r2: "AssignCell h k r1 = Some r2" "cp_Registry (assign_cell o' base h k c1) = Some r2"
    "cp_CellToHost (assign_cell o' base h k c1) = cp_CellToHost c1"
    "assign_cell o' base h k c1 = rebuildTopologyForCell o' base k (c1\<lparr>cp_Registry := Some r2\<rparr>)"
    by (rule assign_cell_spec [OF r1(1)])
  have o2: "owned_by r2 g j \<longleftrightarrow> (if j = k then g = h else owned_by r g j)" for g j
    using owned_by_Assign [OF r2(1)] o1 by auto
  have m2: "mesh_on base D (assign_cell o' base h k c1)"
    unfolding r2(4) by (rule callback_keeps_mesh [OF _ assms(3) cid(1)]) (use r1(3,4) cid(2) mapped OwnerOf_mapped in \<open>auto simp: mesh_on_def\<close>)
  have e2: "r2 '''' = None" and d2: "dom r2 = dom r" using Cons.prems(5) r1(2) dom_registry(2) [OF r2(1)] by (auto simp: domIff)
  have k: "k \<notin> set ks" "distinct ks" using Cons.prems(3) by simp_all
  have "delta_state base D (assign_cell o' base h k c1) r2 (\<lambda>h j. if j \<in> set ks then add j = Some h else owned_by r2 h j)
      (fold (claim_step o' base add pre) ks (assign_cell o' base h k c1))"
  proof (rule Cons.IH [OF r2(2) m2 k(2) _ e2], intro ballI)
    fix j
    assume j: "j \<in> set ks"
    then have "j \<noteq> k" using k(1) by auto
    moreover have "(\<exists>h. add j = Some h \<and> h \<in> dom r) \<and> (\<forall>h. owned_by r h j \<longrightarrow> pre j = Some h) \<and>
      cp_CellToHost c j \<noteq> None \<and> (\<exists>cid. ParseCellID j = Some cid \<and> cid \<in> D)" using Cons.prems(4) j by simp
    ultimately show "(\<exists>h. add j = Some h \<and> h \<in> dom r2) \<and> (\<forall>h. owned_by r2 h j \<longrightarrow> pre j = Some h) \<and>
      cp_CellToHost (assign_cell o' base h k c1) j \<noteq> None \<and> (\<exists>cid. ParseCellID j = Some cid \<and> cid \<in> D)"
      using d2 r2(3) r1(3) by (simp add: o2)
  qed
  moreover have "claim_step o' base add pre k c = assign_cell o' base h k c1" by (simp add: h(1) c1_def)
  ultimately show ?case using h(1) d2 r1(3) r2(3) k(1) by (auto simp: delta_state_def o2)
qed

text \<open>
  The whole delta. \<open>pre\<close> names the owner of every cell the mutation touches; the map was flipped
  and the graph updated before.
\<close>

lemma applyRegistryDelta_spec:
  fixes m :: topology_mutation
  defines "add \<equiv> tm_add m"
  assumes reg: "cp_Registry c = Some r" "one_owner r" "enumerates (o_hosts o') r" and hosts: "ran add \<subseteq> dom r"
    and mesh: "mesh_on base D c" "lists_graphs o' D" and ord: "enumerates (o_map o' add) add"
    and disj: "set (tm_remove m) \<inter> dom add = {}"
    and known: "\<forall>k \<in> set (tm_remove m) \<union> dom add. \<forall>h. owned_by r h k \<longrightarrow> pre k = Some h"
    and maps: "\<forall>k \<in> set (tm_remove m). cp_CellToHost c k = None" "\<forall>k \<in> dom add. cp_CellToHost c k = add k"
    and cells: "\<forall>k \<in> set (tm_remove m) \<union> dom add. \<exists>cid. ParseCellID k = Some cid \<and> (cid \<in> D \<longleftrightarrow> k \<in> dom add)"
  shows "mesh_on base D (applyRegistryDelta o' base m pre c)"
    and "OwnerOf o' k (applyRegistryDelta o' base m pre c) =
      (if k \<in> dom add then add k else if k \<in> set (tm_remove m) then None else OwnerOf o' k c)"
    and "cp_CellToHost (applyRegistryDelta o' base m pre c) = cp_CellToHost c"
    and "\<exists>r'. cp_Registry (applyRegistryDelta o' base m pre c) = Some r' \<and> one_owner r' \<and> dom r' = dom r"
proof -
  let ?c1 = "fold (release_step o' base pre) (tm_remove m) c"
  let ?c2 = "applyRegistryDelta o' base m pre c"
  have c2: "?c2 = fold (claim_step o' base add pre) (o_map o' add) ?c1" using reg(1) by (simp add: applyRegistryDelta_def add_def Let_def)
  have e: "r '''' = None" using reg(2) by (simp add: one_owner_def)
  have "delta_state base D c r (\<lambda>h j. owned_by r h j \<and> j \<notin> set (tm_remove m)) ?c1"
    by (rule release_loop [OF reg(1) e mesh]) (use known maps(1) cells disj in blast)
  then obtain r1 where r1: "cp_Registry ?c1 = Some r1" "dom r1 = dom r" "cp_CellToHost ?c1 = cp_CellToHost c" "mesh_on base D ?c1"
    and o1: "owned_by r1 h j \<longleftrightarrow> owned_by r h j \<and> j \<notin> set (tm_remove m)" for h j by (auto simp: delta_state_def)
  have e1: "r1 '''' = None" using r1(2) e by (auto simp: domIff)
  have ks: "distinct (o_map o' add)" "set (o_map o' add) = dom add" using ord by (simp_all add: enumerates_def)
  have "delta_state base D ?c1 r1 (\<lambda>h j. if j \<in> set (o_map o' add) then add j = Some h else owned_by r1 h j) ?c2"
    unfolding c2
  proof (rule claim_loop [OF r1(1,4) mesh(2) ks(1) _ e1], intro ballI)
    fix k
    assume "k \<in> set (o_map o' add)"
    then have k: "k \<in> dom add" by (simp add: ks(2))
    then obtain h where h: "add k = Some h" by blast
    have "\<exists>cid. ParseCellID k = Some cid \<and> cid \<in> D" using cells k by blast
    moreover have "\<forall>h. owned_by r1 h k \<longrightarrow> pre k = Some h" using known k o1 by blast
    moreover have "cp_CellToHost ?c1 k \<noteq> None" using maps(2) k r1(3) h by simp
    moreover have "h \<in> dom r1" using hosts h r1(2) by (auto simp: ran_def)
    ultimately show "(\<exists>h. add k = Some h \<and> h \<in> dom r1) \<and> (\<forall>h. owned_by r1 h k \<longrightarrow> pre k = Some h) \<and>
      cp_CellToHost ?c1 k \<noteq> None \<and> (\<exists>cid. ParseCellID k = Some cid \<and> cid \<in> D)" using h by blast
  qed
  then obtain r2 where r2: "cp_Registry ?c2 = Some r2" "dom r2 = dom r1" "cp_CellToHost ?c2 = cp_CellToHost ?c1" "mesh_on base D ?c2"
    and o2: "owned_by r2 h j \<longleftrightarrow> (if j \<in> dom add then add j = Some h else owned_by r1 h j)" for h j
    by (auto simp: delta_state_def ks(2))
  show "mesh_on base D ?c2" by (rule r2(4))
  show "cp_CellToHost ?c2 = cp_CellToHost c" using r2(3) r1(3) by simp
  have one: "one_owner r2" using reg(2) r2(2) r1(2) by (auto simp: one_owner_def o2 o1 domIff)
  then show "\<exists>r'. cp_Registry ?c2 = Some r' \<and> one_owner r' \<and> dom r' = dom r" using r2(1,2) r1(2) by auto
  have en: "enumerates (o_hosts o') r2" using reg(3) r2(2) r1(2) by (simp add: enumerates_def)
  show "OwnerOf o' k ?c2 = (if k \<in> dom add then add k else if k \<in> set (tm_remove m) then None else OwnerOf o' k c)"
  proof (cases "k \<in> dom add")
    case True
    then obtain h where h: "add k = Some h" by blast
    then show ?thesis using OwnerOf_owned [OF r2(1) en one, of h k] by (simp add: o2 domIff)
  next
    case False
    show ?thesis
    proof (cases "k \<in> set (tm_remove m)")
      case True
      then have "OwnerOf o' k ?c2 = cp_CellToHost ?c2 k" using False by (intro OwnerOf_unowned [OF r2(1)]) (simp add: o1 o2)
      then show ?thesis using True False maps(1) r2(3) r1(3) by simp
    next
      case rest: False
      have "OwnerOf o' k ?c2 = OwnerOf o' k c"
        by (rule OwnerOf_cong [OF r2(1) reg(1)]) (use False rest r2(3) r1(3) in \<open>simp_all add: o1 o2\<close>)
      then show ?thesis using False rest by simp
    qed
  qed
qed

section \<open>Sessions and the ownership snapshot\<close>

definition keyed :: "session_routes \<Rightarrow> bool" where
  "keyed r \<longleftrightarrow> (\<forall>k v. r k = Some v \<longrightarrow> sr_Key v = k)"

definition moved :: "(session_route \<Rightarrow> (session_key \<times> string \<times> string \<times> string) option) \<Rightarrow> session_route \<Rightarrow> session_route" where
  "moved f v = (case f v of None \<Rightarrow> v
     | Some (k, u, c, h) \<Rightarrow> v\<lparr>sr_Epoch := sr_Epoch v + 1, sr_HostID := h, sr_CellID := c\<rparr>)"

lemma move_session_fields [simp]:
  "p_Control (move_session h c k u p) = p_Control p" "p_Cells (move_session h c k u p) = p_Cells p"
  "p_CellOwner (move_session h c k u p) = p_CellOwner p" "p_LocalHost (move_session h c k u p) = p_LocalHost p"
  "p_HostCells (move_session h c k u p) = p_HostCells p" "p_Objs (move_session h c k u p) = p_Objs p"
  "p_Sessions (move_session h c k u p) = fst (Migrate k h c (p_Sessions p))"
  by (auto simp: move_session_def Migrate_def send_def split: option.splits prod.splits)

lemma move_sessions_fields [simp]:
  "p_Control (move_sessions ts p) = p_Control p" "p_Cells (move_sessions ts p) = p_Cells p"
  "p_CellOwner (move_sessions ts p) = p_CellOwner p" "p_LocalHost (move_sessions ts p) = p_LocalHost p"
  "p_HostCells (move_sessions ts p) = p_HostCells p" "p_Objs (move_sessions ts p) = p_Objs p"
  unfolding move_sessions_def by (induction ts arbitrary: p; simp split: prod.splits)+

lemma Migrate_eq: "fst (Migrate k h c r) j =
    (if j = k then map_option (\<lambda>v. v\<lparr>sr_Epoch := sr_Epoch v + 1, sr_HostID := h, sr_CellID := c\<rparr>) (r k) else r j)"
  by (simp add: Migrate_def split: option.splits)

lemma moved_sessions:
  assumes keys: "enumerates keys (p_Sessions p)" and key: "keyed (p_Sessions p)"
    and f: "\<And>v t. f v = Some t \<Longrightarrow> fst t = sr_Key v"
  shows "p_Sessions (move_sessions (sr_collect keys f (p_Sessions p)) p) j = map_option (moved f) (p_Sessions p j)"
proof -
  let ?r = "p_Sessions p"
  have "p_Sessions (move_sessions (List.map_filter (\<lambda>k. Option.bind (?r k) f) ks) q) j =
      (if j \<in> set ks then map_option (moved f) (?r j) else p_Sessions q j)"
    if "distinct ks" and "\<forall>k \<in> set ks. p_Sessions q k = ?r k" for ks q
    using that
  proof (induction ks arbitrary: q)
    case (Cons k ks)
    have ks: "distinct ks" "k \<notin> set ks" and qk: "p_Sessions q k = ?r k" using Cons.prems by simp_all
    show ?case
    proof (cases "Option.bind (?r k) f")
      case None
      then have "map_option (moved f) (?r k) = ?r k" by (cases "?r k") (auto simp: moved_def)
      then show ?thesis using Cons.IH [OF ks(1), of q] Cons.prems(2) None ks(2) by (auto simp: List.map_filter_simps)
    next
      case (Some t)
      then obtain v where v: "?r k = Some v" "f v = Some t" by (cases "?r k") auto
      obtain u c h where t: "t = (k, u, c, h)" using f [OF v(2)] key v(1) by (cases t) (auto simp: keyed_def)
      let ?q = "move_session h c k u q"
      have "\<forall>i \<in> set ks. p_Sessions ?q i = ?r i" using Cons.prems(2) ks(2) by (auto simp: Migrate_eq)
      note ih = Cons.IH [OF ks(1) this]
      have "move_sessions (List.map_filter (\<lambda>k. Option.bind (?r k) f) (k # ks)) q =
          move_sessions (List.map_filter (\<lambda>k. Option.bind (?r k) f) ks) ?q"
        by (simp add: List.map_filter_simps Some t move_sessions_def)
      moreover have "map_option (moved f) (?r k) = p_Sessions ?q k" using qk v t by (simp add: Migrate_eq moved_def)
      ultimately show ?thesis using ih ks(2) by (auto simp: Migrate_eq)
    qed
  qed (simp add: List.map_filter_simps move_sessions_def)
  from this [of keys p] keys show ?thesis by (auto simp: enumerates_def sr_collect_def domIff)
qed

text \<open>The two sources of the snapshot.\<close>

lemma MeshID_nonempty [simp]: "MeshID c \<noteq> ''''" "'''' \<noteq> MeshID c"
  by (simp_all add: MeshID_def split: if_splits)

lemma snapshot_fallback:
  "fold (\<lambda>k out. if out k = None then out(k \<mapsto> f k) else out) ks m j =
     (case m j of Some v \<Rightarrow> Some v | None \<Rightarrow> if j \<in> set ks then Some (f j) else None)"
proof (induction ks arbitrary: m)
  case (Cons k ks)
  show ?case
  proof (cases "m k")
    case None
    obtain u where u: "u = m(k \<mapsto> f k)" by simp
    have "u j = (if j = k then Some (f k) else m j)" by (simp add: u)
    then show ?thesis using Cons.IH [of u] None by (auto simp: u [symmetric] split: option.splits)
  next
    case (Some v)
    then show ?thesis using Cons.IH [of m] by (auto split: option.splits)
  qed
qed (simp split: option.splits)

lemma snapshot_command:
  assumes "cmd \<in> set (rq_commands req)" and "\<forall>cmd \<in> set (rq_commands req). tc_SrcCellID cmd = k \<longrightarrow> tc_SrcHostID cmd = h"
    and "tc_SrcCellID cmd = k" and "k \<noteq> ''''" and "h \<noteq> ''''"
  shows "snapshotOwnershipLocked o' req p k = Some h"
proof -
  let ?f = "\<lambda>cmd out. if tc_SrcCellID cmd \<noteq> '''' \<and> tc_SrcHostID cmd \<noteq> '''' then out(tc_SrcCellID cmd \<mapsto> tc_SrcHostID cmd) else out"
  have keep: "fold ?f cmds out k = Some h" if "\<forall>cmd \<in> set cmds. tc_SrcCellID cmd = k \<longrightarrow> tc_SrcHostID cmd = h" "out k = Some h"
    for cmds and out :: "string \<rightharpoonup> string"
    using that by (induction cmds arbitrary: out) auto
  have "fold ?f cmds out k = Some h"
    if "\<forall>cmd \<in> set cmds. tc_SrcCellID cmd = k \<longrightarrow> tc_SrcHostID cmd = h" "cmd \<in> set cmds" for cmds and out :: "string \<rightharpoonup> string"
    using that
  proof (induction cmds arbitrary: out)
    case (Cons x cmds)
    show ?case
    proof (cases "cmd = x")
      case True
      then show ?thesis using Cons.prems assms(3-5) keep [of cmds] by simp
    next
      case False
      then show ?thesis using Cons.IH Cons.prems by simp
    qed
  qed simp
  from this [OF assms(2,1)] show ?thesis unfolding snapshotOwnershipLocked_def Let_def snapshot_fallback by simp
qed

lemma snapshot_map:
  assumes "\<forall>cmd \<in> set (rq_commands req). tc_SrcCellID cmd \<noteq> k" and "k \<in> set (tm_remove (rq_mutation req) @ o_map o' (tm_add (rq_mutation req)))"
  shows "snapshotOwnershipLocked o' req p k = Some (case cp_CellToHost (p_Control p) k of Some h \<Rightarrow> h | None \<Rightarrow> '''')"
proof -
  let ?f = "\<lambda>cmd out. if tc_SrcCellID cmd \<noteq> '''' \<and> tc_SrcHostID cmd \<noteq> '''' then out(tc_SrcCellID cmd \<mapsto> tc_SrcHostID cmd) else out"
  have "fold ?f cmds out k = out k" if "\<forall>cmd \<in> set cmds. tc_SrcCellID cmd \<noteq> k" for cmds and out :: "string \<rightharpoonup> string"
    using that by (induction cmds arbitrary: out) auto
  from this [OF assms(1)] show ?thesis unfolding snapshotOwnershipLocked_def Let_def snapshot_fallback using assms(2) by simp
qed

lemma flip_owners_map:
  "cp_CellToHost (flip_owners m c) k = (case tm_add m k of Some h \<Rightarrow> Some h | None \<Rightarrow> if k \<in> set (tm_remove m) then None else cp_CellToHost c k)"
  "cp_Registry (flip_owners m c) = cp_Registry c" "cp_Topology (flip_owners m c) = cp_Topology c"
proof -
  have "fold (\<lambda>k f. f(k := None)) ks f = (\<lambda>j. if j \<in> set ks then None else f j)" for ks and f :: "string \<rightharpoonup> string"
    by (induction ks arbitrary: f) auto
  then show "cp_CellToHost (flip_owners m c) k = (case tm_add m k of Some h \<Rightarrow> Some h | None \<Rightarrow> if k \<in> set (tm_remove m) then None else cp_CellToHost c k)"
    by (simp add: flip_owners_def map_add_def)
qed (simp_all add: flip_owners_def)

section \<open>Running a plan\<close>

definition total_plan :: "commit_plan \<Rightarrow> bool" where
  "total_plan plan \<longleftrightarrow> (\<forall>st \<in> set (pl_Steps plan). \<forall>s. fst (ps_Run st s) = None)"

definition plan_result :: "commit_plan \<Rightarrow> process \<Rightarrow> process" where
  "plan_result plan p = fst (fold (\<lambda>st s. snd (ps_Run st s)) (pl_Steps plan) (p, empty_context))"

lemma plain_step_simps [simp]:
  "ps_Run (plain_step n f) = (\<lambda>s. (None, f s))" "ps_Name (plain_step n f) = n" "ps_Invariants (plain_step n f) = []"
  by (simp_all add: plain_step_def)

lemma plans_total: "total_plan (buildSplitPlan ev req)" "total_plan (buildMergePlan ev req)" "total_plan (buildMigratePlan ev req)"
  by (simp_all add: total_plan_def buildSplitPlan_def buildMergePlan_def buildMigratePlan_def)

abbreviation violation :: "commit_event \<Rightarrow> bool" where
  "violation e \<equiv> ce_Kind e = EventInvariantViolation"

definition step_event :: "commit_env \<Rightarrow> commit_plan \<Rightarrow> nat \<Rightarrow> plan_step \<Rightarrow> commit_event" where
  "step_event ev plan i st = (plan_event plan (int i) (ps_Name st))\<lparr>ce_Success := True, ce_DurationMs := ev_duration ev i, ce_Error := ''''\<rparr>"

definition plan_events :: "commit_env \<Rightarrow> commit_plan \<Rightarrow> commit_event list" where
  "plan_events ev plan = plan_event plan (- 1) ''begin'' #
     map (\<lambda>(i, st). step_event ev plan i st) (enumerate 0 (pl_Steps plan)) @ [plan_event plan (- 1) ''end'']"

text \<open>What was logged: the given events of the plan, with violations between them.\<close>

definition logged :: "commit_env \<Rightarrow> commit_event list \<Rightarrow> commit_log \<Rightarrow> commit_log \<Rightarrow> bool" where
  "logged ev es l l' \<longleftrightarrow> (\<exists>all. l' = fold (log_event ev) all l \<and> filter (Not \<circ> violation) all = es)"

lemma logged_refl: "logged ev [] l l"
  unfolding logged_def by (intro exI [of _ "[]"]) simp

lemma logged_trans: "logged ev es l l1 \<Longrightarrow> logged ev es' l1 l2 \<Longrightarrow> logged ev (es @ es') l l2"
  unfolding logged_def by (elim exE conjE) (metis filter_append fold_append comp_apply)

lemma logged_event: "\<not> violation e \<Longrightarrow> logged ev [e] l (log_event ev e l)"
  unfolding logged_def by (intro exI [of _ "[e]"]) simp

lemma logged_violation: "violation e \<Longrightarrow> logged ev [] l (log_event ev e l)"
  unfolding logged_def by (intro exI [of _ "[e]"]) simp

lemma check_logged: "mode \<noteq> InvariantPanic \<Longrightarrow> \<exists>l'. CheckInvariants ev mode invs msg p l = Some l' \<and> logged ev [] l l'"
proof -
  assume m: "mode \<noteq> InvariantPanic"
  have "\<exists>l'. check_all ev mode invs msg p l = Some l' \<and> logged ev [] l l'"
  proof (induction invs arbitrary: l)
    case (Cons inv invs)
    obtain name chk where inv: "inv = (name, chk)" by fastforce
    show ?case
    proof (cases "chk p")
      case (Some err)
      let ?l = "log_event ev (zero_event\<lparr>ce_Kind := EventInvariantViolation, ce_StepIndex := -1, ce_Step := name,
                     ce_Error := err, ce_Context := [(''where'', msg)]\<rparr>) l"
      have "logged ev [] l ?l" by (rule logged_violation) simp
      from logged_trans [OF this] Cons.IH [of ?l] show ?thesis using Some m by (auto simp: inv Let_def)
    qed (use Cons.IH in \<open>simp add: inv\<close>)
  qed (simp add: logged_refl)
  then show ?thesis by (auto simp: CheckInvariants_def logged_refl)
qed

lemma plan_event_kind [simp]: "\<not> violation (plan_event plan i s)" "\<not> violation (step_event ev plan j st)"
  by (simp_all add: plan_event_def step_event_def commitKindToEvent_def split: commit_kind.splits)

lemma run_steps_total:
  assumes "mode \<noteq> InvariantPanic" and "\<forall>st \<in> set steps. \<forall>s. fst (ps_Run st s) = None"
  shows "\<exists>l'. run_steps ev mode plan i steps (s, l) = Some (None, fold (\<lambda>st s. snd (ps_Run st s)) steps s, l') \<and>
    logged ev (map (\<lambda>(i, st). step_event ev plan i st) (enumerate i steps)) l l'"
  using assms(2)
proof (induction steps arbitrary: i s l)
  case (Cons st steps)
  have "fst (ps_Run st s) = None" using Cons.prems by (meson list.set_intros(1))
  then obtain s1 where s1: "ps_Run st s = (None, s1)" by (cases "ps_Run st s") simp
  let ?l = "log_event ev (step_event ev plan i st) l"
  let ?invs = "if ps_Invariants st = [] then defaultInvariants (ev_orders ev) else ps_Invariants st"
  obtain l1 where l1: "CheckInvariants ev mode ?invs (''commit '' @ show_nat (unat (pl_ID plan)) @ '' after '' @ ps_Name st) (fst s1) ?l = Some l1"
    "logged ev [] ?l l1" using check_logged [OF assms(1)] by blast
  have "\<exists>l2. run_steps ev mode plan (i + 1) steps (s1, l1) = Some (None, fold (\<lambda>st s. snd (ps_Run st s)) steps s1, l2) \<and>
      logged ev (map (\<lambda>(i, st). step_event ev plan i st) (enumerate (i + 1) steps)) l1 l2"
    by (rule Cons.IH) (meson Cons.prems list.set_intros(2))
  then obtain l2 where l2: "run_steps ev mode plan (i + 1) steps (s1, l1) = Some (None, fold (\<lambda>st s. snd (ps_Run st s)) steps s1, l2)"
    "logged ev (map (\<lambda>(i, st). step_event ev plan i st) (enumerate (i + 1) steps)) l1 l2" by blast
  have "logged ev (step_event ev plan i st # map (\<lambda>(i, st). step_event ev plan i st) (enumerate (i + 1) steps)) l l2"
    using logged_trans [OF logged_trans [OF logged_event l1(2)] l2(2)] by simp
  moreover have "run_steps ev mode plan i (st # steps) (s, l) = run_steps ev mode plan (i + 1) steps (s1, l1)"
    using l1(1) unfolding step_event_def by (simp add: s1 Let_def)
  ultimately show ?case using l2(1) by (simp add: s1)
qed (simp add: logged_refl)

lemma report_logged: "mode \<noteq> InvariantPanic \<Longrightarrow> \<exists>l'. reportConservation ev mode plan before p l = Some l' \<and> logged ev [] l l'"
  unfolding reportConservation_def Let_def by (auto split: option.splits intro: logged_refl logged_violation)

lemma execute_total:
  assumes "mode \<noteq> InvariantPanic" and "total_plan plan"
  shows "\<exists>l'. ExecuteCommitPlan ev mode plan p l = Some (None, plan_result plan p, l') \<and> logged ev (plan_events ev plan) l l'"
proof -
  let ?invs = "defaultInvariants (ev_orders ev)"
  let ?l0 = "log_event ev (plan_event plan (- 1) ''begin'') l" and ?e = "plan_event plan (- 1) ''end''"
  obtain l1 where l1: "CheckInvariants ev mode ?invs (where_msg plan ''entry'') p ?l0 = Some l1" "logged ev [] ?l0 l1"
    using check_logged [OF assms(1)] by blast
  obtain q ctx l2 where l2: "run_steps ev mode plan 0 (pl_Steps plan) ((p, empty_context), l1) = Some (None, (q, ctx), l2)"
      "fold (\<lambda>st s. snd (ps_Run st s)) (pl_Steps plan) (p, empty_context) = (q, ctx)"
      "logged ev (map (\<lambda>(i, st). step_event ev plan i st) (enumerate 0 (pl_Steps plan))) l1 l2"
    using run_steps_total [OF assms(1) assms(2) [unfolded total_plan_def]] by (metis prod.collapse)
  obtain l3 where l3: "CheckInvariants ev mode ?invs (where_msg plan ''exit'') q l2 = Some l3" "logged ev [] l2 l3"
    using check_logged [OF assms(1)] by blast
  define cb where "cb = (if mode \<noteq> InvariantOff then liveEntityCensus ev p else None)"
  obtain l4 where l4: "(case cb of None \<Rightarrow> Some l3 | Some before \<Rightarrow> reportConservation ev mode plan before q l3) = Some l4" "logged ev [] l3 l4"
  proof (cases cb)
    case None
    then show ?thesis using that logged_refl by simp
  next
    case (Some before)
    obtain l4 where "reportConservation ev mode plan before q l3 = Some l4" "logged ev [] l3 l4"
      using report_logged [OF assms(1)] by blast
    then show ?thesis using that Some by simp
  qed
  have "ExecuteCommitPlan ev mode plan p l = Some (None, q, log_event ev ?e l4)"
    unfolding ExecuteCommitPlan_def Let_def cb_def [symmetric] l1(1) by (simp add: l2(1) l3(1) l4(1))
  moreover have "logged ev (plan_events ev plan) l (log_event ev ?e l4)"
    unfolding plan_events_def
    using logged_trans [OF logged_trans [OF logged_trans [OF logged_trans [OF logged_trans [OF logged_event l1(2)] l2(3)] l3(2)] l4(2)] logged_event]
    by simp
  ultimately show ?thesis using l2(2) by (simp add: plan_result_def)
qed

lemma apply_plan_total:
  assumes "mode \<noteq> InvariantPanic" and "total_plan plan"
  shows "\<exists>l'. apply_plan ev mode plan (p, l) = Some (plan_result plan p, l')"
proof -
  obtain l' where "ExecuteCommitPlan ev mode plan p l = Some (None, plan_result plan p, l')" using execute_total [OF assms] by blast
  then show ?thesis by (simp add: apply_plan_def)
qed

section \<open>What the steps leave alone\<close>

lemma send_fields [simp]:
  "p_Control (send es p) = p_Control p" "p_Sessions (send es p) = p_Sessions p" "p_Cells (send es p) = p_Cells p"
  "p_CellOwner (send es p) = p_CellOwner p" "p_HostCells (send es p) = p_HostCells p" "p_LocalHost (send es p) = p_LocalHost p"
  "p_Objs (send es p) = p_Objs p"
  by (simp_all add: send_def)

lemma host_release_fields [simp]:
  "p_Control (host_release h k p) = p_Control p" "p_Sessions (host_release h k p) = p_Sessions p"
  "p_Cells (host_release h k p) = p_Cells p" "p_CellOwner (host_release h k p) = p_CellOwner p"
  by (simp_all add: host_release_def split: option.splits)

lemma host_rename_fields [simp]:
  "p_Control (host_rename h a b p) = p_Control p" "p_Sessions (host_rename h a b p) = p_Sessions p"
  by (simp_all add: host_rename_def renameCellOnNode_def Let_def split: option.splits)

lemma release_netid_fields [simp]:
  "p_Control (release_netid x p) = p_Control p" "p_Sessions (release_netid x p) = p_Sessions p"
  by (simp_all add: release_netid_def)

lemma fold_fields:
  assumes "\<And>x p. P (f x p) = P p"
  shows "P (fold f xs p) = P p"
  using assms by (induction xs arbitrary: p) simp_all

lemma detach_fields [simp]:
  "p_Control (fst (detach_donors k sibs p)) = p_Control p" "p_Sessions (fst (detach_donors k sibs p)) = p_Sessions p"
proof -
  let ?f = "\<lambda>sib (p, donors). if MeshID sib = k then (p, donors)
         else (case p_Cells p (MeshID sib) of
              None \<Rightarrow> (p\<lparr>p_CellOwner := (p_CellOwner p)(sib := None)\<rparr>, donors)
            | Some cell \<Rightarrow> (p\<lparr>p_Cells := (p_Cells p)(MeshID sib := None), p_CellOwner := (p_CellOwner p)(sib := None)\<rparr>, donors @ [cell]))"
  have "p_Control (fst (fold ?f sibs (p, ds))) = p_Control p \<and> p_Sessions (fst (fold ?f sibs (p, ds))) = p_Sessions p" for ds
    by (induction sibs arbitrary: p ds) (auto split: option.splits)
  then show "p_Control (fst (detach_donors k sibs p)) = p_Control p" "p_Sessions (fst (detach_donors k sibs p)) = p_Sessions p"
    by (simp_all add: detach_donors_def)
qed

lemma quiet_steps [simp]:
  "p_Control (fst (stepApplyRewireDirectives s)) = p_Control (fst s)" "p_Sessions (fst (stepApplyRewireDirectives s)) = p_Sessions (fst s)"
  "p_Control (fst (stepSplitReleaseParentHost req s)) = p_Control (fst s)" "p_Sessions (fst (stepSplitReleaseParentHost req s)) = p_Sessions (fst s)"
  "p_Control (fst (stepSplitPrimeCooldowns ev req s)) = p_Control (fst s)" "p_Sessions (fst (stepSplitPrimeCooldowns ev req s)) = p_Sessions (fst s)"
  "p_Control (fst (stepMergePrimeCooldowns ev req s)) = p_Control (fst s)" "p_Sessions (fst (stepMergePrimeCooldowns ev req s)) = p_Sessions (fst s)"
  "p_Control (fst (stepBroadcastPeerList s)) = p_Control (fst s)" "p_Sessions (fst (stepBroadcastPeerList s)) = p_Sessions (fst s)"
  "p_Control (fst (stepMergeRenameSurvivorHost req s)) = p_Control (fst s)" "p_Sessions (fst (stepMergeRenameSurvivorHost req s)) = p_Sessions (fst s)"
  "p_Control (fst (stepMergeDrainDonorResiduals s)) = p_Control (fst s)" "p_Sessions (fst (stepMergeDrainDonorResiduals s)) = p_Sessions (fst s)"
  "p_Control (fst (stepMigrateReleaseSrcHost req s)) = p_Control (fst s)" "p_Sessions (fst (stepMigrateReleaseSrcHost req s)) = p_Sessions (fst s)"
  "p_Control (fst (stepMigrateReleaseSrcNetID s)) = p_Control (fst s)" "p_Sessions (fst (stepMigrateReleaseSrcNetID s)) = p_Sessions (fst s)"
  by (cases s; simp add: stepApplyRewireDirectives_def applyRewireDirectives_def stepSplitReleaseParentHost_def stepSplitPrimeCooldowns_def
      stepMergePrimeCooldowns_def stepBroadcastPeerList_def stepMergeRenameSurvivorHost_def stepMergeDrainDonorResiduals_def
      stepMigrateReleaseSrcHost_def stepMigrateReleaseSrcNetID_def Let_def split: list.splits option.splits)+

lemma quiet_donor_steps [simp]:
  "p_Control (fst (stepMergeReleaseDonors req s)) = p_Control (fst s)" "p_Sessions (fst (stepMergeReleaseDonors req s)) = p_Sessions (fst s)"
  "p_Control (fst (stepMergeReleaseDonorNetIDs s)) = p_Control (fst s)" "p_Sessions (fst (stepMergeReleaseDonorNetIDs s)) = p_Sessions (fst s)"
  by (cases s; simp add: stepMergeReleaseDonors_def stepMergeReleaseDonorNetIDs_def fold_fields [where P = p_Control] fold_fields [where P = p_Sessions])+

lemma delta_step [simp]:
  "p_Control (fst (stepApplyRegistryDelta ev req s)) =
     applyRegistryDelta (ev_orders ev) (ev_base ev) (rq_mutation req) (cc_PreOwnership (snd s)) (p_Control (fst s))"
  "p_Sessions (fst (stepApplyRegistryDelta ev req s)) = p_Sessions (fst s)"
  by (simp_all add: stepApplyRegistryDelta_def case_prod_unfold)

lemma remap_steps [simp]:
  "p_Control (fst (stepSplitRemapSessions ev req s)) = p_Control (fst s)" "snd (stepSplitRemapSessions ev req s) = snd s"
  "p_Control (fst (stepMergeRemapSessions ev req s)) = p_Control (fst s)" "snd (stepMergeRemapSessions ev req s) = snd s"
  "p_Control (fst (stepMigrateRemapSessions ev req s)) = p_Control (fst s)" "snd (stepMigrateRemapSessions ev req s) = snd s"
  "snd (stepApplyRewireDirectives s) = snd s" "snd (stepMergeRenameSurvivorHost req s) = snd s"
  by (simp_all add: stepSplitRemapSessions_def stepMergeRemapSessions_def stepMigrateRemapSessions_def stepApplyRewireDirectives_def
      stepMergeRenameSurvivorHost_def Let_def case_prod_unfold split: option.splits)

section \<open>Control plane and sessions after a plan\<close>

definition split_control :: "commit_env \<Rightarrow> transfer_request \<Rightarrow> control_plane \<Rightarrow> control_plane" where
  "split_control ev req c =
     (case cp_Topology c of
        None \<Rightarrow> flip_owners (rq_mutation req) c
      | Some t \<Rightarrow>
          (let parent = rq_SrcCell req;
               t = UpdateAfterSplit parent (Children parent) (ev_base ev) t;
               t = RebuildNeighborsFor (o_keys (ev_orders ev) t) (o_front (ev_orders ev)) (Children parent) (ev_base ev) t
           in (flip_owners (rq_mutation req) c)\<lparr>cp_Topology := Some t\<rparr>))"

lemma split_first [simp]:
  "p_Control (fst (stepSplitApplyCoordMutation ev req (p, ctx))) = split_control ev req (p_Control p)"
  "p_Sessions (fst (stepSplitApplyCoordMutation ev req (p, ctx))) = p_Sessions p"
  "cc_PreOwnership (snd (stepSplitApplyCoordMutation ev req (p, ctx))) = snapshotOwnershipLocked (ev_orders ev) req p"
  by (auto simp: stepSplitApplyCoordMutation_def split_control_def flip_owners_map Let_def split: option.splits)

lemma target_keys:
  "split_target req v = Some t \<Longrightarrow> fst t = sr_Key v" "merge_target req v = Some t \<Longrightarrow> fst t = sr_Key v"
  by (auto simp: split_target_def merge_target_def Let_def split: if_splits)

lemma split_result:
  shows "p_Control (plan_result (buildSplitPlan ev req) p) = applyRegistryDelta (ev_orders ev) (ev_base ev) (rq_mutation req)
      (snapshotOwnershipLocked (ev_orders ev) req p) (split_control ev req (p_Control p))"
    and "enumerates (ev_sessions ev) (p_Sessions p) \<Longrightarrow> keyed (p_Sessions p) \<Longrightarrow>
      p_Sessions (plan_result (buildSplitPlan ev req) p) j = map_option (moved (split_target req)) (p_Sessions p j)"
proof -
  show "p_Control (plan_result (buildSplitPlan ev req) p) = applyRegistryDelta (ev_orders ev) (ev_base ev) (rq_mutation req)
      (snapshotOwnershipLocked (ev_orders ev) req p) (split_control ev req (p_Control p))"
    by (simp add: plan_result_def buildSplitPlan_def)
  assume k: "enumerates (ev_sessions ev) (p_Sessions p)" "keyed (p_Sessions p)"
  define s where "s = stepApplyRewireDirectives (stepSplitApplyCoordMutation ev req (p, empty_context))"
  have ps: "p_Sessions (fst s) = p_Sessions p" by (simp add: s_def)
  have "p_Sessions (fst (stepSplitRemapSessions ev req s)) j = map_option (moved (split_target req)) (p_Sessions p j)"
    unfolding stepSplitRemapSessions_def case_prod_unfold fst_conv
    by (subst moved_sessions) (use k in \<open>simp_all add: ps target_keys\<close>)
  then show "p_Sessions (plan_result (buildSplitPlan ev req) p) j = map_option (moved (split_target req)) (p_Sessions p j)"
    by (simp add: plan_result_def buildSplitPlan_def s_def)
qed

text \<open>
  The state a commit starts from: a registry in which no cell has two owners, a neighbour graph
  that is the full one, a session table keyed by its sessions, orders that list these maps.
\<close>

definition commit_ready :: "commit_env \<Rightarrow> process \<Rightarrow> host_registry \<Rightarrow> topology \<Rightarrow> bool" where
  "commit_ready ev p r t \<longleftrightarrow> cp_Registry (p_Control p) = Some r \<and> one_owner r \<and> enumerates (o_hosts (ev_orders ev)) r \<and>
     cp_Topology (p_Control p) = Some t \<and> topo_ok (ev_base ev) t \<and>
     enumerates (ev_sessions ev) (p_Sessions p) \<and> keyed (p_Sessions p)"

text \<open>
  A request as \<open>BeginSplit\<close> makes it, for the control plane \<open>c\<close>: every command has the parent and
  its owner as source, exactly the children are added, each on a registered host that does not
  yet own it, and users were adopted by children only.
\<close>

definition split_request :: "go_orders \<Rightarrow> control_plane \<Rightarrow> host_registry \<Rightarrow> transfer_request \<Rightarrow> bool" where
  "split_request o' c r req \<longleftrightarrow>
     (let parent = MeshID (rq_SrcCell req); add = tm_add (rq_mutation req)
      in rq_commands req \<noteq> [] \<and>
         (\<forall>cmd \<in> set (rq_commands req). tc_SrcCellID cmd = parent \<and> OwnerOf o' parent c = Some (tc_SrcHostID cmd)) \<and>
         tm_remove (rq_mutation req) = [parent] \<and> dom add = MeshID ` set (Children (rq_SrcCell req)) \<and>
         ran add \<subseteq> dom r \<and> (\<forall>k \<in> dom add. \<forall>h. \<not> owned_by r h k) \<and>
         enumerates (o_map o' add) add \<and> ran (rq_adoptedUsers req) \<subseteq> dom add)"

lemma mesh_on_same_graph:
  assumes "mesh_on base D c" and "set cells = D"
  shows "\<exists>t. cp_Topology c = Some t \<and> same_graph t (ComputeTopology cells base)"
  using assms consistent_same_graph unfolding mesh_on_def topo_ok_def ComputeTopology_def by blast

lemma split_control_mesh:
  fixes ev req
  defines "parent \<equiv> rq_SrcCell req" and "base \<equiv> ev_base ev"
  assumes t: "cp_Topology c = Some t" "topo_ok base t" "parent \<in> dom t" and kids: "\<forall>k \<in> set (Children parent). exact_cell base k"
    "set (Children parent) \<inter> dom t = {}" and ord: "lists_graphs (ev_orders ev) (dom t - {parent} \<union> set (Children parent))"
  shows "mesh_on base (dom t - {parent} \<union> set (Children parent)) (split_control ev req c)"
    and "cp_Registry (split_control ev req c) = cp_Registry c"
    and "cp_CellToHost (split_control ev req c) = cp_CellToHost (flip_owners (rq_mutation req) c)"
    and "OwnerOf o' k (split_control ev req c) = OwnerOf o' k (flip_owners (rq_mutation req) c)"
proof -
  let ?D = "dom t - {parent} \<union> set (Children parent)" and ?u = "UpdateAfterSplit parent (Children parent) base t"
  have con: "consistent (\<lambda>a b. AreAdjacent a b base) t" "\<forall>x \<in> dom t. exact_cell base x" using t(2) by (simp_all add: topo_ok_def)
  note sp = cells.split_consistent [OF con(1) t(3) con(2) kids]
  have u: "topo_ok base ?u" "dom ?u = ?D" using sp con(2) kids(1) unfolding topo_ok_def UpdateAfterSplit_def by auto
  have "enumerates (o_keys (ev_orders ev) ?u) ?u" using ord u(2) by (simp add: lists_graphs_def)
  from topo_ok_rebuild [OF u(1) this] u(2)
  show "mesh_on base ?D (split_control ev req c)"
    using t(1) by (simp add: mesh_on_def split_control_def parent_def base_def Let_def)
qed (use t(1) in \<open>simp_all add: split_control_def flip_owners_map Let_def\<close>)

lemma flip_owners_other:
  assumes "cp_Registry c = Some r" and "k \<notin> dom (tm_add m)" and "k \<notin> set (tm_remove m)"
  shows "OwnerOf o' k (flip_owners m c) = OwnerOf o' k c"
  by (rule OwnerOf_cong [of _ r _ r]) (use assms in \<open>simp_all add: flip_owners_map domIff\<close>)

lemma split_commit_control:
  fixes ev req p
  defines "parent \<equiv> rq_SrcCell req" and "add \<equiv> tm_add (rq_mutation req)" and "o' \<equiv> ev_orders ev"
  defines "c' \<equiv> p_Control (plan_result (buildSplitPlan ev req) p)"
  assumes ready: "commit_ready ev p r t" and req: "split_request o' (p_Control p) r req"
    and cell: "parent \<in> dom t" "\<forall>k \<in> set (Children parent). exact_cell (ev_base ev) k" "set (Children parent) \<inter> dom t = {}"
    and ord: "lists_graphs o' (dom t - {parent} \<union> set (Children parent))"
  shows "mesh_on (ev_base ev) (dom t - {parent} \<union> set (Children parent)) c'"
    and "OwnerOf o' k c' = (if k \<in> dom add then add k else if k = MeshID parent then None else OwnerOf o' k (p_Control p))"
proof -
  let ?c = "p_Control p" and ?m = "rq_mutation req" and ?D = "dom t - {parent} \<union> set (Children parent)"
  let ?pre = "snapshotOwnershipLocked o' req p" and ?c1 = "split_control ev req (p_Control p)"
  have st: "cp_Registry ?c = Some r" "one_owner r" "enumerates (o_hosts o') r" "cp_Topology ?c = Some t" "topo_ok (ev_base ev) t"
    using ready by (simp_all add: commit_ready_def o'_def)
  have rq: "rq_commands req \<noteq> []" "\<And>cmd. cmd \<in> set (rq_commands req) \<Longrightarrow> tc_SrcCellID cmd = MeshID parent"
    "\<And>cmd. cmd \<in> set (rq_commands req) \<Longrightarrow> OwnerOf o' (MeshID parent) ?c = Some (tc_SrcHostID cmd)"
    "tm_remove ?m = [MeshID parent]" "dom add = MeshID ` set (Children parent)" "ran add \<subseteq> dom r"
    "\<And>k h. k \<in> dom add \<Longrightarrow> \<not> owned_by r h k" "enumerates (o_map o' add) add"
    using req unfolding split_request_def parent_def add_def Let_def by blast+
  note sc = split_control_mesh [OF st(4,5) cell [unfolded parent_def] ord [unfolded parent_def o'_def], folded parent_def]
  have exact: "\<forall>x \<in> dom t. exact_cell (ev_base ev) x" using st(5) by (simp add: topo_ok_def)
  have known: "?pre (MeshID parent) = Some h" if "owned_by r h (MeshID parent)" for h
  proof -
    have o: "OwnerOf o' (MeshID parent) ?c = Some h" by (rule OwnerOf_owned [OF st(1,3,2) that])
    obtain cmd where cmd: "cmd \<in> set (rq_commands req)" using rq(1) by (cases "rq_commands req") auto
    have "h \<noteq> ''''" using that st(2) by (auto simp: one_owner_def owned_by_def)
    then show ?thesis using rq(2,3) o cmd by (intro snapshot_command [of cmd]) auto
  qed
  have fresh: "MeshID parent \<notin> dom add"
    using cell exact rq(5) exact_MeshID_inj [of "ev_base ev" parent] by blast
  have parse: "\<exists>cid. ParseCellID k = Some cid \<and> (cid \<in> ?D \<longleftrightarrow> k \<in> dom add)" if "k \<in> set (tm_remove ?m) \<union> dom add" for k
  proof (cases "k \<in> dom add")
    case True
    then obtain x where "x \<in> set (Children parent)" "k = MeshID x" using rq(5) by auto
    then show ?thesis using True cell(2) exact_parse by blast
  next
    case False
    then have "k = MeshID parent" using that rq(4) by simp
    moreover have "parent \<notin> set (Children parent)" using cell(1,3) by blast
    ultimately show ?thesis using False cell(1) exact exact_parse by blast
  qed
  have reg: "cp_Registry ?c1 = Some r" using st(1) by (simp add: sc(2))
  note delta = applyRegistryDelta_spec [of ?c1 r o' ?m "ev_base ev" ?D ?pre, folded add_def, OF reg st(2,3) rq(6) sc(1) ord rq(8)]
  have args: "set (tm_remove ?m) \<inter> dom add = {}" "\<forall>k \<in> set (tm_remove ?m) \<union> dom add. \<forall>h. owned_by r h k \<longrightarrow> ?pre k = Some h"
    "\<forall>k \<in> set (tm_remove ?m). cp_CellToHost ?c1 k = None" "\<forall>k \<in> dom add. cp_CellToHost ?c1 k = add k"
    using fresh known rq(4,7) by (auto simp: sc(3) flip_owners_map add_def [symmetric] domIff)
  have cells: "\<forall>k \<in> set (tm_remove ?m) \<union> dom add. \<exists>cid. ParseCellID k = Some cid \<and> (cid \<in> ?D \<longleftrightarrow> k \<in> dom add)"
    using parse by blast
  note delta = delta [OF args cells]
  have c': "c' = applyRegistryDelta o' (ev_base ev) ?m ?pre ?c1" by (simp add: c'_def split_result(1) o'_def)
  show "mesh_on (ev_base ev) ?D c'" unfolding c' by (rule delta(1))
  have "OwnerOf o' k ?c1 = OwnerOf o' k ?c" if "k \<notin> dom add" "k \<noteq> MeshID parent"
    using flip_owners_other [OF st(1), of k ?m] that rq(4) by (simp add: sc(4) add_def)
  then show "OwnerOf o' k c' = (if k \<in> dom add then add k else if k = MeshID parent then None else OwnerOf o' k ?c)"
    unfolding c' delta(2) unfolding rq(4) by auto
qed

lemma split_moves_sessions:
  assumes req: "split_request o' c r req" and "sr_CellID v = MeshID (rq_SrcCell req)" and "one_owner r"
  defines "add \<equiv> tm_add (rq_mutation req)" and "v' \<equiv> moved (split_target req) v"
  shows "sr_Epoch v' = sr_Epoch v + 1" and "add (sr_CellID v') = Some (sr_HostID v')"
    and "rq_adoptedUsers req (sr_Username v) = Some k \<Longrightarrow> sr_CellID v' = k"
proof -
  let ?d = "case rq_adoptedUsers req (sr_Username v) of Some k \<Rightarrow> k | None \<Rightarrow> MeshID (Children (rq_SrcCell req) ! 0)"
  have "Children (rq_SrcCell req) ! 0 \<in> set (Children (rq_SrcCell req))" by (simp add: length_Children)
  then have "?d \<in> dom add"
    using req ranI [of "rq_adoptedUsers req" "sr_Username v"] unfolding split_request_def Let_def add_def
    by (cases "rq_adoptedUsers req (sr_Username v)") auto
  then obtain h where h: "add ?d = Some h" by blast
  have "h \<noteq> ''''" using h req assms(3) unfolding split_request_def Let_def add_def one_owner_def ran_def by auto
  then have "v' = v\<lparr>sr_Epoch := sr_Epoch v + 1, sr_HostID := h, sr_CellID := ?d\<rparr>"
    using h assms(2) by (simp add: v'_def moved_def split_target_def add_def Let_def)
  then show "sr_Epoch v' = sr_Epoch v + 1" "add (sr_CellID v') = Some (sr_HostID v')"
    "rq_adoptedUsers req (sr_Username v) = Some k \<Longrightarrow> sr_CellID v' = k" using h by simp_all
qed

text \<open>
  C1. A split commit brings every view of the mesh to the new layout. It returns (it does not fail
  or panic outside panic mode); afterwards the ownership lookup gives each child the host the
  request chose, the parent has no owner and every other cell keeps its own; the neighbour graph is
  the full recomputation on the new cells; and every session of the parent is routed, with a
  larger epoch, to a child and to the host that owns that child, the child that adopted its user
  if there is one, while all other sessions are untouched.
\<close>

theorem split_commit_reaches_the_new_layout:
  assumes "commit_ready ev p r t" and "split_request (ev_orders ev) (p_Control p) r req" and "rq_SrcCell req = c"
    and "c \<in> dom t" and "\<forall>k \<in> set (Children c). exact_cell (ev_base ev) k" and "set (Children c) \<inter> dom t = {}"
    and "lists_graphs (ev_orders ev) (dom t - {c} \<union> set (Children c))"
    and "set cells = dom t - {c} \<union> set (Children c)" and "mode \<noteq> InvariantPanic"
  shows "\<exists>p' l'. applySplitCommit ev mode req (p, l) = Some (p', l') \<and>
    (\<forall>k. OwnerOf (ev_orders ev) k (p_Control p') =
      (if k \<in> MeshID ` set (Children c) then tm_add (rq_mutation req) k
       else if k = MeshID c then None else OwnerOf (ev_orders ev) k (p_Control p))) \<and>
    (\<exists>t'. cp_Topology (p_Control p') = Some t' \<and> same_graph t' (ComputeTopology cells (ev_base ev))) \<and>
    (\<forall>j v. p_Sessions p j = Some v \<longrightarrow> (\<exists>v'. p_Sessions p' j = Some v' \<and>
      (if sr_CellID v = MeshID c
       then sr_Epoch v' = sr_Epoch v + 1 \<and> sr_CellID v' \<in> MeshID ` set (Children c) \<and>
         OwnerOf (ev_orders ev) (sr_CellID v') (p_Control p') = Some (sr_HostID v') \<and>
         (\<forall>k. rq_adoptedUsers req (sr_Username v) = Some k \<longrightarrow> sr_CellID v' = k)
       else v' = v)))"
proof -
  let ?p = "plan_result (buildSplitPlan ev req) p" and ?add = "tm_add (rq_mutation req)"
  obtain l' where run: "applySplitCommit ev mode req (p, l) = Some (?p, l')"
    using apply_plan_total [OF assms(9) plans_total(1)] unfolding applySplitCommit_def by blast
  have keys: "dom ?add = MeshID ` set (Children c)" using assms(2,3) unfolding split_request_def Let_def by blast
  note ctl = split_commit_control [of ev p r t req, unfolded assms(3), OF assms(1,2,4-7)]
  have own: "\<forall>k. OwnerOf (ev_orders ev) k (p_Control ?p) =
      (if k \<in> MeshID ` set (Children c) then ?add k else if k = MeshID c then None else OwnerOf (ev_orders ev) k (p_Control p))"
    using ctl(2) unfolding keys by blast
  have ses: "p_Sessions ?p j = map_option (moved (split_target req)) (p_Sessions p j)" for j
    using split_result(2) assms(1) by (simp add: commit_ready_def)
  have one: "one_owner r" using assms(1) by (simp add: commit_ready_def)
  have "\<exists>v'. p_Sessions ?p j = Some v' \<and>
      (if sr_CellID v = MeshID c
       then sr_Epoch v' = sr_Epoch v + 1 \<and> sr_CellID v' \<in> MeshID ` set (Children c) \<and>
         OwnerOf (ev_orders ev) (sr_CellID v') (p_Control ?p) = Some (sr_HostID v') \<and>
         (\<forall>k. rq_adoptedUsers req (sr_Username v) = Some k \<longrightarrow> sr_CellID v' = k)
       else v' = v)" if v: "p_Sessions p j = Some v" for j v
  proof (cases "sr_CellID v = MeshID c")
    case True
    note m = split_moves_sessions [OF assms(2), unfolded assms(3), OF True one]
    have "sr_CellID (moved (split_target req) v) \<in> MeshID ` set (Children c)" using m(2) keys by blast
    then show ?thesis using True ses v m own by simp
  next
    case False
    then show ?thesis using ses v by (simp add: moved_def split_target_def assms(3) Let_def)
  qed
  then show ?thesis using run own mesh_on_same_graph [OF ctl(1) assms(8)] by blast
qed

section \<open>Merge\<close>

definition merge_control :: "commit_env \<Rightarrow> transfer_request \<Rightarrow> control_plane \<Rightarrow> control_plane" where
  "merge_control ev req c =
     (case cp_Topology c of
        None \<Rightarrow> flip_owners (rq_mutation req) c
      | Some t \<Rightarrow>
          (let parent = rq_SrcCell req;
               t = UpdateAfterMerge (o_ext1 (ev_orders ev)) (o_ext2 (ev_orders ev)) (Children parent) parent (ev_base ev) t;
               t = RebuildNeighborsFor (o_keys (ev_orders ev) t) (o_front (ev_orders ev)) [parent] (ev_base ev) t
           in (flip_owners (rq_mutation req) c)\<lparr>cp_Topology := Some t\<rparr>))"

lemma merge_first [simp]:
  "p_Control (fst (stepMergeApplyCoordMutation ev req (p, ctx))) = merge_control ev req (p_Control p)"
  "p_Sessions (fst (stepMergeApplyCoordMutation ev req (p, ctx))) = p_Sessions p"
  "cc_PreOwnership (snd (stepMergeApplyCoordMutation ev req (p, ctx))) = snapshotOwnershipLocked (ev_orders ev) req p"
  unfolding stepMergeApplyCoordMutation_def merge_control_def Let_def case_prod_unfold fst_conv snd_conv
  by (simp_all add: flip_owners_map split: option.splits)

lemma merge_result:
  shows "p_Control (plan_result (buildMergePlan ev req) p) = applyRegistryDelta (ev_orders ev) (ev_base ev) (rq_mutation req)
      (snapshotOwnershipLocked (ev_orders ev) req p) (merge_control ev req (p_Control p))"
    and "enumerates (ev_sessions ev) (p_Sessions p) \<Longrightarrow> keyed (p_Sessions p) \<Longrightarrow>
      p_Sessions (plan_result (buildMergePlan ev req) p) j = map_option (moved (merge_target req)) (p_Sessions p j)"
proof -
  show "p_Control (plan_result (buildMergePlan ev req) p) = applyRegistryDelta (ev_orders ev) (ev_base ev) (rq_mutation req)
      (snapshotOwnershipLocked (ev_orders ev) req p) (merge_control ev req (p_Control p))"
    by (simp add: plan_result_def buildMergePlan_def)
  assume k: "enumerates (ev_sessions ev) (p_Sessions p)" "keyed (p_Sessions p)"
  define s where "s = stepApplyRewireDirectives (stepMergeRenameSurvivorHost req (stepMergeApplyCoordMutation ev req (p, empty_context)))"
  have ps: "p_Sessions (fst s) = p_Sessions p" by (simp add: s_def)
  have "p_Sessions (fst (stepMergeRemapSessions ev req s)) j = map_option (moved (merge_target req)) (p_Sessions p j)"
    unfolding stepMergeRemapSessions_def case_prod_unfold fst_conv
    by (subst moved_sessions) (use k in \<open>simp_all add: ps target_keys\<close>)
  then show "p_Sessions (plan_result (buildMergePlan ev req) p) j = map_option (moved (merge_target req)) (p_Sessions p j)"
    by (simp add: plan_result_def buildMergePlan_def s_def)
qed

text \<open>
  A request as \<open>BeginMerge\<close> makes it: one command per sibling other than the survivor \<open>sv\<close>, from its
  owner; the siblings are removed and the parent, which no host owns yet, is added.
\<close>

definition merge_request :: "go_orders \<Rightarrow> control_plane \<Rightarrow> host_registry \<Rightarrow> transfer_request \<Rightarrow> cell_id \<Rightarrow> string \<Rightarrow> bool" where
  "merge_request o' c r req sv h \<longleftrightarrow>
     (let parent = rq_SrcCell req; add = tm_add (rq_mutation req)
      in sv \<in> set (Children parent) \<and>
         tc_SrcCellID ` set (rq_commands req) = MeshID ` (set (Children parent) - {sv}) \<and>
         (\<forall>cmd \<in> set (rq_commands req). tc_Kind cmd = CellTransferMerge \<and> tc_DestCellID cmd = MeshID sv \<and>
           OwnerOf o' (tc_SrcCellID cmd) c = Some (tc_SrcHostID cmd)) \<and>
         tm_remove (rq_mutation req) = map MeshID (Children parent) \<and> add = [MeshID parent \<mapsto> h] \<and> h \<in> dom r \<and>
         (\<forall>g. \<not> owned_by r g (MeshID parent)) \<and> o_map o' add = [MeshID parent])"

lemma merge_control_mesh:
  fixes ev req
  defines "parent \<equiv> rq_SrcCell req" and "base \<equiv> ev_base ev"
  assumes t: "cp_Topology c = Some t" "topo_ok base t" "set (Children parent) \<subseteq> dom t" "exact_cell base parent" "parent \<notin> dom t"
    and sh: "shuffles (o_ext1 (ev_orders ev))" "shuffles (o_ext2 (ev_orders ev))"
    and ord: "lists_graphs (ev_orders ev) (dom t - set (Children parent) \<union> {parent})"
  shows "mesh_on base (dom t - set (Children parent) \<union> {parent}) (merge_control ev req c)"
    and "cp_Registry (merge_control ev req c) = cp_Registry c"
    and "cp_CellToHost (merge_control ev req c) = cp_CellToHost (flip_owners (rq_mutation req) c)"
    and "OwnerOf o' k (merge_control ev req c) = OwnerOf o' k (flip_owners (rq_mutation req) c)"
proof -
  let ?D = "dom t - set (Children parent) \<union> {parent}"
  let ?u = "UpdateAfterMerge (o_ext1 (ev_orders ev)) (o_ext2 (ev_orders ev)) (Children parent) parent base t"
  have con: "consistent (\<lambda>a b. AreAdjacent a b base) t" "\<forall>x \<in> dom t. exact_cell base x" using t(2) by (simp_all add: topo_ok_def)
  note me = cells.merge_consistent [OF con(1) t(3-5) con(2) sh]
  have u: "topo_ok base ?u" "dom ?u = ?D" using me con(2) t(4) unfolding topo_ok_def UpdateAfterMerge_def by auto
  have "enumerates (o_keys (ev_orders ev) ?u) ?u" using ord u(2) by (simp add: lists_graphs_def)
  from topo_ok_rebuild [OF u(1) this] u(2)
  show "mesh_on base ?D (merge_control ev req c)"
    using t(1) by (simp add: mesh_on_def merge_control_def parent_def base_def Let_def)
qed (use t(1) in \<open>simp_all add: merge_control_def flip_owners_map Let_def\<close>)

lemma merge_commit_control:
  fixes ev req p
  defines "parent \<equiv> rq_SrcCell req" and "o' \<equiv> ev_orders ev"
  defines "c' \<equiv> p_Control (plan_result (buildMergePlan ev req) p)"
  assumes ready: "commit_ready ev p r t" and req: "merge_request o' (p_Control p) r req sv h"
    and cell: "set (Children parent) \<subseteq> dom t" "exact_cell (ev_base ev) parent" "parent \<notin> dom t"
    and sh: "shuffles (o_ext1 (ev_orders ev))" "shuffles (o_ext2 (ev_orders ev))"
    and ord: "lists_graphs o' (dom t - set (Children parent) \<union> {parent})"
    and sv: "\<forall>g. owned_by r g (MeshID sv) \<longrightarrow> cp_CellToHost (p_Control p) (MeshID sv) = Some g"
  shows "mesh_on (ev_base ev) (dom t - set (Children parent) \<union> {parent}) c'"
    and "OwnerOf o' k c' = (if k = MeshID parent then Some h else if k \<in> MeshID ` set (Children parent) then None else OwnerOf o' k (p_Control p))"
proof -
  let ?c = "p_Control p" and ?m = "rq_mutation req" and ?D = "dom t - set (Children parent) \<union> {parent}"
  let ?pre = "snapshotOwnershipLocked o' req p" and ?c1 = "merge_control ev req (p_Control p)"
  have st: "cp_Registry ?c = Some r" "one_owner r" "enumerates (o_hosts o') r" "cp_Topology ?c = Some t" "topo_ok (ev_base ev) t"
    using ready by (simp_all add: commit_ready_def o'_def)
  have rq: "sv \<in> set (Children parent)" "tc_SrcCellID ` set (rq_commands req) = MeshID ` (set (Children parent) - {sv})"
    "\<And>cmd. cmd \<in> set (rq_commands req) \<Longrightarrow> OwnerOf o' (tc_SrcCellID cmd) ?c = Some (tc_SrcHostID cmd)"
    "tm_remove ?m = map MeshID (Children parent)" "tm_add ?m = [MeshID parent \<mapsto> h]" "h \<in> dom r"
    "\<And>g. \<not> owned_by r g (MeshID parent)" "o_map o' (tm_add ?m) = [MeshID parent]"
    using req unfolding merge_request_def parent_def Let_def by blast+
  note mc = merge_control_mesh [OF st(4,5) cell [unfolded parent_def] sh ord [unfolded parent_def o'_def], folded parent_def]
  have exact: "\<And>x. x \<in> dom t \<Longrightarrow> exact_cell (ev_base ev) x" using st(5) by (simp add: topo_ok_def)
  have exact_in: "exact_cell (ev_base ev) x" if "x \<in> insert parent (set (Children parent))" for x
    using that exact cell(1,2) by blast
  have inj: "x = y" if "MeshID x = MeshID y" "x \<in> insert parent (set (Children parent))" "y \<in> insert parent (set (Children parent))" for x y
    using that(1) exact_MeshID_inj [OF exact_in [OF that(2)] exact_in [OF that(3)]] by simp
  have not_kid: "parent \<notin> set (Children parent)" using cell(1,3) by blast
  have fresh: "MeshID parent \<notin> MeshID ` set (Children parent)"
  proof
    assume "MeshID parent \<in> MeshID ` set (Children parent)"
    then obtain x where x: "x \<in> set (Children parent)" "MeshID parent = MeshID x" by blast
    from inj [OF x(2)] x(1) not_kid show False by simp
  qed
  have sv_key: "MeshID sv \<notin> tc_SrcCellID ` set (rq_commands req)"
  proof
    assume "MeshID sv \<in> tc_SrcCellID ` set (rq_commands req)"
    then obtain x where x: "x \<in> set (Children parent)" "x \<noteq> sv" "MeshID sv = MeshID x" unfolding rq(2) by blast
    from inj [OF x(3)] x(1,2) rq(1) show False by simp
  qed
  have known: "?pre k = Some g" if "k \<in> MeshID ` set (Children parent)" "owned_by r g k" for k g
  proof (cases "k = MeshID sv")
    case True
    have "\<forall>cmd \<in> set (rq_commands req). tc_SrcCellID cmd \<noteq> MeshID sv" using sv_key by force
    moreover have "MeshID sv \<in> set (tm_remove ?m @ o_map o' (tm_add ?m))" using rq(1) unfolding rq(4) by simp
    ultimately have "?pre (MeshID sv) = Some (case cp_CellToHost ?c (MeshID sv) of Some h \<Rightarrow> h | None \<Rightarrow> '''')" by (rule snapshot_map)
    then show ?thesis using True that(2) sv by simp
  next
    case False
    have o: "OwnerOf o' k ?c = Some g" by (rule OwnerOf_owned [OF st(1,3,2) that(2)])
    have g: "g \<noteq> ''''" using that st(2) by (auto simp: one_owner_def owned_by_def)
    have "k \<in> tc_SrcCellID ` set (rq_commands req)" using that(1) False unfolding rq(2) by auto
    then obtain cmd where cmd: "cmd \<in> set (rq_commands req)" "tc_SrcCellID cmd = k" by blast
    have "\<forall>cmd \<in> set (rq_commands req). tc_SrcCellID cmd = k \<longrightarrow> tc_SrcHostID cmd = g" using o rq(3) by auto
    moreover have "k \<noteq> ''''" using that(1) by auto
    ultimately show ?thesis by (rule snapshot_command [OF cmd(1) _ cmd(2) _ g])
  qed
  have cells: "\<forall>k \<in> set (tm_remove ?m) \<union> dom (tm_add ?m). \<exists>cid. ParseCellID k = Some cid \<and> (cid \<in> ?D \<longleftrightarrow> k \<in> dom (tm_add ?m))"
  proof
    fix k
    assume "k \<in> set (tm_remove ?m) \<union> dom (tm_add ?m)"
    then obtain x where x: "x \<in> insert parent (set (Children parent))" "k = MeshID x" unfolding rq(4,5) by auto
    have "ParseCellID k = Some x" unfolding x(2) by (rule exact_parse [OF exact_in [OF x(1)]])
    moreover have "x \<in> ?D \<longleftrightarrow> x = parent" using x(1) cell(1,3) by blast
    moreover have "k \<in> dom (tm_add ?m) \<longleftrightarrow> x = parent" using x inj [of x parent] unfolding rq(5) by auto
    ultimately show "\<exists>cid. ParseCellID k = Some cid \<and> (cid \<in> ?D \<longleftrightarrow> k \<in> dom (tm_add ?m))" by blast
  qed
  have reg: "cp_Registry ?c1 = Some r" using st(1) by (simp add: mc(2))
  have args: "ran (tm_add ?m) \<subseteq> dom r" "enumerates (o_map o' (tm_add ?m)) (tm_add ?m)" "set (tm_remove ?m) \<inter> dom (tm_add ?m) = {}"
    using fresh rq(6) unfolding rq(4,5) rq(8) [unfolded rq(5)] by (simp_all add: enumerates_def)
  have args': "\<forall>k \<in> set (tm_remove ?m). cp_CellToHost ?c1 k = None" "\<forall>k \<in> dom (tm_add ?m). cp_CellToHost ?c1 k = tm_add ?m k"
    using fresh unfolding mc(3) flip_owners_map rq(4,5) by (auto split: if_splits) (metis imageI)
  have pre: "\<forall>k \<in> set (tm_remove ?m) \<union> dom (tm_add ?m). \<forall>h. owned_by r h k \<longrightarrow> ?pre k = Some h"
    using known rq(7) unfolding rq(4,5) by auto
  note delta = applyRegistryDelta_spec [OF reg st(2,3) args(1) mc(1) ord args(2,3) pre args' cells]
  have c': "c' = applyRegistryDelta o' (ev_base ev) ?m ?pre ?c1" by (simp add: c'_def merge_result(1) o'_def)
  show "mesh_on (ev_base ev) ?D c'" unfolding c' by (rule delta(1))
  have "OwnerOf o' k ?c1 = OwnerOf o' k ?c" if "k \<noteq> MeshID parent" "k \<notin> MeshID ` set (Children parent)"
    using flip_owners_other [OF st(1), of k ?m] that unfolding mc(4) rq(4,5) by simp
  then show "OwnerOf o' k c' = (if k = MeshID parent then Some h else if k \<in> MeshID ` set (Children parent) then None else OwnerOf o' k ?c)"
    unfolding c' delta(2) unfolding rq(4,5) by auto
qed

lemma merge_affected_siblings:
  assumes "merge_request o' c r req sv h" and "\<And>x y. x \<in> set (Children (rq_SrcCell req)) \<Longrightarrow> y \<in> set (Children (rq_SrcCell req)) \<Longrightarrow> MeshID x = MeshID y \<Longrightarrow> x = y"
    and "rq_commands req \<noteq> []"
  shows "merge_affected req = MeshID ` set (Children (rq_SrcCell req))"
proof -
  let ?kids = "set (Children (rq_SrcCell req))"
  have rq: "sv \<in> ?kids" "tc_SrcCellID ` set (rq_commands req) = MeshID ` (?kids - {sv})"
    "\<And>cmd. cmd \<in> set (rq_commands req) \<Longrightarrow> tc_Kind cmd = CellTransferMerge \<and> tc_DestCellID cmd = MeshID sv"
    using assms(1) unfolding merge_request_def Let_def by blast+
  have "survivor_key req = MeshID sv" using rq(3) assms(3) by (cases "rq_commands req") (auto simp: survivor_key_def)
  moreover have "{tc_SrcCellID cmd | cmd. cmd \<in> set (rq_commands req) \<and> tc_Kind cmd = CellTransferMerge \<and> tc_SrcCellID cmd \<noteq> ''''} =
      tc_SrcCellID ` set (rq_commands req) - {''''}" using rq(3) by auto
  ultimately show ?thesis using rq(1) unfolding merge_affected_def rq(2) by auto
qed

text \<open>
  C2. A merge commit brings every view of the mesh to the new layout, provided the coordinator's map
  names the survivor's owner: the parent is owned by the survivor's host and the four siblings by
  nobody, other cells keep their owner, the neighbour graph is the full recomputation, and every
  session of a sibling is routed to the parent and its owner with a larger epoch.
\<close>

theorem merge_commit_reaches_the_new_layout:
  assumes "commit_ready ev p r t" and "merge_request (ev_orders ev) (p_Control p) r req sv h" and "rq_SrcCell req = c"
    and "set (Children c) \<subseteq> dom t" and "exact_cell (ev_base ev) c" and "c \<notin> dom t"
    and "shuffles (o_ext1 (ev_orders ev))" and "shuffles (o_ext2 (ev_orders ev))"
    and "lists_graphs (ev_orders ev) (dom t - set (Children c) \<union> {c})"
    and "\<forall>g. owned_by r g (MeshID sv) \<longrightarrow> cp_CellToHost (p_Control p) (MeshID sv) = Some g"
    and "set cells = dom t - set (Children c) \<union> {c}" and "rq_commands req \<noteq> []" and "mode \<noteq> InvariantPanic"
  shows "\<exists>p' l'. applyMergeCommit ev mode req (p, l) = Some (p', l') \<and>
    (\<forall>k. OwnerOf (ev_orders ev) k (p_Control p') =
      (if k = MeshID c then Some h else if k \<in> MeshID ` set (Children c) then None else OwnerOf (ev_orders ev) k (p_Control p))) \<and>
    (\<exists>t'. cp_Topology (p_Control p') = Some t' \<and> same_graph t' (ComputeTopology cells (ev_base ev))) \<and>
    (\<forall>j v. p_Sessions p j = Some v \<longrightarrow> p_Sessions p' j =
      Some (if sr_CellID v \<in> MeshID ` set (Children c) then v\<lparr>sr_Epoch := sr_Epoch v + 1, sr_HostID := h, sr_CellID := MeshID c\<rparr> else v))"
proof -
  let ?p = "plan_result (buildMergePlan ev req) p"
  obtain l' where run: "applyMergeCommit ev mode req (p, l) = Some (?p, l')"
    using apply_plan_total [OF assms(13) plans_total(2)] unfolding applyMergeCommit_def by blast
  note ctl = merge_commit_control [of ev p r t req, unfolded assms(3), OF assms(1,2,4-10)]
  have ses: "p_Sessions ?p j = map_option (moved (merge_target req)) (p_Sessions p j)" for j
    using merge_result(2) assms(1) by (simp add: commit_ready_def)
  have exact: "exact_cell (ev_base ev) x" if "x \<in> set (Children c)" for x
    using that assms(1,4) by (auto simp: commit_ready_def topo_ok_def)
  have "MeshID x = MeshID y \<Longrightarrow> x = y" if "x \<in> set (Children c)" "y \<in> set (Children c)" for x y
    using exact_MeshID_inj [OF exact [OF that(1)] exact [OF that(2)]] by simp
  then have aff: "merge_affected req = MeshID ` set (Children c)"
    using merge_affected_siblings [OF assms(2), unfolded assms(3)] assms(12) by blast
  have add: "tm_add (rq_mutation req) (MeshID c) = Some h" using assms(2,3) unfolding merge_request_def Let_def by simp
  have "p_Sessions ?p j = Some (if sr_CellID v \<in> MeshID ` set (Children c) then v\<lparr>sr_Epoch := sr_Epoch v + 1, sr_HostID := h, sr_CellID := MeshID c\<rparr> else v)"
    if "p_Sessions p j = Some v" for j v
    using that ses [of j] add by (simp add: moved_def merge_target_def aff assms(3) Let_def)
  then show ?thesis using run ctl(2) mesh_on_same_graph [OF ctl(1) assms(11)] by blast
qed

section \<open>Migrate\<close>

definition migrate_request :: "go_orders \<Rightarrow> control_plane \<Rightarrow> host_registry \<Rightarrow> transfer_request \<Rightarrow> string \<Rightarrow> bool" where
  "migrate_request o' c r req dest \<longleftrightarrow>
     (let k = MeshID (rq_SrcCell req); add = tm_add (rq_mutation req)
      in (\<exists>cmd. rq_commands req = [cmd] \<and> tc_SrcCellID cmd = k \<and> OwnerOf o' k c = Some (tc_SrcHostID cmd)) \<and>
         tm_remove (rq_mutation req) = [] \<and> add = [k \<mapsto> dest] \<and> dest \<in> dom r \<and> o_map o' add = [k])"

lemma migrate_first:
  "p_Control (fst (stepMigrateApplyCoordMutation ev req (p, ctx))) = (p_Control p)\<lparr>cp_CellToHost := (cp_CellToHost (p_Control p))
     (MeshID (rq_SrcCell req) \<mapsto> (case tm_add (rq_mutation req) (MeshID (rq_SrcCell req)) of Some h \<Rightarrow> h | None \<Rightarrow> ''''))\<rparr>"
  "p_Sessions (fst (stepMigrateApplyCoordMutation ev req (p, ctx))) = p_Sessions p"
  "cc_PreOwnership (snd (stepMigrateApplyCoordMutation ev req (p, ctx))) = snapshotOwnershipLocked (ev_orders ev) req p"
  unfolding stepMigrateApplyCoordMutation_def Let_def prod.case fst_conv snd_conv by (simp_all split: option.splits)

lemma migrate_result:
  fixes p :: process
  assumes "tm_add (rq_mutation req) = [MeshID (rq_SrcCell req) \<mapsto> dest]"
  defines "k \<equiv> MeshID (rq_SrcCell req)" and "c \<equiv> p_Control p"
  shows "p_Control (plan_result (buildMigratePlan ev req) p) = applyRegistryDelta (ev_orders ev) (ev_base ev) (rq_mutation req)
      (snapshotOwnershipLocked (ev_orders ev) req p) (c\<lparr>cp_CellToHost := (cp_CellToHost c)(k \<mapsto> dest)\<rparr>)"
    and "enumerates (ev_sessions ev) (p_Sessions p) \<Longrightarrow> p_Sessions p j = Some v \<Longrightarrow>
      p_Sessions (plan_result (buildMigratePlan ev req) p) j =
        Some (if sr_CellID v = k then v\<lparr>sr_Epoch := sr_Epoch v + 1, sr_HostID := dest\<rparr> else v)"
proof -
  show "p_Control (plan_result (buildMigratePlan ev req) p) = applyRegistryDelta (ev_orders ev) (ev_base ev) (rq_mutation req)
      (snapshotOwnershipLocked (ev_orders ev) req p) (c\<lparr>cp_CellToHost := (cp_CellToHost c)(k \<mapsto> dest)\<rparr>)"
    by (simp add: plan_result_def buildMigratePlan_def migrate_first assms)
  assume keys: "enumerates (ev_sessions ev) (p_Sessions p)" and v: "p_Sessions p j = Some v"
  have d: "distinct (ev_sessions ev)" "j \<in> set (ev_sessions ev)" using keys v by (auto simp: enumerates_def)
  let ?s = "stepMigrateApplyCoordMutation ev req (p, empty_context)"
  have "p_Sessions (fst (stepMigrateRemapSessions ev req ?s)) j =
      fst (remapHostCell (ev_sessions ev) (\<lambda>cellID. cellID = k) dest k (p_Sessions p)) j"
    unfolding stepMigrateRemapSessions_def Let_def case_prod_unfold by (simp add: assms migrate_first(2))
  also have "\<dots> = Some (if sr_CellID v = k then v\<lparr>sr_Epoch := sr_Epoch v + 1, sr_HostID := dest\<rparr> else v)"
    unfolding remapHostCell_def remap_where_spec(1) [OF d(1)] using d(2) v by auto
  finally show "p_Sessions (plan_result (buildMigratePlan ev req) p) j =
        Some (if sr_CellID v = k then v\<lparr>sr_Epoch := sr_Epoch v + 1, sr_HostID := dest\<rparr> else v)"
    by (simp add: plan_result_def buildMigratePlan_def)
qed


section \<open>Further properties of the commits\<close>

text \<open>
  C4. Outside panic mode every commit plan runs to its end: no step fails, the result is that of
  the steps in order, and the commit log grows by the begin event, one success event per step in
  order, and the end event, with only reports of violated invariants between them.
\<close>

theorem commit_plans_run_to_the_end:
  assumes "mode \<noteq> InvariantPanic" and "plan \<in> {buildSplitPlan ev req, buildMergePlan ev req, buildMigratePlan ev req}"
  shows "\<exists>l'. ExecuteCommitPlan ev mode plan p l = Some (None, plan_result plan p, l') \<and> logged ev (plan_events ev plan) l l'"
  using assms plans_total by (intro execute_total) auto

lemma sorted_filter_ids:
  assumes "enumerates (ev_ids ev before) before"
  shows "set (sort (filter P (ev_ids ev before))) = {n. before n \<noteq> None \<and> P n}"
  using assms by (auto simp: enumerates_def)


lemma delta_keeps_unknown_owner:
  assumes "cp_Registry c = Some r" and "owned_by r g k" and "pre k \<noteq> Some g"
  shows "\<exists>r'. cp_Registry (applyRegistryDelta o' base m pre c) = Some r' \<and> owned_by r' g k \<and> dom r' = dom r"
proof -
  let ?I = "\<lambda>c. \<exists>r'. cp_Registry c = Some r' \<and> owned_by r' g k \<and> dom r' = dom r"
  have rel: "?I (release_cell o' base h j c)" if "?I c" "pre j = Some h" for h j c
    using that assms(3) by (auto simp: release_cell_def owned_by_Release)
  have asg: "?I (assign_cell o' base h j c)" if "?I c" for h j c
  proof -
    obtain r' where r': "cp_Registry c = Some r'" "owned_by r' g k" "dom r' = dom r" using \<open>?I c\<close> by blast
    show ?thesis
    proof (cases "AssignCell h j r'")
      case None
      then show ?thesis using r' by (simp add: assign_cell_def)
    next
      case (Some r2)
      then show ?thesis using r' owned_by_Assign [OF Some] dom_registry(2) [OF Some] by (simp add: assign_cell_def)
    qed
  qed
  have "?I (release_step o' base pre j c)" "?I (claim_step o' base (tm_add m) pre j c)" if "?I c" for j c
    using that rel asg by (auto simp: Let_def split: option.splits)
  then have "?I (fold (claim_step o' base (tm_add m) pre) xs (fold (release_step o' base pre) ys c))" if "?I c" for xs ys c
    by (intro fold_invariant [where P = ?I and Q = "\<lambda>_. True"]) (use that in simp_all)
  then show ?thesis using assms(1,2) by (auto simp: applyRegistryDelta_def Let_def)
qed

text \<open>
  C17. A merge commit whose survivor is owned only in the host registry, as on a coordinator that
  runs no cells, does not release it: the snapshot of owners covers the donors through the commands
  but looks the survivor up in the coordinator's map alone. After the commit the survivor's old key
  still has an owner although the cell is gone.
\<close>

theorem merge_leaves_unmapped_survivor_owned:
  assumes "cp_Registry (p_Control p) = Some r" and "one_owner r" and "enumerates (o_hosts (ev_orders ev)) r" and "owned_by r g (MeshID sv)"
    and "cp_CellToHost (p_Control p) (MeshID sv) = None" and "MeshID sv \<in> set (tm_remove (rq_mutation req))"
    and "\<forall>cmd \<in> set (rq_commands req). tc_SrcCellID cmd \<noteq> MeshID sv" and "mode \<noteq> InvariantPanic"
  shows "\<exists>p' l'. applyMergeCommit ev mode req (p, l) = Some (p', l') \<and> OwnerOf (ev_orders ev) (MeshID sv) (p_Control p') \<noteq> None"
proof -
  let ?p = "plan_result (buildMergePlan ev req) p" and ?o = "ev_orders ev"
  obtain l' where run: "applyMergeCommit ev mode req (p, l) = Some (?p, l')"
    using apply_plan_total [OF assms(8) plans_total(2)] unfolding applyMergeCommit_def by blast
  have "g \<noteq> ''''" using assms(2,4) by (auto simp: one_owner_def owned_by_def)
  then have pre: "snapshotOwnershipLocked ?o req p (MeshID sv) \<noteq> Some g"
    using snapshot_map [OF assms(7), of ?o p] assms(5,6) by simp
  have "cp_Registry (merge_control ev req (p_Control p)) = Some r"
    using assms(1) by (simp add: merge_control_def flip_owners_map Let_def split: option.splits)
  from delta_keeps_unknown_owner [where pre = "snapshotOwnershipLocked ?o req p", OF this assms(4) pre] obtain r' where
    r': "cp_Registry (p_Control ?p) = Some r'" "owned_by r' g (MeshID sv)" "dom r' = dom r" unfolding merge_result(1) by blast
  have "r' '''' = None" using assms(2) r'(3) by (auto simp: one_owner_def domIff)
  moreover have "g \<in> set (o_hosts ?o)" using assms(3,4) by (auto simp: enumerates_def owned_by_def split: option.splits)
  then have "find (\<lambda>h. owned_by r' h (MeshID sv)) (o_hosts ?o) \<noteq> None" using r'(2) unfolding find_None_iff by blast
  then obtain h where h: "find (\<lambda>h. owned_by r' h (MeshID sv)) (o_hosts ?o) = Some h" by blast
  then have "owned_by r' h (MeshID sv)" by (auto simp: find_Some_iff)
  ultimately have "HostForCell (o_hosts ?o) (MeshID sv) r' \<noteq> ''''"
    unfolding HostForCell_scan h by (auto simp: owned_by_def)
  then show ?thesis using run r'(1) by (auto simp: OwnerOf_def)
qed

text \<open>
  C18. A migrate commit away from the local host stops the cell and removes it from the host, but the
  coordinator's own cell map keeps pointing at the stopped cell.
\<close>

theorem migrate_keeps_stopped_cell_in_map:
  assumes "rq_SrcCell req = c" and "rq_commands req = [cmd]" and "tc_SrcCellID cmd = MeshID c" and "tc_SrcHostID cmd = src" and "src \<noteq> ''''"
    and "tm_add (rq_mutation req) = [MeshID c \<mapsto> dest]" and "p_LocalHost p = Some src" and "dest \<noteq> src"
    and "p_Cells p (MeshID c) = Some n" and "p_HostCells p c = Some n" and "co_CellID (p_Objs p n) = c" and "exact_cell base c"
    and "mode \<noteq> InvariantPanic"
  shows "\<exists>p' l'. applyMigrateCommit ev mode req (p, l) = Some (p', l') \<and> p_Cells p' (MeshID c) = Some n \<and>
    p_HostCells p' c = None \<and> co_Scan (p_Objs p' n) = LoopStopped"
proof -
  let ?p = "plan_result (buildMigratePlan ev req) p" and ?o = "ev_orders ev"
  obtain l' where run: "applyMigrateCommit ev mode req (p, l) = Some (?p, l')"
    using apply_plan_total [OF assms(13) plans_total(3)] unfolding applyMigrateCommit_def by blast
  have pre: "snapshotOwnershipLocked ?o req p (MeshID c) = Some src"
    by (rule snapshot_command [of cmd]) (use assms(2-5) in simp_all)
  have parse: "ParseCellID (MeshID c) = Some c" by (rule exact_parse [OF assms(12)])
  let ?s1 = "stepMigrateApplyCoordMutation ev req (p, empty_context)"
  let ?s3 = "stepApplyRegistryDelta ev req (stepMigrateRemapSessions ev req ?s1)"
  have s1: "p_Cells (fst ?s1) = p_Cells p" "p_HostCells (fst ?s1) = p_HostCells p" "p_Objs (fst ?s1) = p_Objs p"
      "p_LocalHost (fst ?s1) = p_LocalHost p" "cc_SrcHost (snd ?s1) = src"
    using assms(7,8) by (auto simp: stepMigrateApplyCoordMutation_def Let_def assms(1,6) pre)
  have s3: "p_Cells (fst ?s3) = p_Cells p" "p_HostCells (fst ?s3) = p_HostCells p" "p_Objs (fst ?s3) = p_Objs p"
      "p_LocalHost (fst ?s3) = p_LocalHost p" "cc_SrcHost (snd ?s3) = src"
    using s1 by (simp_all add: stepApplyRegistryDelta_def stepMigrateRemapSessions_def Let_def case_prod_unfold)
  let ?s4 = "stepMigrateReleaseSrcHost req ?s3"
  have s4: "p_Cells (fst ?s4) (MeshID c) = Some n" "p_HostCells (fst ?s4) c = None" "co_Scan (p_Objs (fst ?s4) n) = LoopStopped"
    using assms(7,9-11) s3 by (simp_all add: stepMigrateReleaseSrcHost_def host_release_def case_prod_unfold assms(1) parse)
  have "p_Cells ?p = p_Cells (fst ?s4)" "p_HostCells ?p = p_HostCells (fst ?s4)" "p_Objs ?p = p_Objs (fst ?s4)"
    by (simp_all add: plan_result_def buildMigratePlan_def stepBroadcastPeerList_def stepMigrateReleaseSrcNetID_def release_netid_def case_prod_unfold
        split: option.splits)
  then show ?thesis using run s4 by auto
qed

section \<open>Concrete commits\<close>

definition demo_universe :: "cell_id list" where
  "demo_universe = demo_cells @ Children (mk_cell 0 0 0)"

definition demo_keys :: "string list" where
  "demo_keys = map MeshID demo_universe"

definition demo_env :: commit_env where
  "demo_env = \<lparr>ev_orders = \<lparr>o_hosts = [''a'', ''b''], o_owned = (\<lambda>S. []), o_map = (\<lambda>m. filter (\<lambda>k. m k \<noteq> None) demo_keys),
       o_keys = (\<lambda>t. filter (\<lambda>c. t c \<noteq> None) demo_universe), o_front = (\<lambda>xs. xs), o_ext1 = (\<lambda>xs. xs), o_ext2 = (\<lambda>xs. xs)\<rparr>,
     ev_sessions = [demo_key], ev_base = 1000, ev_cooldown = Some 60, ev_now = 0, ev_cells = (\<lambda>m. []),
     ev_ids = (\<lambda>m. [7, 5]), ev_clock = (\<lambda>n. 0), ev_duration = (\<lambda>n. 0)\<rparr>"

definition two_hosts :: "string list \<Rightarrow> host_registry" where
  "two_hosts cells = RegisterLocal ''a'' '''' cells True 1 1 (Register ''b'' '''' False False 2 2 NewHostRegistry)"

definition demo_process :: "(string \<rightharpoonup> string) \<Rightarrow> string list \<Rightarrow> topology \<Rightarrow> string \<Rightarrow> process" where
  "demo_process m cells t cell = \<lparr>p_Control = \<lparr>cp_CellToHost = m, cp_Registry = Some (two_hosts cells), cp_Topology = Some t\<rparr>,
     p_Sessions = [demo_key \<mapsto> \<lparr>sr_Key = demo_key, sr_Username = ''u'', sr_HostID = ''a'', sr_CellID = cell, sr_Epoch = 1\<rparr>],
     p_Directory = new_directory, p_Cells = [''cell_1_0'' \<mapsto> 4], p_CellOwner = [mk_cell 1 0 0 \<mapsto> ''cell_1_0''], p_LocalHost = Some ''a'',
     p_HostCells = [mk_cell 1 0 0 \<mapsto> 4], p_Objs = (\<lambda>n. \<lparr>co_CellID = mk_cell 1 0 0, co_NetIDBase = 0, co_Scan = LiveEntities []\<rparr>),
     p_NetIDs = NewNetIDAllocator 1 1000, p_Cooldowns = Map.empty, p_Sent = []\<rparr>"

lemma two_hosts_facts:
  "owned_by (two_hosts cells) h k \<longleftrightarrow> h = ''a'' \<and> k \<in> set cells" "one_owner (two_hosts cells)" "dom (two_hosts cells) = {''a'', ''b''}"
proof -
  show o: "owned_by (two_hosts cells) h k \<longleftrightarrow> h = ''a'' \<and> k \<in> set cells" for h k
    by (auto simp: owned_by_def two_hosts_def RegisterLocal_def Register_def NewHostRegistry_def)
  show "one_owner (two_hosts cells)" unfolding one_owner_def o by (auto simp: two_hosts_def RegisterLocal_def Register_def NewHostRegistry_def)
  show "dom (two_hosts cells) = {''a'', ''b''}" by (auto simp: two_hosts_def RegisterLocal_def Register_def NewHostRegistry_def)
qed

lemma demo_ready:
  assumes "topo_ok 1000 t"
  shows "commit_ready demo_env (demo_process m cells t cell) (two_hosts cells) t"
  using assms by (auto simp: commit_ready_def demo_env_def demo_process_def two_hosts_facts enumerates_def keyed_def split: if_splits)

lemma demo_keys_eq: "demo_keys = [''cell_0_0'', ''cell_1_0'', ''cell_0_1'', ''cell_d1_0_0'', ''cell_d1_1_0'', ''cell_d1_0_1'', ''cell_d1_1_1'']"
  unfolding demo_keys_def demo_universe_def demo_children demo_cells_def by code_simp

lemma demo_lists:
  "D \<subseteq> set demo_universe \<Longrightarrow> lists_graphs (ev_orders demo_env) D"
  "dom m \<subseteq> set demo_keys \<Longrightarrow> enumerates (o_map (ev_orders demo_env) m) m"
proof -
  have "distinct demo_universe" unfolding demo_universe_def demo_children demo_cells_def by (simp add: mk_cell_def)
  then show "lists_graphs (ev_orders demo_env) D" if "D \<subseteq> set demo_universe"
    using that by (auto simp: lists_graphs_def enumerates_def demo_env_def)
  have "distinct demo_keys" unfolding demo_keys_eq by simp
  then show "enumerates (o_map (ev_orders demo_env) m) m" if "dom m \<subseteq> set demo_keys"
    using that by (auto simp: enumerates_def demo_env_def)
qed

lemma demo_exact:
  "exact_cell 1000 (mk_cell 0 0 0)" "exact_cell 1000 (mk_cell 1 0 0)" "\<forall>k \<in> set (Children (mk_cell 0 0 0)). exact_cell 1000 k"
  unfolding demo_children by (auto intro!: exact_1000 simp: mk_cell_def)

lemma demo_names:
  "MeshID (mk_cell 0 0 0) = ''cell_0_0''" "MeshID (mk_cell 1 0 0) = ''cell_1_0''" "MeshID (mk_cell 0 0 1) = ''cell_d1_0_0''"
  "MeshID (mk_cell 1 0 1) = ''cell_d1_1_0''" "MeshID (mk_cell 0 1 1) = ''cell_d1_0_1''" "MeshID (mk_cell 1 1 1) = ''cell_d1_1_1''"
  by code_simp+

lemma demo_kid_names:
  "MeshID ` set (Children (mk_cell 0 0 0)) = {''cell_d1_0_0'', ''cell_d1_1_0'', ''cell_d1_0_1'', ''cell_d1_1_1''}"
  unfolding demo_children by (simp add: demo_names)

definition demo_command :: "transfer_kind \<Rightarrow> string \<Rightarrow> string \<Rightarrow> transfer_command" where
  "demo_command kind src dest = \<lparr>tc_RequestID = 1, tc_Kind = kind, tc_SrcCellID = src, tc_DestCellID = dest, tc_SrcHostID = ''a'',
     tc_DestHostID = ''b'', tc_Quadrant = 0\<rparr>"

definition demo_commit :: "transfer_kind \<Rightarrow> cell_id \<Rightarrow> transfer_command list \<Rightarrow> (string \<rightharpoonup> string) \<Rightarrow> string list \<Rightarrow> transfer_request" where
  "demo_commit kind c cmds add rem = (new_request 1 kind c [] cmds 1 0 \<lparr>tm_add = add, tm_remove = rem\<rparr>)\<lparr>rq_adoptedUsers := [''u'' \<mapsto> ''cell_d1_1_0'']\<rparr>"

lemma demo_commit_simps [simp]:
  "rq_SrcCell (demo_commit kind c cmds add rem) = c" "rq_commands (demo_commit kind c cmds add rem) = cmds"
  "rq_mutation (demo_commit kind c cmds add rem) = \<lparr>tm_add = add, tm_remove = rem\<rparr>"
  "rq_adoptedUsers (demo_commit kind c cmds add rem) = [''u'' \<mapsto> ''cell_d1_1_0'']"
  by (simp_all add: demo_commit_def new_request_def)

lemma demo_owner:
  "k \<in> set cells \<Longrightarrow> OwnerOf (ev_orders demo_env) k (p_Control (demo_process m cells t cell)) = Some ''a''"
  by (rule OwnerOf_owned [of _ "two_hosts cells"]) (auto simp: demo_process_def two_hosts_facts demo_env_def enumerates_def)

definition demo_split_request :: transfer_request where
  "demo_split_request = demo_commit CellTransferSplit (mk_cell 0 0 0) [demo_command CellTransferSplit ''cell_0_0'' ''cell_d1_0_0'']
     [''cell_d1_0_0'' \<mapsto> ''a'', ''cell_d1_1_0'' \<mapsto> ''b'', ''cell_d1_0_1'' \<mapsto> ''a'', ''cell_d1_1_1'' \<mapsto> ''b''] [''cell_0_0'']"

abbreviation demo_before_split :: process where
  "demo_before_split \<equiv> demo_process Map.empty [''cell_0_0'', ''cell_1_0'', ''cell_0_1''] (ComputeTopology demo_cells 1000) ''cell_0_0''"

theorem split_commit_witness:
  "\<exists>p' l' v'. applySplitCommit demo_env InvariantLog demo_split_request (demo_before_split, newCommitLog 8) = Some (p', l') \<and>
     OwnerOf (ev_orders demo_env) ''cell_0_0'' (p_Control p') = None \<and> OwnerOf (ev_orders demo_env) ''cell_d1_1_0'' (p_Control p') = Some ''b'' \<and>
     p_Sessions p' demo_key = Some v' \<and> sr_Epoch v' = 2 \<and> sr_CellID v' = ''cell_d1_1_0'' \<and> sr_HostID v' = ''b''"
proof -
  let ?cells = "[''cell_0_0'', ''cell_1_0'', ''cell_0_1'']" and ?c = "mk_cell 0 0 0"
  let ?D = "dom (ComputeTopology demo_cells 1000) - {?c} \<union> set (Children ?c)"
  have D: "?D = set ([mk_cell 1 0 0, mk_cell 0 1 0] @ Children ?c)" unfolding demo_topo by (auto simp: demo_cells_def mk_cell_def)
  have "split_request (ev_orders demo_env) (p_Control demo_before_split) (two_hosts ?cells) demo_split_request"
    unfolding split_request_def demo_split_request_def Let_def demo_commit_simps demo_kid_names demo_names
    using demo_owner [of "''cell_0_0''" ?cells] demo_lists(2)
    by (auto simp: demo_command_def two_hosts_facts demo_keys_eq)
  moreover have "lists_graphs (ev_orders demo_env) ?D" unfolding D by (rule demo_lists) (auto simp: demo_universe_def demo_cells_def)
  moreover have "set (Children ?c) \<inter> dom (ComputeTopology demo_cells 1000) = {}"
    unfolding demo_topo demo_children by (simp add: demo_cells_def mk_cell_def)
  moreover have "rq_SrcCell demo_split_request = ?c" by (simp add: demo_split_request_def)
  moreover have "?c \<in> dom (ComputeTopology demo_cells 1000)" unfolding demo_topo by (simp add: demo_cells_def)
  moreover have "\<forall>k \<in> set (Children ?c). exact_cell (ev_base demo_env) k" using demo_exact(3) by (simp add: demo_env_def)
  ultimately obtain p' l' where
    run: "applySplitCommit demo_env InvariantLog demo_split_request (demo_before_split, newCommitLog 8) = Some (p', l')"
    and own: "\<forall>k. OwnerOf (ev_orders demo_env) k (p_Control p') =
      (if k \<in> MeshID ` set (Children ?c) then tm_add (rq_mutation demo_split_request) k
       else if k = MeshID ?c then None else OwnerOf (ev_orders demo_env) k (p_Control demo_before_split))"
    and ses: "\<forall>j v. p_Sessions demo_before_split j = Some v \<longrightarrow> (\<exists>v'. p_Sessions p' j = Some v' \<and>
      (if sr_CellID v = MeshID ?c
       then sr_Epoch v' = sr_Epoch v + 1 \<and> sr_CellID v' \<in> MeshID ` set (Children ?c) \<and>
         OwnerOf (ev_orders demo_env) (sr_CellID v') (p_Control p') = Some (sr_HostID v') \<and>
         (\<forall>k. rq_adoptedUsers demo_split_request (sr_Username v) = Some k \<longrightarrow> sr_CellID v' = k)
       else v' = v))"
    using split_commit_reaches_the_new_layout [OF demo_ready [OF demo_topo(1)], where c = ?c and cells = "[mk_cell 1 0 0, mk_cell 0 1 0] @ Children ?c"
      and mode = InvariantLog and l = "newCommitLog 8"] D by blast
  have o: "OwnerOf (ev_orders demo_env) ''cell_0_0'' (p_Control p') = None" "OwnerOf (ev_orders demo_env) ''cell_d1_1_0'' (p_Control p') = Some ''b''"
    using own unfolding demo_kid_names demo_names by (simp_all add: demo_split_request_def)
  let ?v = "\<lparr>sr_Key = demo_key, sr_Username = ''u'', sr_HostID = ''a'', sr_CellID = ''cell_0_0'', sr_Epoch = 1\<rparr>"
  have "p_Sessions demo_before_split demo_key = Some ?v" by (simp add: demo_process_def)
  with ses obtain v' where v': "p_Sessions p' demo_key = Some v'" "sr_Epoch v' = 1 + 1" "sr_CellID v' = ''cell_d1_1_0''"
    "OwnerOf (ev_orders demo_env) (sr_CellID v') (p_Control p') = Some (sr_HostID v')"
    unfolding demo_names by (force simp: demo_split_request_def)
  with o run show ?thesis by auto
qed

definition demo_merge_request :: transfer_request where
  "demo_merge_request = demo_commit CellTransferMerge (mk_cell 0 0 0)
     (map (\<lambda>k. demo_command CellTransferMerge k ''cell_d1_0_0'') [''cell_d1_1_0'', ''cell_d1_0_1'', ''cell_d1_1_1''])
     [''cell_0_0'' \<mapsto> ''b''] [''cell_d1_0_0'', ''cell_d1_1_0'', ''cell_d1_0_1'', ''cell_d1_1_1'']"

definition demo_before_merge :: "(string \<rightharpoonup> string) \<Rightarrow> process" where
  "demo_before_merge m = demo_process m [''cell_1_0'', ''cell_d1_0_0'', ''cell_d1_1_0'', ''cell_d1_0_1'', ''cell_d1_1_1''] demo_children_topo ''cell_d1_1_1''"

theorem merge_commit_witness:
  "\<exists>p' l'. applyMergeCommit demo_env InvariantLog demo_merge_request (demo_before_merge [''cell_d1_0_0'' \<mapsto> ''a''], newCommitLog 8) = Some (p', l') \<and>
     OwnerOf (ev_orders demo_env) ''cell_0_0'' (p_Control p') = Some ''b'' \<and> OwnerOf (ev_orders demo_env) ''cell_d1_0_0'' (p_Control p') = None \<and>
     map_option sr_CellID (p_Sessions p' demo_key) = Some ''cell_0_0''"
proof -
  let ?cells = "[''cell_1_0'', ''cell_d1_0_0'', ''cell_d1_1_0'', ''cell_d1_0_1'', ''cell_d1_1_1'']" and ?c = "mk_cell 0 0 0"
  let ?p = "demo_before_merge [''cell_d1_0_0'' \<mapsto> ''a'']" and ?D = "dom demo_children_topo - set (Children ?c) \<union> {?c}"
  note t = demo_children_topo_ok
  have D: "?D = set [mk_cell 1 0 0, ?c]" unfolding t(2) demo_children by (auto simp: mk_cell_def)
  have ready: "commit_ready demo_env ?p (two_hosts ?cells) demo_children_topo" unfolding demo_before_merge_def by (rule demo_ready [OF t(1)])
  have own: "k \<in> set ?cells \<Longrightarrow> OwnerOf (ev_orders demo_env) k (p_Control ?p) = Some ''a''" for k
    unfolding demo_before_merge_def by (rule demo_owner)
  have rest: "MeshID ` (set (Children ?c) - {mk_cell 0 0 1}) = {''cell_d1_1_0'', ''cell_d1_0_1'', ''cell_d1_1_1''}"
  proof -
    have "set (Children ?c) - {mk_cell 0 0 1} = {mk_cell 1 0 1, mk_cell 0 1 1, mk_cell 1 1 1}" unfolding demo_children by (auto simp: mk_cell_def)
    then show ?thesis by (simp add: demo_names)
  qed
  have req: "merge_request (ev_orders demo_env) (p_Control ?p) (two_hosts ?cells) demo_merge_request (mk_cell 0 0 1) ''b''"
    unfolding merge_request_def demo_merge_request_def Let_def demo_commit_simps demo_names rest
  proof (intro conjI)
    show "mk_cell 0 0 1 \<in> set (Children ?c)" by (simp add: demo_children)
    show "tm_remove \<lparr>tm_add = [''cell_0_0'' \<mapsto> ''b''], tm_remove = [''cell_d1_0_0'', ''cell_d1_1_0'', ''cell_d1_0_1'', ''cell_d1_1_1'']\<rparr> = map MeshID (Children ?c)"
      unfolding demo_children by (simp add: demo_names)
    show "o_map (ev_orders demo_env) (tm_add \<lparr>tm_add = [''cell_0_0'' \<mapsto> ''b''], tm_remove = [''cell_d1_0_0'', ''cell_d1_1_0'', ''cell_d1_0_1'', ''cell_d1_1_1'']\<rparr>) = [''cell_0_0'']"
      by (simp add: demo_env_def demo_keys_eq)
  qed (use own in \<open>simp_all add: demo_command_def two_hosts_facts\<close>)
  have kids: "set (Children ?c) \<subseteq> dom demo_children_topo" "?c \<notin> dom demo_children_topo"
    unfolding t(2) demo_children by (auto simp: mk_cell_def)
  have rq: "rq_SrcCell demo_merge_request = ?c" "rq_commands demo_merge_request \<noteq> []" by (simp_all add: demo_merge_request_def)
  have ex: "exact_cell (ev_base demo_env) ?c" "shuffles (o_ext1 (ev_orders demo_env))" "shuffles (o_ext2 (ev_orders demo_env))"
    using demo_exact(1) by (simp_all add: demo_env_def shuffles_def)
  have lg: "lists_graphs (ev_orders demo_env) ?D" unfolding D by (rule demo_lists) (auto simp: demo_universe_def demo_cells_def)
  have sv: "\<forall>g. owned_by (two_hosts ?cells) g (MeshID (mk_cell 0 0 1)) \<longrightarrow> cp_CellToHost (p_Control ?p) (MeshID (mk_cell 0 0 1)) = Some g"
    unfolding demo_names by (simp add: two_hosts_facts demo_before_merge_def demo_process_def)
  have log: "InvariantLog \<noteq> InvariantPanic" by simp
  obtain p' l' where
    run: "applyMergeCommit demo_env InvariantLog demo_merge_request (?p, newCommitLog 8) = Some (p', l')"
    and o: "\<forall>k. OwnerOf (ev_orders demo_env) k (p_Control p') =
      (if k = MeshID ?c then Some ''b'' else if k \<in> MeshID ` set (Children ?c) then None else OwnerOf (ev_orders demo_env) k (p_Control ?p))"
    and ses: "\<forall>j v. p_Sessions ?p j = Some v \<longrightarrow> p_Sessions p' j =
      Some (if sr_CellID v \<in> MeshID ` set (Children ?c) then v\<lparr>sr_Epoch := sr_Epoch v + 1, sr_HostID := ''b'', sr_CellID := MeshID ?c\<rparr> else v)"
    using merge_commit_reaches_the_new_layout [OF ready req rq(1) kids(1) ex(1) kids(2) ex(2,3) lg sv D [symmetric] rq(2) log, of "newCommitLog 8"]
    by auto
  let ?v = "\<lparr>sr_Key = demo_key, sr_Username = ''u'', sr_HostID = ''a'', sr_CellID = ''cell_d1_1_1'', sr_Epoch = 1\<rparr>"
  have "p_Sessions ?p demo_key = Some ?v" by (simp add: demo_before_merge_def demo_process_def)
  with ses have "map_option sr_CellID (p_Sessions p' demo_key) = Some ''cell_0_0''" unfolding demo_kid_names demo_names by simp
  moreover have "OwnerOf (ev_orders demo_env) ''cell_0_0'' (p_Control p') = Some ''b''" "OwnerOf (ev_orders demo_env) ''cell_d1_0_0'' (p_Control p') = None"
    using o unfolding demo_kid_names demo_names by simp_all
  ultimately show ?thesis using run by blast
qed

theorem merge_survivor_witness:
  "\<exists>p' l'. applyMergeCommit demo_env InvariantLog demo_merge_request (demo_before_merge Map.empty, newCommitLog 8) = Some (p', l') \<and>
     OwnerOf (ev_orders demo_env) ''cell_d1_0_0'' (p_Control p') \<noteq> None"
proof -
  let ?cells = "[''cell_1_0'', ''cell_d1_0_0'', ''cell_d1_1_0'', ''cell_d1_0_1'', ''cell_d1_1_1'']"
  have "cp_Registry (p_Control (demo_before_merge Map.empty)) = Some (two_hosts ?cells)" "enumerates (o_hosts (ev_orders demo_env)) (two_hosts ?cells)"
    "owned_by (two_hosts ?cells) ''a'' (MeshID (mk_cell 0 0 1))" "cp_CellToHost (p_Control (demo_before_merge Map.empty)) (MeshID (mk_cell 0 0 1)) = None"
    "MeshID (mk_cell 0 0 1) \<in> set (tm_remove (rq_mutation demo_merge_request))"
    "\<forall>cmd \<in> set (rq_commands demo_merge_request). tc_SrcCellID cmd \<noteq> MeshID (mk_cell 0 0 1)"
    unfolding demo_names
    by (simp_all add: demo_before_merge_def demo_process_def two_hosts_facts demo_env_def enumerates_def demo_merge_request_def demo_command_def)
  from merge_leaves_unmapped_survivor_owned [OF this(1) two_hosts_facts(2) this(2-6), of InvariantLog "newCommitLog 8"]
  show ?thesis unfolding demo_names by simp
qed

definition demo_migrate_request :: transfer_request where
  "demo_migrate_request = demo_commit CellTransferMigrate (mk_cell 1 0 0) [demo_command CellTransferMigrate ''cell_1_0'' ''cell_1_0'']
     [''cell_1_0'' \<mapsto> ''b''] []"

abbreviation demo_before_migrate :: process where
  "demo_before_migrate \<equiv> demo_process Map.empty [''cell_0_0'', ''cell_1_0'', ''cell_0_1''] (ComputeTopology demo_cells 1000) ''cell_1_0''"


theorem migrate_stopped_cell_witness:
  "\<exists>p' l'. applyMigrateCommit demo_env InvariantLog demo_migrate_request (demo_before_migrate, newCommitLog 8) = Some (p', l') \<and>
     p_Cells p' ''cell_1_0'' = Some 4 \<and> p_HostCells p' (mk_cell 1 0 0) = None \<and> co_Scan (p_Objs p' 4) = LoopStopped"
proof -
  let ?cmd = "demo_command CellTransferMigrate ''cell_1_0'' ''cell_1_0''"
  have "rq_SrcCell demo_migrate_request = mk_cell 1 0 0" "rq_commands demo_migrate_request = [?cmd]" "tc_SrcCellID ?cmd = MeshID (mk_cell 1 0 0)"
    "tc_SrcHostID ?cmd = ''a''" "''a'' \<noteq> ''''" "tm_add (rq_mutation demo_migrate_request) = [MeshID (mk_cell 1 0 0) \<mapsto> ''b'']"
    "p_LocalHost demo_before_migrate = Some ''a''" "''b'' \<noteq> ''a''" "p_Cells demo_before_migrate (MeshID (mk_cell 1 0 0)) = Some 4"
    "p_HostCells demo_before_migrate (mk_cell 1 0 0) = Some 4" "co_CellID (p_Objs demo_before_migrate 4) = mk_cell 1 0 0"
    unfolding demo_names by (simp_all add: demo_migrate_request_def demo_command_def demo_process_def)
  from migrate_keeps_stopped_cell_in_map [OF this demo_exact(2), of InvariantLog demo_env "newCommitLog 8"]
  show ?thesis unfolding demo_names by simp
qed

theorem commit_plans_run_to_the_end_witness:
  "\<exists>l'. ExecuteCommitPlan demo_env InvariantLog (buildSplitPlan demo_env demo_split_request) demo_before_split (newCommitLog 8) =
      Some (None, plan_result (buildSplitPlan demo_env demo_split_request) demo_before_split, l') \<and>
     logged demo_env (plan_events demo_env (buildSplitPlan demo_env demo_split_request)) (newCommitLog 8) l'"
  by (rule commit_plans_run_to_the_end [where req = demo_split_request]) simp_all


end
