(* ===== verification/UdpProto.thy ===== *)
theory UdpProto
  imports GoPrelude
begin

text \<open>
  The packet codec of the UDP game protocol (\<open>pkg/net/udpproto/proto.go\<close>). A datagram is a list
  of bytes; \<open>encoding/binary\<close> is modelled by \<open>PutLE\<close>, \<open>PutBE\<close>, \<open>LE\<close> and \<open>BE\<close>, a
  slice expression \<open>data[i:j]\<close> by \<open>sub_slice\<close>, and a decoder returns the error it raised or
  the tuple of its results.
\<close>

unbundle bit_operations_syntax

section \<open>Bytes and fixed-width integers\<close>

type_synonym octets = "u8 list"

definition sub_slice :: "nat \<Rightarrow> nat \<Rightarrow> 'a list \<Rightarrow> 'a list" where
  "sub_slice i j xs = take (j - i) (drop i xs)"

text \<open>\<open>copy(dst[0:n], src)\<close> into a freshly made slice of \<open>n\<close> zero bytes.\<close>

definition copy_into :: "nat \<Rightarrow> octets \<Rightarrow> octets" where
  "copy_into n src = take n src @ replicate (n - length src) 0"

definition PutLE :: "nat \<Rightarrow> 'a :: len word \<Rightarrow> octets" where
  "PutLE n w = map (\<lambda>i. ucast (drop_bit (8 * i) w)) [0..<n]"

definition PutBE :: "nat \<Rightarrow> 'a :: len word \<Rightarrow> octets" where
  "PutBE n w = rev (PutLE n w)"

primrec LE :: "octets \<Rightarrow> 'a :: len word" where
  "LE [] = 0"
| "LE (b # bs) = ucast b OR push_bit 8 (LE bs)"

definition BE :: "octets \<Rightarrow> 'a :: len word" where
  "BE bs = LE (rev bs)"

section \<open>Packet types and sizes\<close>

definition TypeUnreliable :: u8 where "TypeUnreliable = 0"
definition TypeReliable :: u8 where "TypeReliable = 1"
definition TypeACK :: u8 where "TypeACK = 2"
definition TypeConnReq :: u8 where "TypeConnReq = 3"
definition TypeConnAccept :: u8 where "TypeConnAccept = 4"
definition TypeDisconnect :: u8 where "TypeDisconnect = 5"
definition TypeConnConfirm :: u8 where "TypeConnConfirm = 6"

definition Version :: u8 where "Version = 2"

definition ProtocolID :: u32 where "ProtocolID = 0x47414D45"

definition HeaderPrefixSize :: nat where "HeaderPrefixSize = 2"
definition CounterSize :: nat where "CounterSize = 8"
definition TagSize :: nat where "TagSize = 16"
definition CookieSize :: nat where "CookieSize = 16"
definition UnreliableHeaderSize :: nat where "UnreliableHeaderSize = HeaderPrefixSize + 4 + CounterSize"
definition ReliableHeaderSize :: nat where "ReliableHeaderSize = HeaderPrefixSize + 4 + 2 + CounterSize"
definition ACKHeaderSize :: nat where "ACKHeaderSize = HeaderPrefixSize + 4 + CounterSize"
definition DisconnectHeaderSize :: nat where "DisconnectHeaderSize = HeaderPrefixSize + 4 + CounterSize"
definition ACKBodySize :: nat where "ACKBodySize = 2 + 4"
definition ConnReqSize :: nat where "ConnReqSize = HeaderPrefixSize + 4 + 8"
definition ConnAcceptSize :: nat where "ConnAcceptSize = HeaderPrefixSize + 4 + 8 + 8 + CookieSize"
definition ConnConfirmSize :: nat where "ConnConfirmSize = HeaderPrefixSize + 8 + 8 + 8 + CookieSize"

lemmas packet_types = TypeUnreliable_def TypeReliable_def TypeACK_def TypeConnReq_def
  TypeConnAccept_def TypeDisconnect_def TypeConnConfirm_def

lemmas packet_sizes = HeaderPrefixSize_def CounterSize_def TagSize_def CookieSize_def
  UnreliableHeaderSize_def ReliableHeaderSize_def ACKHeaderSize_def DisconnectHeaderSize_def
  ACKBodySize_def ConnReqSize_def ConnAcceptSize_def ConnConfirmSize_def

datatype proto_error = ErrTooShort | ErrBadType | ErrBadProtocolID | ErrBadVersion

section \<open>Tokens and salts\<close>

definition MakeToken :: "u64 \<Rightarrow> u64 \<Rightarrow> u32" where
  "MakeToken clientSalt serverSalt =
     (let combined = clientSalt XOR serverSalt
      in ucast combined XOR ucast (drop_bit 32 combined))"

definition SessionSalt :: "u64 \<Rightarrow> u64 \<Rightarrow> octets" where
  "SessionSalt clientSalt serverSalt = PutBE 8 clientSalt @ PutBE 8 serverSalt"

section \<open>Handshake packets\<close>

definition checkPrefix :: "octets \<Rightarrow> u8 \<Rightarrow> proto_error option" where
  "checkPrefix data want =
     (if length data < HeaderPrefixSize then Some ErrTooShort
      else if data ! 0 \<noteq> want then Some ErrBadType
      else if data ! 1 \<noteq> Version then Some ErrBadVersion
      else None)"

definition EncodeConnReq :: "u64 \<Rightarrow> octets" where
  "EncodeConnReq clientSalt = [TypeConnReq, Version] @ PutLE 4 ProtocolID @ PutLE 8 clientSalt"

definition DecodeConnReq :: "octets \<Rightarrow> proto_error + u64" where
  "DecodeConnReq data =
     (case checkPrefix data TypeConnReq of
        Some err \<Rightarrow> Inl err
      | None \<Rightarrow>
          if length data < ConnReqSize then Inl ErrTooShort
          else if LE (sub_slice 2 6 data) \<noteq> ProtocolID then Inl ErrBadProtocolID
          else Inr (LE (sub_slice 6 14 data)))"

definition EncodeConnAccept :: "u64 \<Rightarrow> u64 \<Rightarrow> octets \<Rightarrow> octets" where
  "EncodeConnAccept clientSalt serverSalt cookie =
     [TypeConnAccept, Version] @ PutLE 4 ProtocolID @ PutLE 8 clientSalt @ PutLE 8 serverSalt @ copy_into 16 cookie"

definition DecodeConnAccept :: "octets \<Rightarrow> proto_error + u64 \<times> u64 \<times> octets" where
  "DecodeConnAccept data =
     (case checkPrefix data TypeConnAccept of
        Some err \<Rightarrow> Inl err
      | None \<Rightarrow>
          if length data < ConnAcceptSize then Inl ErrTooShort
          else if LE (sub_slice 2 6 data) \<noteq> ProtocolID then Inl ErrBadProtocolID
          else Inr (LE (sub_slice 6 14 data), LE (sub_slice 14 22 data), sub_slice 22 38 data))"

definition EncodeConnConfirm :: "u64 \<Rightarrow> u64 \<Rightarrow> u64 \<Rightarrow> octets \<Rightarrow> octets" where
  "EncodeConnConfirm keyID clientSalt serverSalt cookie =
     [TypeConnConfirm, Version] @ PutLE 8 keyID @ PutLE 8 clientSalt @ PutLE 8 serverSalt @ copy_into 16 cookie"

definition DecodeConnConfirm :: "octets \<Rightarrow> proto_error + u64 \<times> u64 \<times> u64 \<times> octets" where
  "DecodeConnConfirm data =
     (case checkPrefix data TypeConnConfirm of
        Some err \<Rightarrow> Inl err
      | None \<Rightarrow>
          if length data < ConnConfirmSize then Inl ErrTooShort
          else Inr (LE (sub_slice 2 10 data), LE (sub_slice 10 18 data), LE (sub_slice 18 26 data),
                    sub_slice 26 42 data))"

section \<open>Data packets\<close>

definition EncodeUnreliableHeader :: "u32 \<Rightarrow> u64 \<Rightarrow> octets" where
  "EncodeUnreliableHeader token counter = [TypeUnreliable, Version] @ PutLE 4 token @ PutBE 8 counter"

definition DecodeUnreliable :: "octets \<Rightarrow> proto_error + u32 \<times> u64 \<times> octets \<times> octets" where
  "DecodeUnreliable data =
     (case checkPrefix data TypeUnreliable of
        Some err \<Rightarrow> Inl err
      | None \<Rightarrow>
          if length data < UnreliableHeaderSize + TagSize then Inl ErrTooShort
          else Inr (LE (sub_slice 2 6 data), BE (sub_slice 6 14 data),
                    take UnreliableHeaderSize data, drop UnreliableHeaderSize data))"

definition EncodeReliableHeader :: "u32 \<Rightarrow> u16 \<Rightarrow> u64 \<Rightarrow> octets" where
  "EncodeReliableHeader token seq counter =
     [TypeReliable, Version] @ PutLE 4 token @ PutLE 2 seq @ PutBE 8 counter"

definition DecodeReliable :: "octets \<Rightarrow> proto_error + u32 \<times> u16 \<times> u64 \<times> octets \<times> octets" where
  "DecodeReliable data =
     (case checkPrefix data TypeReliable of
        Some err \<Rightarrow> Inl err
      | None \<Rightarrow>
          if length data < ReliableHeaderSize + TagSize then Inl ErrTooShort
          else Inr (LE (sub_slice 2 6 data), LE (sub_slice 6 8 data), BE (sub_slice 8 16 data),
                    take ReliableHeaderSize data, drop ReliableHeaderSize data))"

definition EncodeACKHeader :: "u32 \<Rightarrow> u64 \<Rightarrow> octets" where
  "EncodeACKHeader token counter = [TypeACK, Version] @ PutLE 4 token @ PutBE 8 counter"

definition EncodeACKBody :: "u16 \<Rightarrow> u32 \<Rightarrow> octets" where
  "EncodeACKBody ackSeq ackBits = PutLE 2 ackSeq @ PutLE 4 ackBits"

definition DecodeACKBody :: "octets \<Rightarrow> proto_error + u16 \<times> u32" where
  "DecodeACKBody body =
     (if length body < ACKBodySize then Inl ErrTooShort
      else Inr (LE (sub_slice 0 2 body), LE (sub_slice 2 6 body)))"

definition DecodeACK :: "octets \<Rightarrow> proto_error + u32 \<times> u64 \<times> octets \<times> octets" where
  "DecodeACK data =
     (case checkPrefix data TypeACK of
        Some err \<Rightarrow> Inl err
      | None \<Rightarrow>
          if length data < ACKHeaderSize + TagSize then Inl ErrTooShort
          else Inr (LE (sub_slice 2 6 data), BE (sub_slice 6 14 data),
                    take ACKHeaderSize data, drop ACKHeaderSize data))"

definition EncodeDisconnectHeader :: "u32 \<Rightarrow> u64 \<Rightarrow> octets" where
  "EncodeDisconnectHeader token counter = [TypeDisconnect, Version] @ PutLE 4 token @ PutBE 8 counter"

definition DecodeDisconnect :: "octets \<Rightarrow> proto_error + u32 \<times> u64 \<times> octets \<times> octets" where
  "DecodeDisconnect data =
     (case checkPrefix data TypeDisconnect of
        Some err \<Rightarrow> Inl err
      | None \<Rightarrow>
          if length data < DisconnectHeaderSize + TagSize then Inl ErrTooShort
          else Inr (LE (sub_slice 2 6 data), BE (sub_slice 6 14 data),
                    take DisconnectHeaderSize data, drop DisconnectHeaderSize data))"

definition SeqGreaterThan :: "u16 \<Rightarrow> u16 \<Rightarrow> bool" where
  "SeqGreaterThan s1 s2 \<longleftrightarrow> (s1 > s2 \<and> s1 - s2 \<le> 32768) \<or> (s1 < s2 \<and> s2 - s1 > 32768)"

section \<open>Integers survive their encoding\<close>

named_theorems codec \<open>lengths and slices of encoded packets\<close>

lemma length_Put [codec]: "length (PutLE n w) = n" "length (PutBE n w) = n"
  by (simp_all add: PutLE_def PutBE_def)

lemma length_copy_into [codec]: "length (copy_into n src) = n"
  by (simp add: copy_into_def)

lemma PutLE_Suc: "PutLE (Suc n) w = ucast w # PutLE n (drop_bit 8 w)"
proof -
  have "[0..<Suc n] = 0 # map Suc [0..<n]"
    by (simp only: upt_conv_Cons map_Suc_upt zero_less_Suc)
  then have "PutLE (Suc n) w = ucast w # map (\<lambda>i. ucast (drop_bit (8 * Suc i) w)) [0..<n]"
    unfolding PutLE_def by (simp del: upt_Suc add: o_def)
  then show ?thesis
    by (simp add: PutLE_def add.commute)
qed

lemma byte_split: "ucast (ucast w :: u8) OR push_bit 8 (take_bit k (drop_bit 8 w)) = take_bit (k + 8) (w :: 'a :: len word)"
  by (rule bit_word_eqI)
     (auto simp: bit_simps not_le add.commute less_diff_conv2)

lemma LE_PutLE: "LE (PutLE n w) = take_bit (8 * n) (w :: 'a :: len word)"
proof (induction n arbitrary: w)
  case 0
  then show ?case by (simp add: PutLE_def)
next
  case (Suc n)
  then show ?case by (simp add: PutLE_Suc byte_split add.commute)
qed

lemma LE_PutLE_id [codec]: "LENGTH('a) \<le> 8 * n \<Longrightarrow> LE (PutLE n w) = (w :: 'a :: len word)"
  by (simp add: LE_PutLE take_bit_word_eq_self)

lemma BE_PutBE_id [codec]: "LENGTH('a) \<le> 8 * n \<Longrightarrow> BE (PutBE n w) = (w :: 'a :: len word)"
  by (simp add: BE_def PutBE_def LE_PutLE_id)

lemma byte_back: "LENGTH('a) \<ge> 8 \<Longrightarrow> ucast (ucast b OR push_bit 8 (w :: 'a :: len word)) = (b :: u8)"
  by (rule bit_word_eqI) (auto simp: bit_simps)

lemma bytes_back: "drop_bit 8 (ucast (b :: u8) OR push_bit 8 (w :: 'a :: len word)) = take_bit (LENGTH('a) - 8) w"
  by (rule bit_word_eqI) (auto simp: bit_simps dest: bit_imp_le_length)

lemma PutLE_take_bit: "8 * n \<le> k \<Longrightarrow> PutLE n (take_bit k w) = PutLE n w"
  unfolding PutLE_def by (rule map_cong [OF refl]) (auto intro!: bit_word_eqI simp: bit_simps)

lemma PutLE_LE: "8 * length bs \<le> LENGTH('a) \<Longrightarrow> PutLE (length bs) (LE bs :: 'a :: len word) = bs"
proof (induction bs)
  case Nil
  then show ?case by (simp add: PutLE_def)
next
  case (Cons b bs)
  then show ?case
    by (simp add: PutLE_Suc byte_back bytes_back PutLE_take_bit del: drop_bit_or)
qed

lemma PutBE_BE: "8 * length bs \<le> LENGTH('a) \<Longrightarrow> PutBE (length bs) (BE bs :: 'a :: len word) = bs"
  using PutLE_LE [of "rev bs", where 'a='a] by (simp add: BE_def PutBE_def)

section \<open>Packets survive their encoding\<close>

lemma sub_slice_append [codec]:
  "j \<le> length xs \<Longrightarrow> sub_slice i j (xs @ ys) = sub_slice i j xs"
  "length xs \<le> i \<Longrightarrow> sub_slice i j (xs @ ys) = sub_slice (i - length xs) (j - length xs) ys"
  by (simp_all add: sub_slice_def)

lemma sub_slice_Cons [codec]: "0 < i \<Longrightarrow> sub_slice i j (x # xs) = sub_slice (i - 1) (j - 1) xs"
  by (cases i) (simp_all add: sub_slice_def)

lemma sub_slice_all [codec]: "length xs = j \<Longrightarrow> sub_slice 0 j xs = xs"
  by (simp add: sub_slice_def)

lemma length_sub_slice: "j \<le> length xs \<Longrightarrow> length (sub_slice i j xs) = j - i"
  by (simp add: sub_slice_def)

lemma sub_slice_join:
  assumes "i \<le> j" and "j \<le> k"
  shows "sub_slice i j xs @ sub_slice j k xs = sub_slice i k xs"
proof -
  obtain d e where "j = i + d" and "k = i + (d + e)"
    using assms by (metis le_iff_add add.assoc)
  then show ?thesis
    by (simp only: sub_slice_def take_add drop_drop add_diff_cancel_left' add.commute [of i d]
        add_diff_cancel_right' diff_diff_left) (simp add: take_add add.commute)
qed

lemma PutLE_LE_slice: "j \<le> length xs \<Longrightarrow> n = j - i \<Longrightarrow> 8 * n \<le> LENGTH('a)
  \<Longrightarrow> PutLE n (LE (sub_slice i j xs) :: 'a :: len word) = sub_slice i j xs"
  using PutLE_LE [of "sub_slice i j xs", where 'a='a] by (simp add: length_sub_slice)

lemma PutBE_BE_slice: "j \<le> length xs \<Longrightarrow> n = j - i \<Longrightarrow> 8 * n \<le> LENGTH('a)
  \<Longrightarrow> PutBE n (BE (sub_slice i j xs) :: 'a :: len word) = sub_slice i j xs"
  using PutBE_BE [of "sub_slice i j xs", where 'a='a] by (simp add: length_sub_slice)

lemma checkPrefix_None:
  "checkPrefix data kind = None \<longleftrightarrow> 2 \<le> length data \<and> take 2 data = [kind, Version]"
proof (cases data rule: list.exhaust)
  case (Cons a as)
  then show ?thesis
    by (cases as) (auto simp: checkPrefix_def packet_sizes)
qed (simp add: checkPrefix_def packet_sizes)

lemma checkPrefix_header [codec]: "checkPrefix (kind # Version # rest) kind = None"
  by (simp add: checkPrefix_def packet_sizes)

text \<open>
  The four sealed packet kinds share one shape: a cleartext header of fixed size that is also the
  additional authenticated data, then the sealed body, at least a tag long.
\<close>

locale sealed_packet =
  fixes kind :: u8 and size_of_header :: nat
    and enc :: "'f \<Rightarrow> octets" and reads :: "octets \<Rightarrow> 'f"
    and dec :: "octets \<Rightarrow> proto_error + 'f \<times> octets \<times> octets"
  assumes dec_shape: "dec data =
            (case checkPrefix data kind of
               Some err \<Rightarrow> Inl err
             | None \<Rightarrow> if length data < size_of_header + TagSize then Inl ErrTooShort
                       else Inr (reads data, take size_of_header data, drop size_of_header data))"
    and enc_length: "length (enc f) = size_of_header"
    and enc_prefix: "\<exists>rest. enc f = kind # Version # rest"
    and reads_enc: "reads (enc f @ sealed) = f"
    and enc_reads: "size_of_header \<le> length data \<Longrightarrow> take 2 data = [kind, Version]
           \<Longrightarrow> enc (reads data) = take size_of_header data"
begin

lemma decode_exact:
  "dec data = Inr (f, aad, sealed) \<longleftrightarrow> aad = enc f \<and> data = aad @ sealed \<and> TagSize \<le> length sealed"
proof
  assume ok: "dec data = Inr (f, aad, sealed)"
  then have pre: "checkPrefix data kind = None" and len: "size_of_header + TagSize \<le> length data"
    and parts: "f = reads data" "aad = take size_of_header data" "sealed = drop size_of_header data"
    by (auto simp: dec_shape split: option.splits if_splits)
  from pre have "take 2 data = [kind, Version]"
    by (simp add: checkPrefix_None)
  with len parts enc_reads [of data] show "aad = enc f \<and> data = aad @ sealed \<and> TagSize \<le> length sealed"
    by auto
next
  assume eq: "aad = enc f \<and> data = aad @ sealed \<and> TagSize \<le> length sealed"
  moreover obtain rest where "enc f = kind # Version # rest"
    using enc_prefix by blast
  ultimately have "checkPrefix data kind = None"
    by (simp add: checkPrefix_header)
  with eq enc_length [of f] reads_enc [of f sealed] show "dec data = Inr (f, aad, sealed)"
    by (simp add: dec_shape)
qed

lemma short_is_refused: "length data < size_of_header + TagSize \<Longrightarrow> \<exists>err. dec data = Inl err"
  by (auto simp: dec_shape split: option.splits)

lemma stranger_is_refused: "take 2 data \<noteq> [kind, Version] \<Longrightarrow> \<exists>err. dec data = Inl err"
  using checkPrefix_None [of data kind] by (auto simp: dec_shape split: option.splits)

end

definition regroup :: "proto_error + 'a \<times> 'b \<times> 'c \<Rightarrow> proto_error + ('a \<times> 'b) \<times> 'c" where
  "regroup = map_sum id (\<lambda>(a, b, c). ((a, b), c))"

lemma regroup_iff [simp]:
  "regroup r = Inr ((a, b), c) \<longleftrightarrow> r = Inr (a, b, c)" "regroup r = Inl err \<longleftrightarrow> r = Inl err"
  by (cases r; auto simp: regroup_def)+

lemma take_2_Cons: "take 2 xs = [a, b] \<Longrightarrow> \<exists>rest. xs = a # b # rest"
  by (cases xs; cases "tl xs"; auto simp: numeral_2_eq_2)

lemma header_14:
  assumes "14 \<le> length data" and "take 2 data = [kind, Version]"
  shows "[kind, Version] @ PutLE 4 (LE (sub_slice 2 6 data) :: u32) @ PutBE 8 (BE (sub_slice 6 14 data) :: u64)
    = take 14 data"
proof -
  have "[kind, Version] = sub_slice 0 2 data"
    using assms by (simp add: sub_slice_def)
  with assms(1) show ?thesis
    by (simp add: PutLE_LE_slice PutBE_BE_slice sub_slice_join) (simp add: sub_slice_def)
qed

interpretation unreliable_packet: sealed_packet TypeUnreliable UnreliableHeaderSize
  "\<lambda>(token, counter). EncodeUnreliableHeader token counter"
  "\<lambda>data. (LE (sub_slice 2 6 data), BE (sub_slice 6 14 data))"
  "\<lambda>data. regroup (DecodeUnreliable data)"
proof (unfold_locales, goal_cases)
  case (1 data)
  then show ?case by (simp add: DecodeUnreliable_def regroup_def split: option.splits)
next
  case (5 data)
  then show ?case using header_14 [of data] by (simp add: EncodeUnreliableHeader_def packet_sizes)
qed (auto simp: EncodeUnreliableHeader_def packet_sizes codec)

interpretation ack_packet: sealed_packet TypeACK ACKHeaderSize
  "\<lambda>(token, counter). EncodeACKHeader token counter"
  "\<lambda>data. (LE (sub_slice 2 6 data), BE (sub_slice 6 14 data))"
  "\<lambda>data. regroup (DecodeACK data)"
proof (unfold_locales, goal_cases)
  case (1 data)
  then show ?case by (simp add: DecodeACK_def regroup_def split: option.splits)
next
  case (5 data)
  then show ?case using header_14 [of data] by (simp add: EncodeACKHeader_def packet_sizes)
qed (auto simp: EncodeACKHeader_def packet_sizes codec)

interpretation disconnect_packet: sealed_packet TypeDisconnect DisconnectHeaderSize
  "\<lambda>(token, counter). EncodeDisconnectHeader token counter"
  "\<lambda>data. (LE (sub_slice 2 6 data), BE (sub_slice 6 14 data))"
  "\<lambda>data. regroup (DecodeDisconnect data)"
proof (unfold_locales, goal_cases)
  case (1 data)
  then show ?case by (simp add: DecodeDisconnect_def regroup_def split: option.splits)
next
  case (5 data)
  then show ?case using header_14 [of data] by (simp add: EncodeDisconnectHeader_def packet_sizes)
qed (auto simp: EncodeDisconnectHeader_def packet_sizes codec)

lemma header_16:
  assumes "16 \<le> length data" and "take 2 data = [kind, Version]"
  shows "[kind, Version] @ PutLE 4 (LE (sub_slice 2 6 data) :: u32) @ PutLE 2 (LE (sub_slice 6 8 data) :: u16)
    @ PutBE 8 (BE (sub_slice 8 16 data) :: u64) = take 16 data"
proof -
  have "[kind, Version] = sub_slice 0 2 data"
    using assms by (simp add: sub_slice_def)
  with assms(1) show ?thesis
    by (simp add: PutLE_LE_slice PutBE_BE_slice sub_slice_join) (simp add: sub_slice_def)
qed

interpretation reliable_packet: sealed_packet TypeReliable ReliableHeaderSize
  "\<lambda>((token, seq), counter). EncodeReliableHeader token seq counter"
  "\<lambda>data. ((LE (sub_slice 2 6 data), LE (sub_slice 6 8 data)), BE (sub_slice 8 16 data))"
  "\<lambda>data. regroup (regroup (DecodeReliable data))"
proof (unfold_locales, goal_cases)
  case (1 data)
  then show ?case by (simp add: DecodeReliable_def regroup_def split: option.splits)
next
  case (5 data)
  then show ?case using header_16 [of data] by (simp add: EncodeReliableHeader_def packet_sizes)
qed (auto simp: EncodeReliableHeader_def packet_sizes codec)

section \<open>Handshake packets survive their encoding\<close>

lemma copy_into_exact [codec]: "length src = n \<Longrightarrow> copy_into n src = src"
  by (simp add: copy_into_def)

lemma slice_prefix:
  assumes "take 2 data = [kind, Version]" and "2 \<le> n"
  shows "kind # Version # sub_slice 2 n data = sub_slice 0 n data"
proof -
  have "sub_slice 0 2 data = [kind, Version]"
    using assms(1) by (simp add: sub_slice_def)
  with sub_slice_join [of 0 2 n data] assms(2) show ?thesis
    by simp
qed

lemma slice_rest: "sub_slice 0 n data @ drop n data = data"
  by (simp add: sub_slice_def)

lemma conn_req_exact: "DecodeConnReq data = Inr salt \<longleftrightarrow> (\<exists>rest. data = EncodeConnReq salt @ rest)"
proof
  assume ok: "DecodeConnReq data = Inr salt"
  then have pre: "checkPrefix data TypeConnReq = None" and len: "14 \<le> length data"
    and magic: "LE (sub_slice 2 6 data) = ProtocolID" and salt: "salt = LE (sub_slice 6 14 data)"
    by (auto simp: DecodeConnReq_def packet_sizes split: option.splits if_splits)
  from pre have "take 2 data = [TypeConnReq, Version]"
    by (simp add: checkPrefix_None)
  then have "EncodeConnReq salt = sub_slice 0 14 data"
    using len unfolding EncodeConnReq_def salt magic [symmetric]
    by (simp add: slice_prefix PutLE_LE_slice sub_slice_join)
  with slice_rest [of 14 data] show "\<exists>rest. data = EncodeConnReq salt @ rest"
    by metis
next
  assume "\<exists>rest. data = EncodeConnReq salt @ rest"
  then obtain rest where "data = EncodeConnReq salt @ rest" by blast
  then show "DecodeConnReq data = Inr salt"
    by (simp add: DecodeConnReq_def EncodeConnReq_def packet_sizes codec)
qed

lemma conn_accept_exact: "DecodeConnAccept data = Inr (clientSalt, serverSalt, cookie) \<longleftrightarrow>
  length cookie = CookieSize \<and> (\<exists>rest. data = EncodeConnAccept clientSalt serverSalt cookie @ rest)"
proof
  assume ok: "DecodeConnAccept data = Inr (clientSalt, serverSalt, cookie)"
  then have pre: "checkPrefix data TypeConnAccept = None" and len: "38 \<le> length data"
    and magic: "LE (sub_slice 2 6 data) = ProtocolID"
    and fields: "clientSalt = LE (sub_slice 6 14 data)" "serverSalt = LE (sub_slice 14 22 data)"
      "cookie = sub_slice 22 38 data"
    by (auto simp: DecodeConnAccept_def packet_sizes split: option.splits if_splits)
  from pre have "take 2 data = [TypeConnAccept, Version]"
    by (simp add: checkPrefix_None)
  then have "EncodeConnAccept clientSalt serverSalt cookie = sub_slice 0 38 data"
    using len unfolding EncodeConnAccept_def fields magic [symmetric]
    by (simp add: slice_prefix PutLE_LE_slice sub_slice_join copy_into_exact length_sub_slice)
  moreover have "length cookie = CookieSize"
    using len by (simp add: fields length_sub_slice packet_sizes)
  ultimately show "length cookie = CookieSize \<and> (\<exists>rest. data = EncodeConnAccept clientSalt serverSalt cookie @ rest)"
    using slice_rest [of 38 data] by metis
next
  assume "length cookie = CookieSize \<and> (\<exists>rest. data = EncodeConnAccept clientSalt serverSalt cookie @ rest)"
  then obtain rest where "data = EncodeConnAccept clientSalt serverSalt cookie @ rest" and "length cookie = 16"
    by (auto simp: packet_sizes)
  then show "DecodeConnAccept data = Inr (clientSalt, serverSalt, cookie)"
    by (simp add: DecodeConnAccept_def EncodeConnAccept_def packet_sizes codec)
qed

lemma conn_confirm_exact: "DecodeConnConfirm data = Inr (keyID, clientSalt, serverSalt, cookie) \<longleftrightarrow>
  length cookie = CookieSize \<and> (\<exists>rest. data = EncodeConnConfirm keyID clientSalt serverSalt cookie @ rest)"
proof
  assume ok: "DecodeConnConfirm data = Inr (keyID, clientSalt, serverSalt, cookie)"
  then have pre: "checkPrefix data TypeConnConfirm = None" and len: "42 \<le> length data"
    and fields: "keyID = LE (sub_slice 2 10 data)" "clientSalt = LE (sub_slice 10 18 data)"
      "serverSalt = LE (sub_slice 18 26 data)" "cookie = sub_slice 26 42 data"
    by (auto simp: DecodeConnConfirm_def packet_sizes split: option.splits if_splits)
  from pre have "take 2 data = [TypeConnConfirm, Version]"
    by (simp add: checkPrefix_None)
  then have "EncodeConnConfirm keyID clientSalt serverSalt cookie = sub_slice 0 42 data"
    using len unfolding EncodeConnConfirm_def fields
    by (simp add: slice_prefix PutLE_LE_slice sub_slice_join copy_into_exact length_sub_slice)
  moreover have "length cookie = CookieSize"
    using len by (simp add: fields length_sub_slice packet_sizes)
  ultimately show "length cookie = CookieSize \<and> (\<exists>rest. data = EncodeConnConfirm keyID clientSalt serverSalt cookie @ rest)"
    using slice_rest [of 42 data] by metis
next
  assume "length cookie = CookieSize \<and> (\<exists>rest. data = EncodeConnConfirm keyID clientSalt serverSalt cookie @ rest)"
  then obtain rest where "data = EncodeConnConfirm keyID clientSalt serverSalt cookie @ rest" and "length cookie = 16"
    by (auto simp: packet_sizes)
  then show "DecodeConnConfirm data = Inr (keyID, clientSalt, serverSalt, cookie)"
    by (simp add: DecodeConnConfirm_def EncodeConnConfirm_def packet_sizes codec)
qed

lemma ack_body_exact: "DecodeACKBody body = Inr (ackSeq, ackBits) \<longleftrightarrow> (\<exists>rest. body = EncodeACKBody ackSeq ackBits @ rest)"
proof
  assume ok: "DecodeACKBody body = Inr (ackSeq, ackBits)"
  then have len: "6 \<le> length body"
    and fields: "ackSeq = LE (sub_slice 0 2 body)" "ackBits = LE (sub_slice 2 6 body)"
    by (auto simp: DecodeACKBody_def packet_sizes split: if_splits)
  then have "EncodeACKBody ackSeq ackBits = sub_slice 0 6 body"
    unfolding EncodeACKBody_def fields by (simp add: PutLE_LE_slice sub_slice_join)
  with slice_rest [of 6 body] show "\<exists>rest. body = EncodeACKBody ackSeq ackBits @ rest"
    by metis
next
  assume "\<exists>rest. body = EncodeACKBody ackSeq ackBits @ rest"
  then obtain rest where "body = EncodeACKBody ackSeq ackBits @ rest" by blast
  then show "DecodeACKBody body = Inr (ackSeq, ackBits)"
    by (simp add: DecodeACKBody_def EncodeACKBody_def packet_sizes codec)
qed

lemma ack_body_roundtrip [simp]: "DecodeACKBody (EncodeACKBody ackSeq ackBits) = Inr (ackSeq, ackBits)"
  unfolding ack_body_exact by (rule exI [where x="[]"]) simp

lemma sealed_decoders_exact:
  "DecodeUnreliable data = Inr (token, counter, aad, sealed) \<longleftrightarrow>
     aad = EncodeUnreliableHeader token counter \<and> data = aad @ sealed \<and> TagSize \<le> length sealed"
  "DecodeReliable data = Inr (token, seq, counter, aad, sealed) \<longleftrightarrow>
     aad = EncodeReliableHeader token seq counter \<and> data = aad @ sealed \<and> TagSize \<le> length sealed"
  "DecodeACK data = Inr (token, counter, aad, sealed) \<longleftrightarrow>
     aad = EncodeACKHeader token counter \<and> data = aad @ sealed \<and> TagSize \<le> length sealed"
  "DecodeDisconnect data = Inr (token, counter, aad, sealed) \<longleftrightarrow>
     aad = EncodeDisconnectHeader token counter \<and> data = aad @ sealed \<and> TagSize \<le> length sealed"
  using unreliable_packet.decode_exact [of data "(token, counter)" aad sealed]
    reliable_packet.decode_exact [of data "((token, seq), counter)" aad sealed]
    ack_packet.decode_exact [of data "(token, counter)" aad sealed]
    disconnect_packet.decode_exact [of data "(token, counter)" aad sealed]
  by simp_all

text \<open>
  C15. The packet codec is exact in both directions. A decoder of a sealed packet succeeds precisely
  on an encoded header followed by at least a tag of sealed bytes, returns the fields that header
  encodes, and hands the very bytes of that header to the AEAD as additional data: no field is read
  from outside what the tag authenticates and no two field values share an encoding. The handshake
  decoders and the ACK body succeed precisely on the encoding of what they return, with any bytes
  after it ignored.
\<close>

theorem packet_codec_is_exact:
  "(DecodeUnreliable data = Inr (token, counter, aad, sealed) \<longleftrightarrow>
      aad = EncodeUnreliableHeader token counter \<and> data = aad @ sealed \<and> TagSize \<le> length sealed) \<and>
   (DecodeReliable data = Inr (token, seq, counter, aad, sealed) \<longleftrightarrow>
      aad = EncodeReliableHeader token seq counter \<and> data = aad @ sealed \<and> TagSize \<le> length sealed) \<and>
   (DecodeACK data = Inr (token, counter, aad, sealed) \<longleftrightarrow>
      aad = EncodeACKHeader token counter \<and> data = aad @ sealed \<and> TagSize \<le> length sealed) \<and>
   (DecodeDisconnect data = Inr (token, counter, aad, sealed) \<longleftrightarrow>
      aad = EncodeDisconnectHeader token counter \<and> data = aad @ sealed \<and> TagSize \<le> length sealed) \<and>
   (DecodeConnReq data = Inr clientSalt \<longleftrightarrow> (\<exists>rest. data = EncodeConnReq clientSalt @ rest)) \<and>
   (DecodeConnAccept data = Inr (clientSalt, serverSalt, cookie) \<longleftrightarrow>
      length cookie = CookieSize \<and> (\<exists>rest. data = EncodeConnAccept clientSalt serverSalt cookie @ rest)) \<and>
   (DecodeConnConfirm data = Inr (keyID, clientSalt, serverSalt, cookie) \<longleftrightarrow>
      length cookie = CookieSize \<and> (\<exists>rest. data = EncodeConnConfirm keyID clientSalt serverSalt cookie @ rest)) \<and>
   (DecodeACKBody data = Inr (ackSeq, ackBits) \<longleftrightarrow> (\<exists>rest. data = EncodeACKBody ackSeq ackBits @ rest))"
  by (intro conjI sealed_decoders_exact conn_req_exact conn_accept_exact conn_confirm_exact ack_body_exact)

section \<open>Sequence numbers\<close>

text \<open>The comparison of wrapped sequence numbers, read as the signed distance between them.\<close>

lemma SeqGreaterThan_distance: "SeqGreaterThan s1 s2 \<longleftrightarrow>
  s1 \<noteq> s2 \<and> (uint (s1 - s2) < 32768 \<or> uint (s1 - s2) = 32768 \<and> s1 > s2)"
  unfolding SeqGreaterThan_def
  by (cases "s1 > s2")
     (auto simp: word_less_def word_le_def uint_sub_if' word_uint_eq_iff split: if_splits)

lemma seq_distinct_compare: "s1 \<noteq> s2 \<Longrightarrow> SeqGreaterThan s1 s2 \<longleftrightarrow> \<not> SeqGreaterThan s2 s1"
  unfolding SeqGreaterThan_def
  by (auto simp: word_less_def word_le_def uint_sub_if' word_uint_eq_iff split: if_splits)

lemma seq_compare_unbounded:
  fixes m n :: int
  assumes "\<bar>m - n\<bar> < 32768"
  shows "SeqGreaterThan (word_of_int m) (word_of_int n) \<longleftrightarrow> n < m"
proof -
  have "uint (word_of_int m - word_of_int n :: u16) = (m - n) mod 65536"
    by (simp add: uint_word_ariths uint_word_of_int mod_simps)
  also have "\<dots> = (if n \<le> m then m - n else m - n + 65536)"
    using assms mod_pos_pos_trivial [of "m - n" 65536] mod_pos_pos_trivial [of "m - n + 65536" 65536]
    by (cases "n \<le> m") simp_all
  finally have dist: "uint (word_of_int m - word_of_int n :: u16) = (if n \<le> m then m - n else m - n + 65536)" .
  moreover have "word_of_int m = (word_of_int n :: u16) \<longleftrightarrow> m = n"
    using dist assms by (auto split: if_splits)
  ultimately show ?thesis
    using assms unfolding SeqGreaterThan_distance by (cases "n \<le> m") auto
qed

end
