(* ===== verification/UdpCrypto.thy ===== *)
theory UdpCrypto
  imports UdpProto GoFloat "HOL-Library.AList"
begin

text \<open>
  What protects the UDP sessions: the directional traffic keys, send counter and replay window of
  \<open>udpcrypto.Session\<close> (\<open>pkg/net/udpcrypto/udpcrypto.go\<close>), the stateless handshake cookie
  (\<open>pkg/net/udp_cookie.go\<close>) and the registry of keys issued over HTTPS
  (\<open>pkg/net/udp_keys.go\<close>).

  HKDF, ChaCha20-Poly1305 and HMAC-SHA256 are library code: they are the fields of
  \<open>crypto_lib\<close>, an argument of the definitions that call them. An AEAD object is the key it was
  made from. Clock readings and random bytes are arguments; counters are words, so that their
  wrap-around is the source's.
\<close>

section \<open>The cryptographic library\<close>

record crypto_lib =
  aead_seal :: "octets \<Rightarrow> octets \<Rightarrow> octets \<Rightarrow> octets \<Rightarrow> octets"
  aead_open :: "octets \<Rightarrow> octets \<Rightarrow> octets \<Rightarrow> octets \<Rightarrow> octets option"
  aead_new :: "octets \<Rightarrow> bool"
  hkdf_Key :: "octets \<Rightarrow> octets \<Rightarrow> string \<Rightarrow> nat \<Rightarrow> octets option"
  hmac_Sum :: "octets \<Rightarrow> octets \<Rightarrow> octets"

section \<open>The replay window\<close>

record replayWindow =
  highest :: u64
  bitmap :: u64

definition ReplayWindowSize :: u64 where "ReplayWindowSize = 64"

definition window_check :: "replayWindow \<Rightarrow> u64 \<Rightarrow> bool" where
  "window_check w ctr =
     (if ctr > highest w then True
      else let diff = highest w - ctr in
           if diff \<ge> ReplayWindowSize then False
           else bitmap w AND push_bit (unat diff) 1 = 0)"

definition window_commit :: "replayWindow \<Rightarrow> u64 \<Rightarrow> replayWindow" where
  "window_commit w ctr =
     (if ctr > highest w then
        let shift = ctr - highest w;
            shifted = (if shift \<ge> ReplayWindowSize then 0 else push_bit (unat shift) (bitmap w))
        in w\<lparr>bitmap := shifted OR 1, highest := ctr\<rparr>
      else let diff = highest w - ctr in
           if diff < ReplayWindowSize then w\<lparr>bitmap := bitmap w OR push_bit (unat diff) 1\<rparr>
           else w)"

section \<open>Sessions\<close>

datatype crypto_error = ErrReplay | ErrAuthentication | ErrCounterExhausted | ErrZeroCounter

datatype role = RoleClient | RoleServer

definition KeySize :: nat where "KeySize = 32"
definition NonceSize :: nat where "NonceSize = 12"

definition maxCounter :: u64 where "maxCounter = NOT 0 - 1024"

definition labelC2S :: string where "labelC2S = ''mmokit/udp/v1 client-to-server''"
definition labelS2C :: string where "labelS2C = ''mmokit/udp/v1 server-to-client''"

record session =
  ss_send :: octets
  ss_recv :: octets
  ss_sendCtr :: u64
  ss_win :: replayWindow
  ss_accepted :: u64
  ss_replayed :: u64
  ss_failed :: u64

definition deriveKey :: "crypto_lib \<Rightarrow> octets \<Rightarrow> octets \<Rightarrow> string \<Rightarrow> octets option" where
  "deriveKey L master salt label = hkdf_Key L master salt label KeySize"

definition newAEAD :: "crypto_lib \<Rightarrow> octets \<Rightarrow> octets option" where
  "newAEAD L key = (if aead_new L key then Some key else None)"

definition NewSession :: "crypto_lib \<Rightarrow> octets \<Rightarrow> role \<Rightarrow> octets \<Rightarrow> session option" where
  "NewSession L master r salt =
     (case deriveKey L master salt labelC2S of
        None \<Rightarrow> None
      | Some c2s \<Rightarrow>
         (case deriveKey L master salt labelS2C of
            None \<Rightarrow> None
          | Some s2c \<Rightarrow>
             let (sendKey, recvKey) = (if r = RoleServer then (s2c, c2s) else (c2s, s2c)) in
             (case newAEAD L sendKey of
                None \<Rightarrow> None
              | Some sendAEAD \<Rightarrow>
                 (case newAEAD L recvKey of
                    None \<Rightarrow> None
                  | Some recvAEAD \<Rightarrow>
                      Some \<lparr>ss_send = sendAEAD, ss_recv = recvAEAD, ss_sendCtr = 0,
                            ss_win = \<lparr>highest = 0, bitmap = 0\<rparr>,
                            ss_accepted = 0, ss_replayed = 0, ss_failed = 0\<rparr>))))"

definition nonceFor :: "u64 \<Rightarrow> octets" where
  "nonceFor ctr = replicate (NonceSize - CounterSize) 0 @ PutBE 8 ctr"

definition Seal :: "crypto_lib \<Rightarrow> session \<Rightarrow> octets \<Rightarrow> octets \<Rightarrow> octets \<Rightarrow> session \<times> (crypto_error + u64 \<times> octets)" where
  "Seal L s dst plaintext aad =
     (let ctr = ss_sendCtr s + 1;
          s' = s\<lparr>ss_sendCtr := ctr\<rparr>
      in if ctr > maxCounter then (s', Inl ErrCounterExhausted)
         else (s', Inr (ctr, dst @ aead_seal L (ss_send s) (nonceFor ctr) plaintext aad)))"

definition SealWithHeader ::
  "crypto_lib \<Rightarrow> session \<Rightarrow> octets \<Rightarrow> (u64 \<Rightarrow> octets) \<Rightarrow> session \<times> (crypto_error + octets \<times> octets)" where
  "SealWithHeader L s plaintext buildHeader =
     (let ctr = ss_sendCtr s + 1;
          s' = s\<lparr>ss_sendCtr := ctr\<rparr>
      in if ctr > maxCounter then (s', Inl ErrCounterExhausted)
         else let hdr = buildHeader ctr
              in (s', Inr (hdr, aead_seal L (ss_send s) (nonceFor ctr) plaintext hdr)))"

definition Open :: "crypto_lib \<Rightarrow> session \<Rightarrow> octets \<Rightarrow> u64 \<Rightarrow> octets \<Rightarrow> octets \<Rightarrow> session \<times> (crypto_error + octets)" where
  "Open L s dst ctr ciphertext aad =
     (if ctr = 0 then (s\<lparr>ss_replayed := ss_replayed s + 1\<rparr>, Inl ErrZeroCounter)
      else if \<not> window_check (ss_win s) ctr then (s\<lparr>ss_replayed := ss_replayed s + 1\<rparr>, Inl ErrReplay)
      else case aead_open L (ss_recv s) (nonceFor ctr) ciphertext aad of
             None \<Rightarrow> (s\<lparr>ss_failed := ss_failed s + 1\<rparr>, Inl ErrAuthentication)
           | Some out \<Rightarrow>
               (s\<lparr>ss_win := window_commit (ss_win s) ctr, ss_accepted := ss_accepted s + 1\<rparr>, Inr (dst @ out)))"

definition Session_Stats :: "session \<Rightarrow> u64 \<times> u64 \<times> u64" where
  "Session_Stats s = (ss_accepted s, ss_replayed s, ss_failed s)"

definition SendCounter :: "session \<Rightarrow> u64" where
  "SendCounter s = ss_sendCtr s"

section \<open>The window is the set of accepted counters\<close>

text \<open>
  The abstract window: every accepted counter is at most the highest one, and the bitmap is the
  membership of the last 64 counters.
\<close>

definition window_is :: "replayWindow \<Rightarrow> nat set \<Rightarrow> bool" where
  "window_is w A \<longleftrightarrow>
     (\<forall>c\<in>A. c \<le> unat (highest w)) \<and> unat (highest w) \<in> insert 0 A \<and>
     (\<forall>i<64. i \<le> unat (highest w) \<longrightarrow> (bit (bitmap w) i \<longleftrightarrow> unat (highest w) - i \<in> A))"

lemma and_single_bit: "w AND 2 ^ n = 0 \<longleftrightarrow> \<not> bit (w :: 'a :: len word) n"
proof -
  have "w AND 2 ^ n = (if bit w n then 2 ^ n else 0)"
    by (rule bit_word_eqI) (auto simp: bit_simps)
  moreover have "2 ^ n \<noteq> (0 :: 'a word)" if "bit w n"
    using bit_imp_le_length [OF that] by simp
  ultimately show ?thesis
    by auto
qed

lemma window_check_abstract:
  assumes "window_is w A"
  shows "window_check w c \<longleftrightarrow> unat c \<notin> A \<and> unat (highest w) < unat c + 64"
proof (cases "c > highest w")
  case True
  with assms show ?thesis
    by (auto simp: window_is_def window_check_def word_less_nat_alt)
next
  case False
  then have le: "c \<le> highest w" by simp
  then have d: "unat (highest w - c) = unat (highest w) - unat c" and u: "unat c \<le> unat (highest w)"
    by (simp_all add: unat_sub word_le_nat_alt)
  show ?thesis
  proof (cases "unat (highest w) - unat c < 64")
    case True
    then have "bit (bitmap w) (unat (highest w) - unat c) \<longleftrightarrow> unat c \<in> A"
      using assms u unfolding window_is_def by auto
    with True False d u show ?thesis
      by (simp add: window_check_def ReplayWindowSize_def word_le_nat_alt Let_def and_single_bit less_diff_conv2) linarith
  next
    case far: False
    then have "\<not> unat (highest w) < unat c + 64"
      using u by linarith
    with far False d show ?thesis
      by (simp add: window_check_def ReplayWindowSize_def word_le_nat_alt Let_def)
  qed
qed

lemma window_commit_abstract:
  assumes "window_is w A" and "unat c \<notin> A" and "unat (highest w) < unat c + 64"
  shows "window_is (window_commit w c) (insert (unat c) A)"
proof (cases "c > highest w")
  case True
  then have less: "unat (highest w) < unat c" and d: "unat (c - highest w) = unat c - unat (highest w)"
    by (simp_all add: word_less_nat_alt unat_sub word_le_nat_alt)
  define h where "h = unat (highest w)"
  have bit: "bit (bitmap (window_commit w c)) i \<longleftrightarrow> i = 0 \<or> (unat c - h \<le> i \<and> bit (bitmap w) (i - (unat c - h)))"
    if "i < 64" for i
    using True that d less
    by (auto simp: window_commit_def Let_def ReplayWindowSize_def word_le_nat_alt bit_simps h_def not_le
        simp flip: not_le)
  show ?thesis
    unfolding window_is_def
  proof (intro conjI ballI allI impI)
    show "x \<le> unat (highest (window_commit w c))" if "x \<in> insert (unat c) A" for x
      using that assms(1) True less by (auto simp: window_is_def window_commit_def Let_def)
    show "unat (highest (window_commit w c)) \<in> insert 0 (insert (unat c) A)"
      using True by (simp add: window_commit_def Let_def)
    fix i :: nat
    assume "i < 64" and "i \<le> unat (highest (window_commit w c))"
    then have i: "i < 64" "i \<le> unat c"
      using True by (simp_all add: window_commit_def Let_def)
    have old: "bit (bitmap w) (i - (unat c - h)) \<longleftrightarrow> unat c - i \<in> A" if "unat c - h \<le> i"
    proof -
      have "i - (unat c - h) < 64" "i - (unat c - h) \<le> unat (highest w)" "unat (highest w) - (i - (unat c - h)) = unat c - i"
        using i that less by (simp_all add: h_def)
      then show ?thesis
        using assms(1) unfolding window_is_def by metis
    qed
    have new: "unat c - i \<notin> A" if "\<not> unat c - h \<le> i"
      using assms(1) that i unfolding window_is_def h_def by force
    have "highest (window_commit w c) = c"
      using True by (simp add: window_commit_def Let_def)
    then show "bit (bitmap (window_commit w c)) i \<longleftrightarrow> unat (highest (window_commit w c)) - i \<in> insert (unat c) A"
      using bit [OF i(1)] old new i by (cases "i = 0") auto
  qed
next
  case False
  then have "c \<le> highest w" by simp
  then have u: "unat c \<le> unat (highest w)" and d: "unat (highest w - c) = unat (highest w) - unat c"
    by (simp_all add: unat_sub word_le_nat_alt)
  then have near: "highest w - c < ReplayWindowSize"
    using assms(3) by (simp add: ReplayWindowSize_def word_less_nat_alt)
  have eq: "window_commit w c = w\<lparr>bitmap := bitmap w OR 2 ^ (unat (highest w) - unat c)\<rparr>"
    using False near d by (simp add: window_commit_def Let_def)
  show ?thesis
    using assms u unfolding window_is_def eq by (auto simp: bit_simps)
qed

section \<open>A session accepts a counter once\<close>

text \<open>A run of arriving packets: the counters accepted, newest first, beside the session.\<close>

fun open_run :: "crypto_lib \<Rightarrow> session \<times> u64 list \<Rightarrow> (u64 \<times> octets \<times> octets) list \<Rightarrow> session \<times> u64 list" where
  "open_run L st [] = st"
| "open_run L (s, acc) ((ctr, ciphertext, aad) # pkts) =
     (case Open L s [] ctr ciphertext aad of
        (s', Inl err) \<Rightarrow> open_run L (s', acc) pkts
      | (s', Inr body) \<Rightarrow> open_run L (s', ctr # acc) pkts)"

definition session_is :: "session \<Rightarrow> u64 list \<Rightarrow> bool" where
  "session_is s acc \<longleftrightarrow> window_is (ss_win s) (unat ` set acc) \<and> distinct acc \<and> 0 \<notin> set acc"

lemma session_Open:
  assumes "session_is s acc"
  shows "(\<exists>s' err. Open L s dst ctr ciphertext aad = (s', Inl err) \<and> session_is s' acc \<and> ss_win s' = ss_win s
            \<and> ss_recv s' = ss_recv s) \<or>
         (\<exists>s' out. Open L s dst ctr ciphertext aad = (s', Inr (dst @ out)) \<and> session_is s' (ctr # acc)
            \<and> ss_recv s' = ss_recv s \<and> ctr \<notin> set acc \<and> aead_open L (ss_recv s) (nonceFor ctr) ciphertext aad = Some out)"
proof -
  have win: "window_is (ss_win s) (unat ` set acc)" and acc: "distinct acc" "0 \<notin> set acc"
    using assms by (simp_all add: session_is_def)
  note chk = window_check_abstract [OF win, of ctr]
  show ?thesis
  proof (cases "ctr = 0 \<or> \<not> window_check (ss_win s) ctr \<or> aead_open L (ss_recv s) (nonceFor ctr) ciphertext aad = None")
    case True
    then show ?thesis
      using win acc by (auto simp: Open_def session_is_def)
  next
    case False
    then obtain out where "ctr \<noteq> 0" "window_check (ss_win s) ctr"
      "aead_open L (ss_recv s) (nonceFor ctr) ciphertext aad = Some out"
      by auto
    moreover from this have "ctr \<notin> set acc" "window_is (window_commit (ss_win s) ctr) (insert (unat ctr) (unat ` set acc))"
      using chk window_commit_abstract [OF win] by auto
    ultimately show ?thesis
      using acc by (auto simp: Open_def session_is_def)
  qed
qed

lemma session_run: "session_is s acc \<Longrightarrow> open_run L (s, acc) pkts = (s', acc') \<Longrightarrow>
  session_is s' acc' \<and> ss_recv s' = ss_recv s"
proof (induction pkts arbitrary: s acc)
  case (Cons p pkts)
  obtain ctr ciphertext aad where p: "p = (ctr, ciphertext, aad)"
    by (cases p)
  from session_Open [OF Cons.prems(1), of L "[]" ctr ciphertext aad] show ?case
    using Cons.IH Cons.prems(2) by (auto simp: p)
qed simp

lemma session_fresh: "NewSession L master r salt = Some s \<Longrightarrow> session_is s [] \<and> ss_sendCtr s = 0"
  by (auto simp: NewSession_def session_is_def window_is_def Let_def split: option.splits prod.splits)

text \<open>
  C14. Replay protection of a session. After any sequence of arriving packets, authentic or forged,
  a packet is opened exactly when its counter is not zero, was not accepted before, lies less than
  64 behind the highest accepted counter, and its body authenticates under the receiving key; in
  particular no counter is ever accepted twice, a forged packet never moves the window, and
  reordering by up to 63 packets loses nothing.
\<close>

theorem session_accepts_each_counter_once:
  assumes "NewSession L master r salt = Some s0" and "open_run L (s0, []) pkts = (s, acc)"
  shows "distinct acc \<and>
    ((\<exists>s' body. Open L s dst ctr ciphertext aad = (s', Inr body)) \<longleftrightarrow>
       ctr \<noteq> 0 \<and> ctr \<notin> set acc \<and> (\<forall>c\<in>set acc. unat c < unat ctr + 64) \<and>
       aead_open L (ss_recv s0) (nonceFor ctr) ciphertext aad \<noteq> None)"
proof -
  have run: "session_is s acc" "ss_recv s = ss_recv s0"
    using session_run [OF _ assms(2)] session_fresh [OF assms(1)] by simp_all
  then have win: "window_is (ss_win s) (unat ` set acc)"
    by (simp add: session_is_def)
  then have "unat (highest (ss_win s)) < unat ctr + 64 \<longleftrightarrow> (\<forall>c\<in>set acc. unat c < unat ctr + 64)"
    unfolding window_is_def by fastforce
  moreover have "unat ctr \<in> unat ` set acc \<longleftrightarrow> ctr \<in> set acc"
    by (rule inj_image_mem_iff) (simp add: inj_def word_unat_eq_iff)
  ultimately have "window_check (ss_win s) ctr \<longleftrightarrow> ctr \<notin> set acc \<and> (\<forall>c\<in>set acc. unat c < unat ctr + 64)"
    using window_check_abstract [OF win, of ctr] by simp
  with run show ?thesis
    by (auto simp: session_is_def Open_def split: option.splits)
qed

text \<open>A library in which sealing appends a tag of sixteen copies of the key's first byte.\<close>

definition demo_tag :: "octets \<Rightarrow> octets" where
  "demo_tag key = replicate 16 (hd key)"

definition demo_lib :: crypto_lib where
  "demo_lib = \<lparr>aead_seal = (\<lambda>key nonce plaintext aad. plaintext @ demo_tag key),
     aead_open = (\<lambda>key nonce ciphertext aad.
        if drop (length ciphertext - 16) ciphertext = demo_tag key
        then Some (take (length ciphertext - 16) ciphertext) else None),
     aead_new = (\<lambda>key. length key = 32),
     hkdf_Key = (\<lambda>master salt label n. Some (replicate n (of_nat (length salt) + (if label = labelC2S then 1 else 2)))),
     hmac_Sum = (\<lambda>secret message. replicate 32 (foldl (+) 0 message))\<rparr>"

definition demo_session :: session where
  "demo_session = the (NewSession demo_lib [] RoleServer [])"

definition demo_packets :: "(u64 \<times> octets \<times> octets) list" where
  "demo_packets = [(5, 7 # demo_tag [1], []), (4, 9 # demo_tag [1], []), (6, 9 # demo_tag [3], []), (5, 7 # demo_tag [1], [])]"

theorem session_accepts_each_counter_once_witness:
  "snd (open_run demo_lib (demo_session, []) demo_packets) = [4, 5] \<and>
   distinct (snd (open_run demo_lib (demo_session, []) demo_packets)) \<and>
   (\<exists>s' body. Open demo_lib (fst (open_run demo_lib (demo_session, []) demo_packets)) [] 3 (demo_tag [1]) [] = (s', Inr body))"
proof -
  have new: "NewSession demo_lib [] RoleServer [] = Some demo_session"
    unfolding demo_session_def by code_simp
  have acc: "snd (open_run demo_lib (demo_session, []) demo_packets) = [4, 5]"
    by code_simp
  have "aead_open demo_lib (ss_recv demo_session) (nonceFor 3) (demo_tag [1]) [] \<noteq> None"
    by code_simp
  with acc session_accepts_each_counter_once [OF new surjective_pairing, of demo_packets "[]" 3 "demo_tag [1]" "[]"]
  show ?thesis by simp
qed

section \<open>Nonces\<close>

lemma unat_maxCounter: "unat maxCounter = 2 ^ 64 - 1 - 1024"
  unfolding maxCounter_def by (simp add: unsigned_minus_1_eq_mask unat_sub word_le_nat_alt mask_eq_exp_minus_1)

lemma PutBE_inj: "LENGTH('a) \<le> 8 * n \<Longrightarrow> PutBE n c = PutBE n d \<longleftrightarrow> c = (d :: 'a :: len word)"
proof
  assume len: "LENGTH('a) \<le> 8 * n" and "PutBE n c = PutBE n d"
  then have "BE (PutBE n c) = (BE (PutBE n d) :: 'a word)"
    by simp
  then show "c = d"
    by (simp add: BE_PutBE_id len)
qed simp

lemma nonceFor_inj: "nonceFor c = nonceFor d \<longleftrightarrow> c = d"
  unfolding nonceFor_def same_append_eq by (rule PutBE_inj) simp

text \<open>The outcomes of successive calls of \<open>SealWithHeader\<close>: each plaintext with its header builder.\<close>

fun seal_run :: "crypto_lib \<Rightarrow> session \<Rightarrow> (octets \<times> (u64 \<Rightarrow> octets)) list \<Rightarrow> (crypto_error + octets \<times> octets) list" where
  "seal_run L s [] = []"
| "seal_run L s ((plaintext, hdr) # calls) =
     (case SealWithHeader L s plaintext hdr of (s', r) \<Rightarrow> r # seal_run L s' calls)"

lemma seal_run_nth: "k < length calls \<Longrightarrow>
  seal_run L s calls ! k =
    (let ctr = ss_sendCtr s + of_nat k + 1 in
     if ctr > maxCounter then Inl ErrCounterExhausted
     else Inr (snd (calls ! k) ctr, aead_seal L (ss_send s) (nonceFor ctr) (fst (calls ! k)) (snd (calls ! k) ctr)))"
proof (induction calls arbitrary: s k)
  case (Cons c calls)
  obtain pt hdr where c: "c = (pt, hdr)" by (cases c)
  show ?case
  proof (cases k)
    case 0
    then show ?thesis by (simp add: c SealWithHeader_def Let_def)
  next
    case (Suc j)
    then show ?thesis
      using Cons by (simp add: c SealWithHeader_def Let_def add_ac)
  qed
qed simp

text \<open>
  Nonces of a session. The \<open>k\<close>-th call that seals a packet uses the counter \<open>k\<close> modulo
  $2^{64}$ and is refused when that exceeds \<open>maxCounter\<close>; two calls use the same nonce exactly
  when their numbers agree modulo $2^{64}$. So no nonce repeats among the first $2^{64}$ calls, and
  the refusal is not permanent: after the 1024 refused calls the counter wraps and the nonces of the
  first packets are used again.
\<close>

theorem nonces_repeat_only_after_wrap:
  assumes "NewSession L master r salt = Some s" and "i < length calls" and "j < length calls"
  shows "seal_run L s calls ! i =
      (if (i + 1) mod 2 ^ 64 > 2 ^ 64 - 1 - 1024 then Inl ErrCounterExhausted
       else Inr (snd (calls ! i) (of_nat (i + 1)),
                 aead_seal L (ss_send s) (nonceFor (of_nat (i + 1))) (fst (calls ! i)) (snd (calls ! i) (of_nat (i + 1))))) \<and>
    (nonceFor (of_nat (i + 1)) = nonceFor (of_nat (j + 1)) \<longleftrightarrow> i mod 2 ^ 64 = j mod 2 ^ 64)"
proof -
  have zero: "ss_sendCtr s = 0"
    using session_fresh [OF assms(1)] by simp
  have ctr: "ss_sendCtr s + of_nat i + 1 = (of_nat (i + 1) :: u64)"
    by (simp add: zero)
  have "(of_nat (i + 1) :: u64) > maxCounter \<longleftrightarrow> (i + 1) mod 2 ^ 64 > 2 ^ 64 - 1 - 1024"
    by (simp only: word_less_nat_alt unat_maxCounter) (simp only: unat_of_nat, simp)
  moreover have "(of_nat (i + 1) :: u64) = of_nat (j + 1) \<longleftrightarrow> (of_nat i :: u64) = of_nat j"
    by simp
  moreover have "(of_nat i :: u64) = of_nat j \<longleftrightarrow> i mod 2 ^ 64 = j mod 2 ^ 64"
    by (simp add: word_unat_eq_iff unat_of_nat)
  ultimately show ?thesis
    unfolding seal_run_nth [OF assms(2)] ctr Let_def nonceFor_inj by simp
qed

theorem nonces_repeat_only_after_wrap_witness:
  "nonceFor (of_nat (0 + 1)) = nonceFor (of_nat (2 ^ 64 + 1)) \<and>
   seal_run demo_lib demo_session (replicate (2 ^ 64 + 1) ([], \<lambda>ctr. PutBE 8 ctr)) ! 0 =
     Inr (PutBE 8 (of_nat 1 :: u64), aead_seal demo_lib (ss_send demo_session) (nonceFor (of_nat 1)) [] (PutBE 8 (of_nat 1 :: u64)))"
proof -
  have new: "NewSession demo_lib [] RoleServer [] = Some demo_session"
    unfolding demo_session_def by code_simp
  show ?thesis
    using nonces_repeat_only_after_wrap [OF new, of 0 "replicate (2 ^ 64 + 1) ([], \<lambda>ctr. PutBE 8 ctr)" "2 ^ 64"]
    by simp
qed

section \<open>Handshake cookies\<close>

text \<open>
  A peer address is an IPv4 address, or an IPv6 address with its zone; \<open>netip.AddrPort\<close> values
  are compared structurally.
\<close>

datatype ip_addr = IPv4 u32 | IPv6 "128 word" string

type_synonym addr_port = "ip_addr \<times> u16"

fun As16 :: "ip_addr \<Rightarrow> octets" where
  "As16 (IPv4 a) = replicate 10 0 @ [255, 255] @ PutBE 4 a"
| "As16 (IPv6 a zone) = PutBE 16 a"

definition HandshakeCookieSize :: nat where "HandshakeCookieSize = 16"

definition defaultCookieSlot :: int where "defaultCookieSlot = 15 * 1000000000"

record cookie_signer =
  ck_secret :: octets
  ck_slot :: int

definition NewHandshakeCookieSigner :: "octets option \<Rightarrow> cookie_signer option" where
  "NewHandshakeCookieSigner random =
     (case random of None \<Rightarrow> None | Some secret \<Rightarrow> Some \<lparr>ck_secret = secret, ck_slot = defaultCookieSlot\<rparr>)"

definition slotOf :: "cookie_signer \<Rightarrow> int \<Rightarrow> int" where
  "slotOf s now = go_div now (ck_slot s)"

definition cookie_buffer :: "addr_port \<Rightarrow> u64 \<Rightarrow> u64 \<Rightarrow> int \<Rightarrow> octets" where
  "cookie_buffer ap clientSalt serverSalt slot =
     As16 (fst ap) @ PutBE 2 (snd ap) @ PutBE 8 clientSalt @ PutBE 8 serverSalt @ PutBE 8 (word_of_int slot :: u64)"

definition cookie_compute :: "crypto_lib \<Rightarrow> cookie_signer \<Rightarrow> addr_port \<Rightarrow> u64 \<Rightarrow> u64 \<Rightarrow> int \<Rightarrow> octets" where
  "cookie_compute L s ap clientSalt serverSalt slot =
     take HandshakeCookieSize (hmac_Sum L (ck_secret s) (cookie_buffer ap clientSalt serverSalt slot))"

definition Mint :: "crypto_lib \<Rightarrow> cookie_signer \<Rightarrow> addr_port \<Rightarrow> u64 \<Rightarrow> u64 \<Rightarrow> int \<Rightarrow> octets" where
  "Mint L s ap clientSalt serverSalt now = cookie_compute L s ap clientSalt serverSalt (slotOf s now)"

definition Verify :: "crypto_lib \<Rightarrow> cookie_signer \<Rightarrow> octets \<Rightarrow> addr_port \<Rightarrow> u64 \<Rightarrow> u64 \<Rightarrow> int \<Rightarrow> bool" where
  "Verify L s cookie ap clientSalt serverSalt now =
     (if length cookie \<noteq> HandshakeCookieSize then False
      else let slot = slotOf s now in
           if cookie = cookie_compute L s ap clientSalt serverSalt slot then True
           else cookie = cookie_compute L s ap clientSalt serverSalt (wrap64 (slot - 1)))"

lemma As16_length [simp]: "length (As16 a) = 16"
  by (cases a) (simp_all add: codec)

text \<open>
  The encoded tuple is injective up to the spelling of the address, so a cookie is bound to the
  address, the port, both salts and the slot as far as the MAC separates different messages.
\<close>

lemma cookie_buffer_inj:
  "cookie_buffer ap c s slot = cookie_buffer ap' c' s' slot' \<longleftrightarrow>
     As16 (fst ap) = As16 (fst ap') \<and> snd ap = snd ap' \<and> c = c' \<and> s = s' \<and>
     (word_of_int slot :: u64) = word_of_int slot'"
  by (simp add: cookie_buffer_def append_eq_append_conv codec PutBE_inj)

text \<open>
  Lifetime of a handshake cookie. With a MAC of at least 16 bytes a cookie minted at a
  non-negative time verifies for the same address and salts at every later time less than one slot
  away, and a cookie that does verify carries the truncated MAC of the same address, salts and the
  current or the previous slot, an encoding no other address, port, salt or slot shares.
\<close>

theorem cookie_lives_one_to_two_slots:
  assumes "0 \<le> t" and "t \<le> t'" and "in_i64 t'" and "0 < ck_slot s"
    and "\<forall>m. HandshakeCookieSize \<le> length (hmac_Sum L (ck_secret s) m)"
  shows "(t' < t + ck_slot s \<longrightarrow> Verify L s (Mint L s ap c sv t) ap c sv t') \<and>
    (Verify L s cookie ap' c' sv' t' \<longrightarrow>
       (\<exists>slot\<in>{t' div ck_slot s, t' div ck_slot s - 1}.
          cookie = take HandshakeCookieSize (hmac_Sum L (ck_secret s) (cookie_buffer ap' c' sv' slot)) \<and>
          (\<forall>ap c sv slot'. cookie_buffer ap c sv slot' = cookie_buffer ap' c' sv' slot \<longrightarrow>
             As16 (fst ap) = As16 (fst ap') \<and> snd ap = snd ap' \<and> c = c' \<and> sv = sv')))"
proof -
  have slot: "slotOf s t' = t' div ck_slot s" "slotOf s t = t div ck_slot s"
    using assms by (simp_all add: slotOf_def)
  have range: "0 \<le> t' div ck_slot s" "t' div ck_slot s \<le> t'"
    using assms zdiv_mono2 [of t' 1 "ck_slot s"] by (simp_all add: pos_imp_zdiv_nonneg_iff)
  then have prev: "wrap64 (t' div ck_slot s - 1) = t' div ck_slot s - 1"
    using assms(3) by (intro wrap64_id) (simp add: in_i64_def)
  have size: "length (Mint L s ap c sv t) = HandshakeCookieSize"
    using assms(5) by (simp add: Mint_def cookie_compute_def)
  have "t' div ck_slot s = t div ck_slot s \<or> t' div ck_slot s - 1 = t div ck_slot s" if "t' < t + ck_slot s"
  proof -
    have "t div ck_slot s \<le> t' div ck_slot s"
      using assms by (simp add: zdiv_mono1)
    moreover have "t' div ck_slot s \<le> (t + ck_slot s) div ck_slot s"
      using assms that by (intro zdiv_mono1) simp_all
    moreover have "(t + ck_slot s) div ck_slot s = t div ck_slot s + 1"
      using assms by simp
    ultimately show ?thesis by linarith
  qed
  then have "t' < t + ck_slot s \<longrightarrow> Verify L s (Mint L s ap c sv t) ap c sv t'"
    using size by (auto simp: Verify_def Mint_def slot prev Let_def)
  then show ?thesis
    by (auto simp: Verify_def slot prev Let_def cookie_compute_def cookie_buffer_inj split: if_splits)
qed

theorem cookie_lives_one_to_two_slots_witness:
  "Verify demo_lib \<lparr>ck_secret = [], ck_slot = 15000000000\<rparr>
     (Mint demo_lib \<lparr>ck_secret = [], ck_slot = 15000000000\<rparr> (IPv4 1, 7) 1 2 29000000000) (IPv4 1, 7) 1 2 43999999999"
  using cookie_lives_one_to_two_slots [of 29000000000 43999999999 "\<lparr>ck_secret = [], ck_slot = 15000000000\<rparr>" demo_lib]
  by (simp add: in_i64_def demo_lib_def HandshakeCookieSize_def)

section \<open>Issued keys\<close>

record UDPKeyEntry =
  ke_Key :: octets
  ke_UserID :: string
  ke_Username :: string
  ke_ExpiresAt :: int

record UDPKeyRegistry =
  kr_entries :: "(u64 \<times> UDPKeyEntry) list"
  kr_max :: int
  kr_ttl :: int
  kr_sinceSweep :: int
  kr_issued :: u64
  kr_claimed :: u64
  kr_rejected :: u64

datatype key_error = ErrUDPKeyRegistryFull | ErrUDPKeyUnknown | ErrRandom

definition DefaultUDPKeyTTL :: int where "DefaultUDPKeyTTL = 5 * 60 * 1000000000"
definition DefaultMaxUDPKeys :: int where "DefaultMaxUDPKeys = 4096"
definition udpKeySweepThreshold :: int where "udpKeySweepThreshold = 64"

definition NewUDPKeyRegistry :: "int \<Rightarrow> int \<Rightarrow> UDPKeyRegistry" where
  "NewUDPKeyRegistry mx ttl =
     \<lparr>kr_entries = [], kr_max = (if mx \<le> 0 then DefaultMaxUDPKeys else mx),
      kr_ttl = (if ttl \<le> 0 then DefaultUDPKeyTTL else ttl),
      kr_sinceSweep = 0, kr_issued = 0, kr_claimed = 0, kr_rejected = 0\<rparr>"

definition sweepLocked :: "UDPKeyRegistry \<Rightarrow> int \<Rightarrow> UDPKeyRegistry" where
  "sweepLocked r now = r\<lparr>kr_entries := filter (\<lambda>(kid, e). now < ke_ExpiresAt e) (kr_entries r)\<rparr>"

text \<open>The random key and identifier bytes are arguments, absent when the reader failed.\<close>

definition Issue ::
  "UDPKeyRegistry \<Rightarrow> octets option \<Rightarrow> octets option \<Rightarrow> string \<Rightarrow> string \<Rightarrow> int \<Rightarrow>
   UDPKeyRegistry \<times> (key_error + u64 \<times> UDPKeyEntry)" where
  "Issue r rndKey rndID userID username now =
     (case rndKey of
        None \<Rightarrow> (r, Inl ErrRandom)
      | Some key \<Rightarrow>
         (case rndID of
            None \<Rightarrow> (r, Inl ErrRandom)
          | Some idBuf \<Rightarrow>
             let id0 = BE idBuf;
                 kid = (if id0 = 0 then 1 else id0);
                 entry = \<lparr>ke_Key = key, ke_UserID = userID, ke_Username = username,
                          ke_ExpiresAt = now + kr_ttl r\<rparr>;
                 r1 = r\<lparr>kr_sinceSweep := kr_sinceSweep r + 1\<rparr>;
                 r2 = (if kr_sinceSweep r1 \<ge> udpKeySweepThreshold \<or> int (length (kr_entries r1)) \<ge> kr_max r1
                       then (sweepLocked r1 now)\<lparr>kr_sinceSweep := 0\<rparr> else r1)
             in if int (length (kr_entries r2)) \<ge> kr_max r2
                then (r2\<lparr>kr_rejected := kr_rejected r2 + 1\<rparr>, Inl ErrUDPKeyRegistryFull)
                else (r2\<lparr>kr_entries := AList.update kid entry (kr_entries r2), kr_issued := kr_issued r2 + 1\<rparr>,
                      Inr (kid, entry))))"

definition Key_Lookup :: "UDPKeyRegistry \<Rightarrow> u64 \<Rightarrow> int \<Rightarrow> UDPKeyRegistry \<times> (key_error + UDPKeyEntry)" where
  "Key_Lookup r kid now =
     (case map_of (kr_entries r) kid of
        None \<Rightarrow> (r, Inl ErrUDPKeyUnknown)
      | Some e \<Rightarrow>
          if \<not> now < ke_ExpiresAt e
          then (r\<lparr>kr_entries := AList.delete kid (kr_entries r)\<rparr>, Inl ErrUDPKeyUnknown)
          else (r\<lparr>kr_claimed := kr_claimed r + 1\<rparr>, Inr e))"

definition Revoke :: "UDPKeyRegistry \<Rightarrow> u64 \<Rightarrow> UDPKeyRegistry" where
  "Revoke r kid = r\<lparr>kr_entries := AList.delete kid (kr_entries r)\<rparr>"

definition Key_Len :: "UDPKeyRegistry \<Rightarrow> nat" where
  "Key_Len r = length (kr_entries r)"

definition Key_Stats :: "UDPKeyRegistry \<Rightarrow> u64 \<times> u64 \<times> u64" where
  "Key_Stats r = (kr_issued r, kr_claimed r, kr_rejected r)"

text \<open>
  The table is a map of bounded size, and within its lifetime an issued key resolves to the
  identity it was issued for: any number of times, until it is revoked or its identifier is drawn
  again.
\<close>

definition table_ok :: "(u64 \<times> UDPKeyEntry) list \<Rightarrow> int \<Rightarrow> bool" where
  "table_ok es mx \<longleftrightarrow> distinct (map fst es) \<and> int (length es) \<le> mx \<and> 0 < mx"

definition registry_ok :: "UDPKeyRegistry \<Rightarrow> bool" where
  "registry_ok r \<longleftrightarrow> table_ok (kr_entries r) (kr_max r)"

lemma registry_ok_New: "registry_ok (NewUDPKeyRegistry mx ttl)"
  by (simp add: registry_ok_def table_ok_def NewUDPKeyRegistry_def DefaultMaxUDPKeys_def)

lemma length_update_le: "length (AList.update k v al) \<le> Suc (length al)"
  by (induction al) auto

lemma table_ok_update: "table_ok es mx \<Longrightarrow> int (length es) < mx \<Longrightarrow> table_ok (AList.update k e es) mx"
  using length_update_le [of k e es] by (auto simp: table_ok_def distinct_update)

lemma table_ok_filter: "table_ok es mx \<Longrightarrow> table_ok (filter P es) mx"
  using order_trans [of "int (length (filter P es))" "int (length es)" mx]
  by (simp add: table_ok_def distinct_map_filter)

lemma table_ok_delete: "table_ok es mx \<Longrightarrow> table_ok (AList.delete k es) mx"
  by (simp add: AList.delete_eq table_ok_filter)

lemma registry_ok_Issue: "registry_ok r \<Longrightarrow> registry_ok (fst (Issue r rndKey rndID userID username now))"
  by (auto simp: Issue_def Let_def registry_ok_def sweepLocked_def not_le
      intro: table_ok_update table_ok_filter split: option.splits)

lemma registry_ok_Lookup: "registry_ok r \<Longrightarrow> registry_ok (fst (Key_Lookup r kid now))"
  by (auto simp: Key_Lookup_def registry_ok_def table_ok_delete split: option.splits)

lemma registry_ok_Revoke: "registry_ok r \<Longrightarrow> registry_ok (Revoke r kid)"
  by (simp add: Revoke_def registry_ok_def table_ok_delete)

lemma Lookup_Issue:
  assumes "Issue r rndKey rndID userID username now = (r', Inr (kid, entry))" and "now' < now + kr_ttl r"
  shows "snd (Key_Lookup r' kid now') = Inr entry \<and> ke_UserID entry = userID \<and> ke_Username entry = username \<and> kid \<noteq> 0"
  using assms by (auto simp: Issue_def Key_Lookup_def Let_def sweepLocked_def update_Some_unfold update_conv' split: option.splits if_splits)

end
