(* ===== verification/NetIngress.thy ===== *)
theory NetIngress
  imports UdpProto
begin

text \<open>
  What every client transport shares (\<open>pkg/net/limits.go\<close>, \<open>send_result.go\<close>,
  \<open>conn.go\<close>): the ingress limits, the dispositions of a send, the bounded inbound queues and
  the WebSocket connection with its two pumps.

  A Go channel with a buffer is a list of at most its capacity. One iteration of a pump is one
  step; the WebSocket library's outcome of a write and the clock readings are arguments. Process-wide
  metrics and log lines are not part of the state.
\<close>

section \<open>Wire limits\<close>

record WireLimits =
  MaxFrameBytes :: int
  MaxInputQueueDepth :: int
  MaxOpQueueDepth :: int
  MaxFramesPerDrain :: int
  MaxStringBytes :: int
  MaxSliceElems :: int
  MaxBytesFieldLen :: int
  MaxDepth :: int
  MaxTotalAllocBytes :: int
  RejectByteFields :: bool

definition DefaultWireLimits :: WireLimits where
  "DefaultWireLimits =
     \<lparr>MaxFrameBytes = 32768, MaxInputQueueDepth = 256, MaxOpQueueDepth = 64, MaxFramesPerDrain = 64,
      MaxStringBytes = 8192, MaxSliceElems = 4096, MaxBytesFieldLen = 1048576, MaxDepth = 16,
      MaxTotalAllocBytes = 1048576, RejectByteFields = False\<rparr>"

definition or_default :: "int \<Rightarrow> int \<Rightarrow> int" where
  "or_default x d = (if x \<le> 0 then d else x)"

definition Normalized :: "WireLimits \<Rightarrow> WireLimits" where
  "Normalized l =
     (let d = DefaultWireLimits in
      l\<lparr>MaxFrameBytes := or_default (MaxFrameBytes l) (MaxFrameBytes d),
        MaxInputQueueDepth := or_default (MaxInputQueueDepth l) (MaxInputQueueDepth d),
        MaxOpQueueDepth := or_default (MaxOpQueueDepth l) (MaxOpQueueDepth d),
        MaxFramesPerDrain := or_default (MaxFramesPerDrain l) (MaxFramesPerDrain d),
        MaxStringBytes := or_default (MaxStringBytes l) (MaxStringBytes d),
        MaxSliceElems := or_default (MaxSliceElems l) (MaxSliceElems d),
        MaxBytesFieldLen := or_default (MaxBytesFieldLen l) (MaxBytesFieldLen d),
        MaxDepth := or_default (MaxDepth l) (MaxDepth d),
        MaxTotalAllocBytes := or_default (MaxTotalAllocBytes l) (MaxTotalAllocBytes d)\<rparr>)"

definition lim_of :: "WireLimits \<Rightarrow> WireLimits" where
  "lim_of l = (if MaxFrameBytes l \<le> 0 then DefaultWireLimits else l)"

definition dropLogInterval :: int where "dropLogInterval = 1000000000"

text \<open>One call of \<open>allow\<close>: whether a line may be logged, and the stamp it leaves.\<close>

definition dropThrottle_allow :: "int \<Rightarrow> int \<Rightarrow> bool \<times> int" where
  "dropThrottle_allow previous now = (if now - previous < dropLogInterval then (False, previous) else (True, now))"

section \<open>Send results\<close>

datatype SendDisposition = SendFailed | SendQueued | SendBackpressure | SendClosed | SendNoRoute | SendIndeterminate

datatype DeliveryClass = DeliveryBestEffort | DeliveryOrdered | DeliveryReliableOrdered

fun class_rank :: "DeliveryClass \<Rightarrow> nat" where
  "class_rank DeliveryBestEffort = 0"
| "class_rank DeliveryOrdered = 1"
| "class_rank DeliveryReliableOrdered = 2"

instantiation DeliveryClass :: linorder
begin

definition less_eq_DeliveryClass :: "DeliveryClass \<Rightarrow> DeliveryClass \<Rightarrow> bool" where
  "less_eq_DeliveryClass a b = (class_rank a \<le> class_rank b)"

definition less_DeliveryClass :: "DeliveryClass \<Rightarrow> DeliveryClass \<Rightarrow> bool" where
  "less_DeliveryClass a b = (class_rank a < class_rank b)"

instance
proof
  fix a b :: DeliveryClass
  show "a \<le> b \<Longrightarrow> b \<le> a \<Longrightarrow> a = b"
    by (cases a; cases b) (simp_all add: less_eq_DeliveryClass_def)
qed (auto simp: less_eq_DeliveryClass_def less_DeliveryClass_def)

end

record SendResult =
  Disposition :: SendDisposition
  Delivery :: DeliveryClass

definition refused :: "SendDisposition \<Rightarrow> SendResult" where
  "refused d = \<lparr>Disposition = d, Delivery = DeliveryBestEffort\<rparr>"

definition Queued :: "SendResult \<Rightarrow> bool" where
  "Queued r \<longleftrightarrow> Disposition r = SendQueued"

definition Supports :: "SendResult \<Rightarrow> DeliveryClass \<Rightarrow> bool" where
  "Supports r required \<longleftrightarrow> Queued r \<and> Delivery r \<ge> required"

definition queuedSend :: "DeliveryClass \<Rightarrow> SendResult" where
  "queuedSend delivery = \<lparr>Disposition = SendQueued, Delivery = delivery\<rparr>"

section \<open>The WebSocket connection\<close>

definition outboundBufferSize :: nat where "outboundBufferSize = 64"
definition ChannelEvent :: u8 where "ChannelEvent = 0"
definition ChannelOperation :: u8 where "ChannelOperation = 1"
definition SlowWriteThreshold :: int where "SlowWriteThreshold = 5 * 1000000"
definition SlowQueueThreshold :: int where "SlowQueueThreshold = 5 * 1000000"

datatype drop_counter = InputDrops | OpInputDrops | OversizeDrops | UnknownChannelDrops

record Conn =
  cn_id :: u32
  cn_outbound :: "(octets \<times> int) list"
  cn_closed :: bool
  cn_input :: "octets list"
  cn_opInput :: "octets list"
  cn_limits :: WireLimits
  cn_drops :: "drop_counter \<Rightarrow> u64"
  cn_dropLog :: int
  cn_bytesSent :: u64
  cn_bytesRecv :: u64
  cn_totalWrites :: u64
  cn_slowWrites :: u64
  cn_slowQueues :: u64
  cn_writeDurUsTotal :: u64
  cn_queueDurUsTotal :: u64
  cn_writeDurUsMax :: u64
  cn_queueDurUsMax :: u64

definition newConn :: "u32 \<Rightarrow> WireLimits \<Rightarrow> Conn" where
  "newConn cid limits =
     \<lparr>cn_id = cid, cn_outbound = [], cn_closed = False, cn_input = [], cn_opInput = [],
      cn_limits = Normalized limits, cn_drops = (\<lambda>_. 0), cn_dropLog = 0, cn_bytesSent = 0,
      cn_bytesRecv = 0, cn_totalWrites = 0, cn_slowWrites = 0, cn_slowQueues = 0,
      cn_writeDurUsTotal = 0, cn_queueDurUsTotal = 0, cn_writeDurUsMax = 0, cn_queueDurUsMax = 0\<rparr>"

definition Conn_Send :: "octets \<Rightarrow> int \<Rightarrow> Conn \<Rightarrow> Conn \<times> SendResult" where
  "Conn_Send data now c =
     (if cn_closed c then (c, refused SendClosed)
      else if length (cn_outbound c) < outboundBufferSize
      then (c\<lparr>cn_outbound := cn_outbound c @ [(data, now)]\<rparr>, queuedSend DeliveryReliableOrdered)
      else (c, refused SendBackpressure))"

definition splitDrain :: "'a list \<Rightarrow> int \<Rightarrow> 'a list option \<times> 'a list" where
  "splitDrain queue budget =
     (if queue = [] then (None, queue)
      else if int (length queue) \<le> budget then (Some queue, [])
      else (Some (take (nat budget) queue), drop (nat budget) queue))"

definition Conn_DrainInput :: "Conn \<Rightarrow> Conn \<times> octets list option" where
  "Conn_DrainInput c =
     (case splitDrain (cn_input c) (MaxFramesPerDrain (lim_of (cn_limits c))) of
        (None, rest) \<Rightarrow> (c, None)
      | (Some msgs, rest) \<Rightarrow> (c\<lparr>cn_input := rest\<rparr>, Some msgs))"

definition Conn_DrainOpInput :: "Conn \<Rightarrow> Conn \<times> octets list option" where
  "Conn_DrainOpInput c =
     (case splitDrain (cn_opInput c) (MaxFramesPerDrain (lim_of (cn_limits c))) of
        (None, rest) \<Rightarrow> (c, None)
      | (Some msgs, rest) \<Rightarrow> (c\<lparr>cn_opInput := rest\<rparr>, Some msgs))"

definition noteInputDrop :: "drop_counter \<Rightarrow> int \<Rightarrow> Conn \<Rightarrow> Conn" where
  "noteInputDrop counter now c =
     c\<lparr>cn_drops := (cn_drops c)(counter := cn_drops c counter + 1),
       cn_dropLog := snd (dropThrottle_allow (cn_dropLog c) now)\<rparr>"

definition Conn_InjectInput :: "octets \<Rightarrow> int \<Rightarrow> Conn \<Rightarrow> Conn" where
  "Conn_InjectInput data now c =
     (if int (length (cn_input c)) \<ge> MaxInputQueueDepth (lim_of (cn_limits c))
      then noteInputDrop InputDrops now c
      else c\<lparr>cn_input := cn_input c @ [data]\<rparr>)"

definition Conn_Close :: "Conn \<Rightarrow> Conn" where
  "Conn_Close c = (if cn_closed c then c else c\<lparr>cn_closed := True\<rparr>)"

text \<open>One iteration of \<open>readPump\<close>: the read failed, or it returned a message.\<close>

definition readPump_step :: "octets option \<Rightarrow> int \<Rightarrow> Conn \<Rightarrow> Conn" where
  "readPump_step msg now c =
     (case msg of
        None \<Rightarrow> Conn_Close c
      | Some [] \<Rightarrow> c
      | Some (channel # payload) \<Rightarrow>
          let c1 = c\<lparr>cn_bytesRecv := cn_bytesRecv c + of_nat (Suc (length payload))\<rparr>;
              limits = lim_of (cn_limits c)
          in if int (length payload) > MaxFrameBytes limits then noteInputDrop OversizeDrops now c1
             else if channel = ChannelOperation then
               if int (length (cn_opInput c1)) \<ge> MaxOpQueueDepth limits then noteInputDrop OpInputDrops now c1
               else c1\<lparr>cn_opInput := cn_opInput c1 @ [payload]\<rparr>
             else if channel = ChannelEvent then
               if int (length (cn_input c1)) \<ge> MaxInputQueueDepth limits then noteInputDrop InputDrops now c1
               else c1\<lparr>cn_input := cn_input c1 @ [payload]\<rparr>
             else noteInputDrop UnknownChannelDrops now c1)"

definition updateMax :: "u64 \<Rightarrow> u64 \<Rightarrow> u64" where
  "updateMax cur v = (if v \<le> cur then cur else v)"

definition microseconds :: "int \<Rightarrow> u64" where
  "microseconds d = word_of_int (go_div d 1000)"

text \<open>
  One iteration of \<open>writePump\<close>: \<open>pickDone\<close> is the branch \<open>select\<close> takes when the connection is
  closed and an entry is waiting too, \<open>writeStart\<close> and \<open>writeDur\<close> are the clock reading before
  the write and its duration, \<open>failed\<close> the library's outcome. The second component is the entry
  taken from the channel.
\<close>

definition writePump_step :: "bool \<Rightarrow> int \<Rightarrow> int \<Rightarrow> bool \<Rightarrow> Conn \<Rightarrow> Conn \<times> (octets \<times> int) option" where
  "writePump_step pickDone writeStart writeDur failed c =
     (if cn_closed c \<and> pickDone then (c, None)
      else case cn_outbound c of
        [] \<Rightarrow> (c, None)
      | (data, queuedAt) # rest \<Rightarrow>
          let queueDur = writeStart - queuedAt;
              c1 = c\<lparr>cn_outbound := rest, cn_totalWrites := cn_totalWrites c + 1,
                    cn_queueDurUsTotal := cn_queueDurUsTotal c + microseconds queueDur,
                    cn_writeDurUsTotal := cn_writeDurUsTotal c + microseconds writeDur,
                    cn_queueDurUsMax := updateMax (cn_queueDurUsMax c) (microseconds queueDur),
                    cn_writeDurUsMax := updateMax (cn_writeDurUsMax c) (microseconds writeDur)\<rparr>;
              c2 = (if queueDur > SlowQueueThreshold then c1\<lparr>cn_slowQueues := cn_slowQueues c1 + 1\<rparr> else c1);
              c3 = (if writeDur > SlowWriteThreshold then c2\<lparr>cn_slowWrites := cn_slowWrites c2 + 1\<rparr> else c2)
          in (if failed then Conn_Close c3
              else c3\<lparr>cn_bytesSent := cn_bytesSent c3 + of_nat (length data)\<rparr>, Some (data, queuedAt)))"

record ConnStats =
  st_ConnID :: u32
  st_TotalWrites :: u64
  st_SlowWrites :: u64
  st_SlowQueues :: u64
  st_WriteDurUsMean :: u64
  st_QueueDurUsMean :: u64
  st_WriteDurUsMax :: u64
  st_QueueDurUsMax :: u64
  st_BytesSent :: u64

definition Conn_Stats :: "Conn \<Rightarrow> ConnStats" where
  "Conn_Stats c =
     (let total = cn_totalWrites c in
      \<lparr>st_ConnID = cn_id c, st_TotalWrites = total, st_SlowWrites = cn_slowWrites c,
       st_SlowQueues = cn_slowQueues c,
       st_WriteDurUsMean = (if total > 0 then cn_writeDurUsTotal c div total else 0),
       st_QueueDurUsMean = (if total > 0 then cn_queueDurUsTotal c div total else 0),
       st_WriteDurUsMax = cn_writeDurUsMax c, st_QueueDurUsMax = cn_queueDurUsMax c,
       st_BytesSent = cn_bytesSent c\<rparr>)"

section \<open>Limits\<close>

definition limits_ok :: "WireLimits \<Rightarrow> bool" where
  "limits_ok l \<longleftrightarrow> 0 < MaxFrameBytes l \<and> 0 < MaxInputQueueDepth l \<and> 0 < MaxOpQueueDepth l \<and>
     0 < MaxFramesPerDrain l \<and> 0 < MaxStringBytes l \<and> 0 < MaxSliceElems l \<and> 0 < MaxBytesFieldLen l \<and>
     0 < MaxDepth l \<and> 0 < MaxTotalAllocBytes l"

lemma limits_ok_Default [simp]: "limits_ok DefaultWireLimits"
  by (simp add: limits_ok_def DefaultWireLimits_def)

lemma limits_ok_Normalized [simp]: "limits_ok (Normalized l)"
  by (simp add: limits_ok_def Normalized_def Let_def or_default_def DefaultWireLimits_def)

lemma Normalized_id: "limits_ok l \<Longrightarrow> Normalized l = l"
  by (simp add: limits_ok_def Normalized_def Let_def or_default_def)

lemma lim_of_ok [simp]: "limits_ok l \<Longrightarrow> lim_of l = l"
  by (simp add: limits_ok_def lim_of_def)

lemma limits_ok_pos:
  "limits_ok l \<Longrightarrow> 0 < MaxInputQueueDepth l" "limits_ok l \<Longrightarrow> 0 < MaxOpQueueDepth l"
  "limits_ok l \<Longrightarrow> 0 < MaxFramesPerDrain l"
  by (simp_all add: limits_ok_def)

section \<open>Bounded queues\<close>

text \<open>What the steps of a run observe, in order.\<close>

fun collect :: "('e \<Rightarrow> 's \<Rightarrow> 's) \<Rightarrow> ('e \<Rightarrow> 's \<Rightarrow> 'a list) \<Rightarrow> 'e list \<Rightarrow> 's \<Rightarrow> 'a list" where
  "collect step obs [] s = []"
| "collect step obs (e # es) s = obs e s @ collect step obs es (step e s)"

text \<open>
  The contract of a bounded queue inside a larger state: what a step takes from the front and what
  it appends account for every change of the queue, at most one element is appended at a time, and
  only below the capacity.
\<close>

locale bounded_fifo =
  fixes good :: "'s \<Rightarrow> bool" and queue :: "'s \<Rightarrow> 'a list" and cap :: "'s \<Rightarrow> int"
    and step :: "'e \<Rightarrow> 's \<Rightarrow> 's"
    and taken :: "'e \<Rightarrow> 's \<Rightarrow> 'a list" and added :: "'e \<Rightarrow> 's \<Rightarrow> 'a list"
  assumes good_step: "good s \<Longrightarrow> good (step e s)"
    and cap_step: "good s \<Longrightarrow> cap (step e s) = cap s"
    and account: "good s \<Longrightarrow> taken e s @ queue (step e s) = queue s @ added e s"
    and one_added: "good s \<Longrightarrow> length (added e s) \<le> 1"
    and room: "good s \<Longrightarrow> added e s \<noteq> [] \<Longrightarrow> int (length (queue s)) < cap s"
begin

lemma run_good: "good s \<Longrightarrow> good (fold step es s) \<and> cap (fold step es s) = cap s"
  by (induction es arbitrary: s) (simp_all add: good_step cap_step)

lemma run_account: "good s \<Longrightarrow> collect step taken es s @ queue (fold step es s) = queue s @ collect step added es s"
proof (induction es arbitrary: s)
  case (Cons e es)
  then have "collect step taken es (step e s) @ queue (fold step es (step e s))
    = queue (step e s) @ collect step added es (step e s)"
    using good_step by blast
  then show ?case
    using account [OF Cons.prems, of e] by simp
qed simp

lemma depth_step: "good s \<Longrightarrow> int (length (queue s)) \<le> cap s \<Longrightarrow> int (length (queue (step e s))) \<le> cap s"
proof -
  assume g: "good s" and d: "int (length (queue s)) \<le> cap s"
  have "length (taken e s) + length (queue (step e s)) = length (queue s) + length (added e s)"
    using arg_cong [OF account [OF g, of e], of length] by simp
  then show ?thesis
    using d one_added [OF g, of e] room [OF g, of e] by (cases "added e s") auto
qed

lemma run_depth: "good s \<Longrightarrow> int (length (queue s)) \<le> cap s \<Longrightarrow> int (length (queue (fold step es s))) \<le> cap s"
proof (induction es arbitrary: s)
  case (Cons e es)
  then show ?case
    using Cons.IH [of "step e s"] depth_step [OF Cons.prems, of e] good_step [OF Cons.prems(1), of e]
      cap_step [OF Cons.prems(1), of e] by simp
qed simp

end

lemma splitDrain_take_drop:
  "0 < budget \<Longrightarrow> splitDrain xs budget =
     (if xs = [] then None else Some (take (nat budget) xs), drop (nat budget) xs)"
  by (auto simp: splitDrain_def)

datatype conn_event =
    ReadMsg "octets option" int
  | Inject octets int
  | DrainEvents
  | DrainOps
  | SendMsg octets int
  | WriteOne bool int int bool
  | CloseConn

fun conn_step :: "conn_event \<Rightarrow> Conn \<Rightarrow> Conn" where
  "conn_step (ReadMsg msg now) c = readPump_step msg now c"
| "conn_step (Inject data now) c = Conn_InjectInput data now c"
| "conn_step DrainEvents c = fst (Conn_DrainInput c)"
| "conn_step DrainOps c = fst (Conn_DrainOpInput c)"
| "conn_step (SendMsg data now) c = fst (Conn_Send data now c)"
| "conn_step (WriteOne pickDone start dur failed) c = fst (writePump_step pickDone start dur failed c)"
| "conn_step CloseConn c = Conn_Close c"

definition conn_good :: "Conn \<Rightarrow> bool" where
  "conn_good c \<longleftrightarrow> limits_ok (cn_limits c)"

definition frame_on :: "u8 \<Rightarrow> WireLimits \<Rightarrow> octets option \<Rightarrow> octets list" where
  "frame_on channel limits msg =
     (case msg of
        Some (ch # payload) \<Rightarrow> if ch = channel \<and> int (length payload) \<le> MaxFrameBytes limits then [payload] else []
      | _ \<Rightarrow> [])"

definition when_room :: "'a list \<Rightarrow> int \<Rightarrow> 'a list \<Rightarrow> 'a list" where
  "when_room queue depth new = (if int (length queue) < depth then new else [])"

fun events_added :: "conn_event \<Rightarrow> Conn \<Rightarrow> octets list" where
  "events_added (ReadMsg msg now) c =
     when_room (cn_input c) (MaxInputQueueDepth (cn_limits c)) (frame_on ChannelEvent (cn_limits c) msg)"
| "events_added (Inject data now) c = when_room (cn_input c) (MaxInputQueueDepth (cn_limits c)) [data]"
| "events_added _ c = []"

fun ops_added :: "conn_event \<Rightarrow> Conn \<Rightarrow> octets list" where
  "ops_added (ReadMsg msg now) c =
     when_room (cn_opInput c) (MaxOpQueueDepth (cn_limits c)) (frame_on ChannelOperation (cn_limits c) msg)"
| "ops_added _ c = []"

fun sends_added :: "conn_event \<Rightarrow> Conn \<Rightarrow> (octets \<times> int) list" where
  "sends_added (SendMsg data now) c =
     (if cn_closed c then [] else when_room (cn_outbound c) (int outboundBufferSize) [(data, now)])"
| "sends_added _ c = []"

fun events_taken :: "conn_event \<Rightarrow> Conn \<Rightarrow> octets list" where
  "events_taken DrainEvents c = (case snd (Conn_DrainInput c) of None \<Rightarrow> [] | Some msgs \<Rightarrow> msgs)"
| "events_taken _ c = []"

fun ops_taken :: "conn_event \<Rightarrow> Conn \<Rightarrow> octets list" where
  "ops_taken DrainOps c = (case snd (Conn_DrainOpInput c) of None \<Rightarrow> [] | Some msgs \<Rightarrow> msgs)"
| "ops_taken _ c = []"

fun sends_taken :: "conn_event \<Rightarrow> Conn \<Rightarrow> (octets \<times> int) list" where
  "sends_taken (WriteOne pickDone start dur failed) c =
     (case snd (writePump_step pickDone start dur failed c) of None \<Rightarrow> [] | Some entry \<Rightarrow> [entry])"
| "sends_taken _ c = []"

lemmas conn_ops = readPump_step_def Conn_InjectInput_def Conn_DrainInput_def Conn_DrainOpInput_def
  Conn_Send_def writePump_step_def Conn_Close_def noteInputDrop_def Let_def

lemma conn_limits_kept [simp]: "cn_limits (conn_step e c) = cn_limits c"
  by (cases e) (auto simp: conn_ops split: option.splits list.splits prod.splits)

lemma conn_events_account:
  assumes "conn_good c"
  shows "events_taken e c @ cn_input (conn_step e c) = cn_input c @ events_added e c"
proof (cases e)
  case DrainEvents
  with assms show ?thesis
    by (auto simp: conn_good_def Conn_DrainInput_def splitDrain_take_drop limits_ok_pos)
qed (use assms in \<open>auto simp: conn_good_def conn_ops frame_on_def when_room_def ChannelEvent_def
       ChannelOperation_def split: option.splits list.splits prod.splits\<close>)

lemma conn_ops_account:
  assumes "conn_good c"
  shows "ops_taken e c @ cn_opInput (conn_step e c) = cn_opInput c @ ops_added e c"
proof (cases e)
  case DrainOps
  with assms show ?thesis
    by (auto simp: conn_good_def Conn_DrainOpInput_def splitDrain_take_drop limits_ok_pos)
qed (use assms in \<open>auto simp: conn_good_def conn_ops frame_on_def when_room_def ChannelEvent_def
       ChannelOperation_def split: option.splits list.splits prod.splits\<close>)

lemma conn_sends_account:
  "sends_taken e c @ cn_outbound (conn_step e c) = cn_outbound c @ sends_added e c"
  by (cases e) (auto simp: conn_ops when_room_def split: option.splits list.splits prod.splits)

interpretation conn_event_queue: bounded_fifo conn_good cn_input "\<lambda>c. MaxInputQueueDepth (cn_limits c)"
  conn_step events_taken events_added
proof (unfold_locales, goal_cases)
  case (3 s e)
  then show ?case by (rule conn_events_account)
next
  case (4 s e)
  then show ?case by (cases e) (simp_all add: when_room_def frame_on_def split: option.splits list.splits)
next
  case (5 s e)
  then show ?case by (cases e) (simp_all add: when_room_def split: if_splits)
qed (simp_all add: conn_good_def)

interpretation conn_op_queue: bounded_fifo conn_good cn_opInput "\<lambda>c. MaxOpQueueDepth (cn_limits c)"
  conn_step ops_taken ops_added
proof (unfold_locales, goal_cases)
  case (3 s e)
  then show ?case by (rule conn_ops_account)
next
  case (4 s e)
  then show ?case by (cases e) (simp_all add: when_room_def frame_on_def split: option.splits list.splits)
next
  case (5 s e)
  then show ?case by (cases e) (simp_all add: when_room_def split: if_splits)
qed (simp_all add: conn_good_def)

interpretation conn_out_queue: bounded_fifo conn_good cn_outbound "\<lambda>c. int outboundBufferSize"
  conn_step sends_taken sends_added
proof (unfold_locales, goal_cases)
  case (3 s e)
  then show ?case by (simp add: conn_sends_account)
next
  case (4 s e)
  then show ?case by (cases e) (simp_all add: when_room_def)
next
  case (5 s e)
  then show ?case by (cases e) (simp_all add: when_room_def split: if_splits)
qed (simp_all add: conn_good_def)

text \<open>
  C16. The queues of a WebSocket connection. Over any interleaving of received messages, injected
  input, drains, sends, write-pump iterations and closing, on a connection made with any limits: the
  event queue, the operation queue and the outbound channel are first-in first-out buffers that lose
  and invent nothing (what was taken out followed by what is queued is what was admitted, in order),
  a message is refused only when its queue is full, its payload is over the frame limit or its
  channel byte is not the queue's, and no queue ever exceeds its normalized bound.
\<close>

theorem websocket_queues_are_bounded_fifos:
  fixes es :: "conn_event list"
  shows "let c = newConn cid l; c' = fold conn_step es c; limits = Normalized l in
    collect conn_step events_taken es c @ cn_input c' = collect conn_step events_added es c \<and>
    collect conn_step ops_taken es c @ cn_opInput c' = collect conn_step ops_added es c \<and>
    collect conn_step sends_taken es c @ cn_outbound c' = collect conn_step sends_added es c \<and>
    int (length (cn_input c')) \<le> MaxInputQueueDepth limits \<and>
    int (length (cn_opInput c')) \<le> MaxOpQueueDepth limits \<and>
    length (cn_outbound c') \<le> outboundBufferSize"
proof -
  define c where "c = newConn cid l"
  have c: "conn_good c" "cn_input c = []" "cn_opInput c = []" "cn_outbound c = []" "cn_limits c = Normalized l"
    by (simp_all add: c_def newConn_def conn_good_def)
  have pos: "0 < MaxInputQueueDepth (Normalized l)" "0 < MaxOpQueueDepth (Normalized l)"
    by (simp_all add: limits_ok_pos)
  have "int (length (cn_input (fold conn_step es c))) \<le> MaxInputQueueDepth (Normalized l)"
    using conn_event_queue.run_depth [OF c(1), of es] c pos by simp
  moreover have "int (length (cn_opInput (fold conn_step es c))) \<le> MaxOpQueueDepth (Normalized l)"
    using conn_op_queue.run_depth [OF c(1), of es] c pos by simp
  moreover have "length (cn_outbound (fold conn_step es c)) \<le> outboundBufferSize"
    using conn_out_queue.run_depth [OF c(1), of es] c by simp
  ultimately show ?thesis
    using conn_event_queue.run_account [OF c(1), of es] conn_op_queue.run_account [OF c(1), of es]
      conn_out_queue.run_account [OF c(1), of es] c
    unfolding Let_def c_def [symmetric] by simp
qed

text \<open>The closed flag is final, and nothing is admitted to the outbound channel after it.\<close>

lemma closed_is_final: "cn_closed c \<Longrightarrow> cn_closed (fold conn_step es c)"
proof (induction es arbitrary: c)
  case (Cons e es)
  have "cn_closed (conn_step e c)"
    using Cons.prems by (cases e) (auto simp: conn_ops split: option.splits list.splits prod.splits)
  then show ?case
    using Cons.IH by simp
qed simp

end
