(* ===== verification/UdpTransport.thy ===== *)
theory UdpTransport
  imports UdpCrypto NetIngress
begin

text \<open>
  One UDP session of the game server (\<open>pkg/net/udp_transport.go\<close>): sealed sends, the ring of
  unacknowledged reliable messages, the receive window behind the acknowledgements, and the bounded
  inbound queues.

  An operation takes the transport beside the socket and returns both. The socket records the
  datagrams it accepted and holds the outcome of each write it will be asked for. Mutexes are not
  modelled: an operation runs to its end. \<open>now\<close> is the monotonic stamp all clock readings of
  one operation return; the ticker hands its own reading to a maintenance pass.
\<close>

section \<open>State\<close>

definition reliableBufSize :: nat where "reliableBufSize = 256"
definition retransmitInterval :: int where "retransmitInterval = 100 * 1000000"
definition reliableTimeout :: int where "reliableTimeout = 5 * 1000000000"
definition keepaliveInterval :: int where "keepaliveInterval = 1 * 1000000000"
definition connectionTimeout :: int where "connectionTimeout = 10 * 1000000000"

definition advanceUDPClock :: "int \<Rightarrow> int \<Rightarrow> int" where
  "advanceUDPClock previous stamp = (if stamp \<le> previous then previous else stamp)"

record reliableEntry =
  re_seq :: u16
  re_payload :: octets
  re_firstSentAt :: int
  re_lastSentAt :: int
  re_acked :: bool
  re_used :: bool

definition no_entry :: reliableEntry where
  "no_entry = \<lparr>re_seq = 0, re_payload = [], re_firstSentAt = 0, re_lastSentAt = 0, re_acked = False, re_used = False\<rparr>"

datatype udp_drop = InboundDrop | OpInboundDrop | OversizeDrop | UnknownChannelDrop | AuthFailure | ReplayDrop

record UDPTransport =
  ut_addr :: addr_port
  ut_token :: u32
  ut_clientSalt :: u64
  ut_serverSalt :: u64
  ut_crypto :: session
  ut_sendSeq :: u16
  ut_sendBuf :: "reliableEntry list"
  ut_recvInit :: bool
  ut_recvSeq :: u16
  ut_recvBits :: u32
  ut_ackDirty :: bool
  ut_inbound :: "octets list"
  ut_opInbound :: "octets list"
  ut_limits :: WireLimits
  ut_drops :: "udp_drop \<Rightarrow> u64"
  ut_dropLog :: int
  ut_lastRecvTick :: int
  ut_lastSendTick :: int
  ut_closed :: bool
  ut_bytesSent :: u64
  ut_bytesRecv :: u64

definition newUDPTransport ::
  "addr_port \<Rightarrow> u32 \<Rightarrow> u64 \<Rightarrow> u64 \<Rightarrow> WireLimits \<Rightarrow> session \<Rightarrow> int \<Rightarrow> UDPTransport" where
  "newUDPTransport addr token clientSalt serverSalt limits sess now =
     \<lparr>ut_addr = addr, ut_token = token, ut_clientSalt = clientSalt, ut_serverSalt = serverSalt,
      ut_crypto = sess, ut_sendSeq = 0, ut_sendBuf = replicate reliableBufSize no_entry,
      ut_recvInit = False, ut_recvSeq = 0, ut_recvBits = 0, ut_ackDirty = False,
      ut_inbound = [], ut_opInbound = [], ut_limits = Normalized limits, ut_drops = (\<lambda>_. 0),
      ut_dropLog = 0, ut_lastRecvTick = now, ut_lastSendTick = now, ut_closed = False,
      ut_bytesSent = 0, ut_bytesRecv = 0\<rparr>"

text \<open>The outcome of a write: the number of bytes written, or an error.\<close>

datatype write_outcome = Wrote nat | WriteError

record udp_socket =
  so_attempts :: nat
  so_outcome :: "nat \<Rightarrow> octets \<Rightarrow> write_outcome"
  so_sent :: "(octets \<times> addr_port) list"

definition WriteTo :: "octets \<Rightarrow> addr_port \<Rightarrow> udp_socket \<Rightarrow> udp_socket \<times> write_outcome" where
  "WriteTo data ap so =
     (let r = so_outcome so (so_attempts so) data;
          so1 = so\<lparr>so_attempts := so_attempts so + 1\<rparr>
      in (case r of WriteError \<Rightarrow> so1 | Wrote n \<Rightarrow> so1\<lparr>so_sent := so_sent so @ [(take n data, ap)]\<rparr>, r))"

section \<open>Sending\<close>

definition sendRaw :: "octets \<Rightarrow> int \<Rightarrow> UDPTransport \<times> udp_socket \<Rightarrow> (UDPTransport \<times> udp_socket) \<times> SendResult" where
  "sendRaw data now ts =
     (case ts of (t, so) \<Rightarrow>
      if ut_closed t then ((t, so), refused SendClosed)
      else case WriteTo data (ut_addr t) so of
        (so', WriteError) \<Rightarrow> ((t, so'), refused SendFailed)
      | (so', Wrote n) \<Rightarrow>
          if n \<noteq> length data then ((t, so'), refused SendFailed)
          else ((t\<lparr>ut_lastSendTick := now, ut_bytesSent := ut_bytesSent t + of_nat (length data)\<rparr>, so'),
                queuedSend DeliveryBestEffort))"

definition sealSend ::
  "crypto_lib \<Rightarrow> octets \<Rightarrow> (u64 \<Rightarrow> octets) \<Rightarrow> int \<Rightarrow> UDPTransport \<times> udp_socket \<Rightarrow> (UDPTransport \<times> udp_socket) \<times> SendResult" where
  "sealSend L body buildHeader now ts =
     (case ts of (t, so) \<Rightarrow>
      case SealWithHeader L (ut_crypto t) body buildHeader of
        (s', Inl err) \<Rightarrow> ((t\<lparr>ut_crypto := s'\<rparr>, so), refused SendFailed)
      | (s', Inr (hdr, sealed)) \<Rightarrow> sendRaw (hdr @ sealed) now (t\<lparr>ut_crypto := s'\<rparr>, so))"

definition SendReliable ::
  "crypto_lib \<Rightarrow> octets \<Rightarrow> int \<Rightarrow> UDPTransport \<times> udp_socket \<Rightarrow> (UDPTransport \<times> udp_socket) \<times> SendResult" where
  "SendReliable L data now ts =
     (case ts of (t, so) \<Rightarrow>
      if ut_closed t then ((t, so), refused SendClosed)
      else let seq = ut_sendSeq t;
               idx = unat seq mod reliableBufSize;
               entry = ut_sendBuf t ! idx
           in if re_used entry \<and> \<not> re_acked entry then ((t, so), refused SendBackpressure)
              else let t1 = t\<lparr>ut_sendSeq := seq + 1,
                              ut_sendBuf := (ut_sendBuf t)[idx := \<lparr>re_seq = seq, re_payload = data,
                                 re_firstSentAt = now, re_lastSentAt = now, re_acked = False, re_used = True\<rparr>]\<rparr>
                   in case sealSend L data (\<lambda>ctr. EncodeReliableHeader (ut_token t) seq ctr) now (t1, so) of
                        ((t2, so2), result) \<Rightarrow>
                          if \<not> Queued result
                          then ((t2\<lparr>ut_sendBuf := (ut_sendBuf t2)[idx := no_entry]\<rparr>, so2), result)
                          else ((t2, so2), result))"

definition SendUnreliable ::
  "crypto_lib \<Rightarrow> octets \<Rightarrow> int \<Rightarrow> UDPTransport \<times> udp_socket \<Rightarrow> (UDPTransport \<times> udp_socket) \<times> SendResult" where
  "SendUnreliable L data now ts = sealSend L data (\<lambda>ctr. EncodeUnreliableHeader (ut_token (fst ts)) ctr) now ts"

definition takePendingACK :: "UDPTransport \<Rightarrow> UDPTransport \<times> (u16 \<times> u32) option" where
  "takePendingACK t =
     (if \<not> ut_ackDirty t then (t, None)
      else (t\<lparr>ut_ackDirty := False\<rparr>, Some (ut_recvSeq t, ut_recvBits t)))"

definition sendACK :: "crypto_lib \<Rightarrow> int \<Rightarrow> UDPTransport \<times> udp_socket \<Rightarrow> UDPTransport \<times> udp_socket" where
  "sendACK L now ts =
     (case ts of (t, so) \<Rightarrow>
      case takePendingACK t of
        (t1, None) \<Rightarrow> (t1, so)
      | (t1, Some (ackSeq, ackBits)) \<Rightarrow>
          (case sealSend L (EncodeACKBody ackSeq ackBits) (\<lambda>ctr. EncodeACKHeader (ut_token t1) ctr) now (t1, so) of
             ((t2, so2), result) \<Rightarrow>
               if \<not> Queued result \<and> Disposition result \<noteq> SendClosed
               then (t2\<lparr>ut_ackDirty := True\<rparr>, so2) else (t2, so2)))"

section \<open>Receiving\<close>

definition noteInboundDrop :: "udp_drop \<Rightarrow> int \<Rightarrow> UDPTransport \<Rightarrow> UDPTransport" where
  "noteInboundDrop counter now t =
     t\<lparr>ut_drops := (ut_drops t)(counter := ut_drops t counter + 1),
       ut_dropLog := snd (dropThrottle_allow (ut_dropLog t) now)\<rparr>"

definition openInbound :: "crypto_lib \<Rightarrow> u64 \<Rightarrow> octets \<Rightarrow> octets \<Rightarrow> int \<Rightarrow> UDPTransport \<Rightarrow> UDPTransport \<times> octets option" where
  "openInbound L counter aad sealed now t =
     (case Open L (ut_crypto t) [] counter sealed aad of
        (s', Inl err) \<Rightarrow>
          (noteInboundDrop (if err = ErrReplay \<or> err = ErrZeroCounter then ReplayDrop else AuthFailure) now
             (t\<lparr>ut_crypto := s'\<rparr>), None)
      | (s', Inr body) \<Rightarrow> (t\<lparr>ut_crypto := s'\<rparr>, Some body))"

definition udp_lim :: "UDPTransport \<Rightarrow> WireLimits" where
  "udp_lim t = lim_of (ut_limits t)"

definition udp_DrainOpInput :: "UDPTransport \<Rightarrow> UDPTransport \<times> octets list option" where
  "udp_DrainOpInput t =
     (case splitDrain (ut_opInbound t) (MaxFramesPerDrain (udp_lim t)) of
        (None, rest) \<Rightarrow> (t, None)
      | (Some msgs, rest) \<Rightarrow> (t\<lparr>ut_opInbound := rest\<rparr>, Some msgs))"

definition udp_DrainInput :: "UDPTransport \<Rightarrow> UDPTransport \<times> octets list option" where
  "udp_DrainInput t =
     (case splitDrain (ut_inbound t) (MaxFramesPerDrain (udp_lim t)) of
        (None, rest) \<Rightarrow> (t, None)
      | (Some msgs, rest) \<Rightarrow> (t\<lparr>ut_inbound := rest\<rparr>, Some msgs))"

definition udp_InjectInput :: "octets \<Rightarrow> int \<Rightarrow> UDPTransport \<Rightarrow> UDPTransport" where
  "udp_InjectInput data now t =
     (if int (length (ut_inbound t)) \<ge> MaxInputQueueDepth (udp_lim t) then noteInboundDrop InboundDrop now t
      else t\<lparr>ut_inbound := ut_inbound t @ [data]\<rparr>)"

definition appendInbound :: "octets \<Rightarrow> WireLimits \<Rightarrow> int \<Rightarrow> UDPTransport \<Rightarrow> UDPTransport" where
  "appendInbound body limits now t =
     (if int (length (ut_inbound t)) \<ge> MaxInputQueueDepth limits then noteInboundDrop InboundDrop now t
      else t\<lparr>ut_inbound := ut_inbound t @ [body]\<rparr>)"

definition routePayload :: "octets \<Rightarrow> int \<Rightarrow> UDPTransport \<Rightarrow> UDPTransport" where
  "routePayload payload now t =
     (let limits = udp_lim t in
      if int (length payload) > MaxFrameBytes limits then noteInboundDrop OversizeDrop now t
      else if payload ! 0 = ChannelEvent then appendInbound (tl payload) limits now t
      else if payload ! 0 = ChannelOperation then
        if int (length (ut_opInbound t)) \<ge> MaxOpQueueDepth limits then noteInboundDrop OpInboundDrop now t
        else t\<lparr>ut_opInbound := ut_opInbound t @ [tl payload]\<rparr>
      else noteInboundDrop UnknownChannelDrop now t)"

definition handleUnreliable :: "crypto_lib \<Rightarrow> u64 \<Rightarrow> octets \<Rightarrow> octets \<Rightarrow> int \<Rightarrow> UDPTransport \<Rightarrow> UDPTransport" where
  "handleUnreliable L counter aad sealed now t =
     (case openInbound L counter aad sealed now t of
        (t1, None) \<Rightarrow> t1
      | (t1, Some payload) \<Rightarrow>
          let t2 = t1\<lparr>ut_lastRecvTick := advanceUDPClock (ut_lastRecvTick t1) now,
                      ut_bytesRecv := ut_bytesRecv t1 + of_nat (length payload)\<rparr>
          in if payload = [] then t2 else routePayload payload now t2)"

text \<open>The receive window of \<open>handleReliable\<close>: the state it leaves and whether to deliver.\<close>

definition track_reliable :: "u16 \<Rightarrow> UDPTransport \<Rightarrow> UDPTransport \<times> bool" where
  "track_reliable seq t =
     (if \<not> ut_recvInit t then (t\<lparr>ut_recvInit := True, ut_recvSeq := seq, ut_recvBits := 0\<rparr>, True)
      else if SeqGreaterThan seq (ut_recvSeq t) then
        let diff = seq - ut_recvSeq t;
            bits = (if diff \<le> 32 then push_bit (unat diff) (ut_recvBits t) OR push_bit (unat (diff - 1)) 1 else 0)
        in (t\<lparr>ut_recvBits := bits, ut_recvSeq := seq\<rparr>, True)
      else
        let diff = ut_recvSeq t - seq in
        if diff > 0 \<and> diff \<le> 32 then
          let b = push_bit (unat (diff - 1)) (1 :: u32) in
          if ut_recvBits t AND b = 0 then (t\<lparr>ut_recvBits := ut_recvBits t OR b\<rparr>, True) else (t, False)
        else (t, False))"

definition handleReliable :: "crypto_lib \<Rightarrow> u16 \<Rightarrow> u64 \<Rightarrow> octets \<Rightarrow> octets \<Rightarrow> int \<Rightarrow> UDPTransport \<Rightarrow> UDPTransport" where
  "handleReliable L seq counter aad sealed now t =
     (case openInbound L counter aad sealed now t of
        (t1, None) \<Rightarrow> t1
      | (t1, Some payload) \<Rightarrow>
          let t2 = t1\<lparr>ut_lastRecvTick := advanceUDPClock (ut_lastRecvTick t1) now,
                      ut_bytesRecv := ut_bytesRecv t1 + of_nat (length payload)\<rparr>;
              (t3, deliver) = track_reliable seq t2;
              t4 = t3\<lparr>ut_ackDirty := True\<rparr>
          in if deliver \<and> payload \<noteq> [] then routePayload payload now t4 else t4)"

definition markAcked :: "u16 \<Rightarrow> UDPTransport \<Rightarrow> UDPTransport" where
  "markAcked seq t =
     (let idx = unat seq mod reliableBufSize;
          entry = ut_sendBuf t ! idx
      in if re_used entry \<and> re_seq entry = seq then t\<lparr>ut_sendBuf := (ut_sendBuf t)[idx := no_entry]\<rparr> else t)"

definition handleACK :: "crypto_lib \<Rightarrow> u64 \<Rightarrow> octets \<Rightarrow> octets \<Rightarrow> int \<Rightarrow> UDPTransport \<Rightarrow> UDPTransport" where
  "handleACK L counter aad sealed now t =
     (case openInbound L counter aad sealed now t of
        (t1, None) \<Rightarrow> t1
      | (t1, Some body) \<Rightarrow>
          (case DecodeACKBody body of
             Inl err \<Rightarrow> t1
           | Inr (ackSeq, ackBits) \<Rightarrow>
               let t2 = t1\<lparr>ut_lastRecvTick := advanceUDPClock (ut_lastRecvTick t1) now\<rparr>
               in fold (\<lambda>i t. if ackBits AND push_bit i 1 \<noteq> 0 then markAcked (ackSeq - of_nat i - 1) t else t)
                    [0..<32] (markAcked ackSeq t2)))"

section \<open>Maintenance\<close>

text \<open>
  The retransmission pass over the ring from slot \<open>i\<close> on: the flag is False when a message
  exceeded its lifetime and the pass stopped there.
\<close>

fun retransmit_from ::
  "crypto_lib \<Rightarrow> int \<Rightarrow> int \<Rightarrow> nat list \<Rightarrow> UDPTransport \<times> udp_socket \<Rightarrow> (UDPTransport \<times> udp_socket) \<times> bool" where
  "retransmit_from L now clock [] ts = (ts, True)"
| "retransmit_from L now clock (i # is) (t, so) =
     (let entry = ut_sendBuf t ! i in
      if \<not> re_used entry \<or> re_acked entry then retransmit_from L now clock is (t, so)
      else if now - re_firstSentAt entry > reliableTimeout then ((t, so), False)
      else if now - re_lastSentAt entry \<ge> retransmitInterval then
        (case sealSend L (re_payload entry) (\<lambda>ctr. EncodeReliableHeader (ut_token t) (re_seq entry) ctr) clock (t, so) of
           ((t1, so1), result) \<Rightarrow>
             retransmit_from L now clock is
               (t1\<lparr>ut_sendBuf := (ut_sendBuf t1)[i := entry\<lparr>re_lastSentAt := now\<rparr>]\<rparr>, so1))
      else retransmit_from L now clock is (t, so))"

text \<open>A maintenance pass; the flag is False when the server has to remove the transport.\<close>

definition maintenance_pass ::
  "crypto_lib \<Rightarrow> int \<Rightarrow> int \<Rightarrow> UDPTransport \<times> udp_socket \<Rightarrow> (UDPTransport \<times> udp_socket) \<times> bool" where
  "maintenance_pass L now clock ts =
     (case ts of (t, so) \<Rightarrow>
      if now - ut_lastRecvTick t > connectionTimeout then ((t, so), False)
      else case retransmit_from L now clock [0..<reliableBufSize] (t, so) of
        (ts1, False) \<Rightarrow> (ts1, False)
      | (ts1, True) \<Rightarrow>
          (case sendACK L clock ts1 of (t2, so2) \<Rightarrow>
             if now - ut_lastSendTick t2 > keepaliveInterval
             then (fst (sealSend L [] (\<lambda>ctr. EncodeUnreliableHeader (ut_token t2) ctr) clock (t2, so2)), True)
             else ((t2, so2), True)))"

text \<open>The part of \<open>Close\<close> that touches the transport and the socket; the server forgets the session in between.\<close>

definition close_local :: "UDPTransport \<Rightarrow> UDPTransport" where
  "close_local t = t\<lparr>ut_closed := True, ut_sendBuf := replicate reliableBufSize no_entry\<rparr>"

definition send_disconnect :: "crypto_lib \<Rightarrow> UDPTransport \<times> udp_socket \<Rightarrow> UDPTransport \<times> udp_socket" where
  "send_disconnect L ts =
     (case ts of (t, so) \<Rightarrow>
      case SealWithHeader L (ut_crypto t) [] (\<lambda>ctr. EncodeDisconnectHeader (ut_token t) ctr) of
        (s', Inl err) \<Rightarrow> (t\<lparr>ut_crypto := s'\<rparr>, so)
      | (s', Inr (hdr, sealed)) \<Rightarrow> (t\<lparr>ut_crypto := s'\<rparr>, fst (WriteTo (hdr @ sealed) (ut_addr t) so)))"

section \<open>The receive window as a set of sequence numbers\<close>

text \<open>
  Sequence numbers travel modulo $2^{16}$; the abstract receiver knows the unbounded number of each
  message. \<open>window_of t R\<close>: \<open>R\<close> is the set of messages accepted, the window holds its maximum
  and which of the 32 messages before it are in \<open>R\<close>.
\<close>

abbreviation seq_of :: "int \<Rightarrow> u16" where
  "seq_of n \<equiv> word_of_int n"

definition window_of :: "UDPTransport \<Rightarrow> int set \<Rightarrow> bool" where
  "window_of t R \<longleftrightarrow> finite R \<and> (ut_recvInit t \<longleftrightarrow> R \<noteq> {}) \<and>
     (R \<noteq> {} \<longrightarrow> ut_recvSeq t = seq_of (Max R) \<and>
        (\<forall>i<32. bit (ut_recvBits t) i \<longleftrightarrow> Max R - 1 - int i \<in> R))"

definition window_fresh :: "int set \<Rightarrow> int \<Rightarrow> bool" where
  "window_fresh R n \<longleftrightarrow> n \<notin> R \<and> (\<forall>m\<in>R. m - n \<le> 32)"

lemma window_fresh_Max: "finite R \<Longrightarrow> R \<noteq> {} \<Longrightarrow> window_fresh R n \<longleftrightarrow> n \<notin> R \<and> Max R - n \<le> 32"
  unfolding window_fresh_def by (meson Max_ge Max_in diff_right_mono order_trans)

lemma seq_of_diff:
  assumes "0 \<le> m - n" and "m - n < 65536"
  shows "unat (seq_of m - seq_of n) = nat (m - n)"
proof -
  have "uint (seq_of m - seq_of n) = (m - n) mod 65536"
    by (simp add: uint_word_ariths uint_word_of_int mod_simps)
  with assms have "uint (seq_of m - seq_of n) = m - n"
    by (simp add: mod_pos_pos_trivial)
  then show ?thesis
    by (simp add: unat_eq_nat_uint)
qed

lemma unat_diff_minus_1: "d \<noteq> 0 \<Longrightarrow> unat (d - 1) = unat (d :: u16) - 1"
  by (simp add: unat_minus_one)

lemma track_new_highest:
  assumes "window_of t R" and "R \<noteq> {}" and "Max R < n" and "n - Max R < 32768"
  shows "\<exists>t'. track_reliable (seq_of n) t = (t', True) \<and> window_of t' (insert n R)"
proof -
  define h where "h = Max R"
  define d where "d = seq_of n - seq_of h"
  have ud: "unat d = nat (n - h)" and pos: "0 < unat d"
    using assms seq_of_diff [of n h] by (simp_all add: d_def h_def)
  then have d0: "d \<noteq> 0" and near: "d \<le> 32 \<longleftrightarrow> n - h \<le> 32"
    using pos by (auto simp: word_le_nat_alt)
  have st: "ut_recvInit t" "ut_recvSeq t = seq_of h" and bits: "\<And>i. i < 32 \<Longrightarrow> bit (ut_recvBits t) i \<longleftrightarrow> h - 1 - int i \<in> R"
    using assms by (simp_all add: window_of_def h_def)
  have gt: "SeqGreaterThan (seq_of n) (seq_of h)"
    using assms by (subst seq_compare_unbounded) (simp_all add: h_def)
  have h: "h \<in> R" "\<And>m. m \<in> R \<Longrightarrow> m \<le> h"
    using assms by (simp_all add: window_of_def h_def)
  define t' where "t' = t\<lparr>ut_recvBits := if d \<le> 32 then push_bit (unat d) (ut_recvBits t) OR push_bit (unat (d - 1)) 1 else 0,
    ut_recvSeq := seq_of n\<rparr>"
  have eq: "track_reliable (seq_of n) t = (t', True)"
    using st gt by (simp add: track_reliable_def t'_def d_def Let_def)
  have "Max (insert n R) = n"
    using assms by (intro Max_eqI) (auto simp: window_of_def less_imp_le)
  moreover have "bit (ut_recvBits t') i \<longleftrightarrow> n - 1 - int i \<in> insert n R" if "i < 32" for i
  proof (cases "n - h \<le> 32")
    case True
    have idx: "unat (d - 1) = nat (n - h) - 1"
      using unat_diff_minus_1 [OF d0] ud by simp
    consider "int i < n - h - 1" | "int i = n - h - 1" | "n - h \<le> int i"
      by linarith
    then show ?thesis
    proof cases
      case 1
      then show ?thesis
        using h(2) [of "n - 1 - int i"] True near by (auto simp: t'_def bit_simps ud idx)
    next
      case 2
      then have "n - 1 - int i = h" "i = nat (n - h) - 1"
        by linarith+
      then show ?thesis
        using True near h(1) that by (auto simp: t'_def bit_simps idx)
    next
      case 3
      then have "h - 1 - int (i - nat (n - h)) = n - 1 - int i" and i: "i - nat (n - h) < 32" "nat (n - h) \<le> i" "i \<noteq> nat (n - h) - 1"
        using that assms(3) by (auto simp: h_def)
      then have "bit (ut_recvBits t) (i - nat (n - h)) \<longleftrightarrow> n - 1 - int i \<in> R"
        using bits [of "i - nat (n - h)"] by metis
      then show ?thesis
        using True near that i by (auto simp: t'_def bit_simps ud idx)
    qed
  next
    case False
    then have "n - 1 - int i \<notin> R"
      using that h(2) by fastforce
    with False near show ?thesis
      by (simp add: t'_def)
  qed
  ultimately have "window_of t' (insert n R)"
    using assms(1) st by (simp add: window_of_def t'_def)
  with eq show ?thesis by blast
qed

lemma track_older:
  assumes "window_of t R" and "R \<noteq> {}" and "n \<le> Max R" and "Max R - n < 32768"
  shows "\<exists>t'. track_reliable (seq_of n) t = (t', window_fresh R n) \<and>
    window_of t' (if window_fresh R n then insert n R else R)"
proof -
  define h where "h = Max R"
  define d where "d = seq_of h - seq_of n"
  have ud: "unat d = nat (h - n)"
    using assms seq_of_diff [of h n] by (simp add: d_def h_def)
  have fin: "finite R" and st: "ut_recvInit t" "ut_recvSeq t = seq_of h"
    and bits: "\<And>i. i < 32 \<Longrightarrow> bit (ut_recvBits t) i \<longleftrightarrow> h - 1 - int i \<in> R"
    using assms by (simp_all add: window_of_def h_def)
  have h: "h \<in> R" using assms fin by (simp add: h_def)
  have ngt: "\<not> SeqGreaterThan (seq_of n) (seq_of h)"
    using assms by (subst seq_compare_unbounded) (simp_all add: h_def)
  have fresh: "window_fresh R n \<longleftrightarrow> n \<notin> R \<and> h - n \<le> 32"
    using window_fresh_Max [OF fin assms(2), of n] by (simp add: h_def)
  show ?thesis
  proof (cases "0 < h - n \<and> h - n \<le> 32")
    case True
    then have d0: "d \<noteq> 0" and dr: "0 < d" "d \<le> 32"
      using ud by (auto simp: word_le_nat_alt word_less_nat_alt)
    have idx: "unat (d - 1) = nat (h - n) - 1" and lt: "nat (h - n) - 1 < 32"
      using unat_diff_minus_1 [OF d0] ud True by (simp, linarith)
    have bit: "bit (ut_recvBits t) (nat (h - n) - 1) \<longleftrightarrow> n \<in> R"
    proof -
      have "h - 1 - int (nat (h - n) - 1) = n"
        using True by linarith
      with bits [OF lt] show ?thesis by simp
    qed
    show ?thesis
    proof (cases "n \<in> R")
      case True
      then show ?thesis
        using st ngt bit dr assms(1) fresh idx
        by (simp add: track_reliable_def Let_def and_single_bit flip: d_def)
    next
      case False
      have mx: "Max (insert n R) = h"
        using assms fin by (simp add: h_def max_def)
      have "bit (ut_recvBits t OR 2 ^ (nat (h - n) - 1)) i \<longleftrightarrow> h - 1 - int i \<in> insert n R" if "i < 32" for i
        using bits [OF that] that True by (auto simp: bit_simps)
      then have "window_of (t\<lparr>ut_recvBits := ut_recvBits t OR 2 ^ (nat (h - n) - 1)\<rparr>) (insert n R)"
        using assms(1) fin st mx by (simp add: window_of_def)
      with False True show ?thesis
        using st ngt bit dr fresh idx
        by (simp add: track_reliable_def Let_def and_single_bit flip: d_def)
    qed
  next
    case False
    then have "\<not> (0 < d \<and> d \<le> 32)"
      using ud assms(3) by (auto simp: word_le_nat_alt word_less_nat_alt h_def)
    moreover have "\<not> window_fresh R n"
      using False fresh h assms(3) by (auto simp: h_def)
    ultimately show ?thesis
      using st ngt assms(1) by (auto simp: track_reliable_def Let_def simp flip: d_def)
  qed
qed

lemma track_first: "window_of t {} \<Longrightarrow> \<exists>t'. track_reliable (seq_of n) t = (t', True) \<and> window_of t' {n}"
  by (simp add: track_reliable_def window_of_def)

text \<open>One arrival: delivered exactly when it is new and at most 32 behind everything accepted.\<close>

lemma track_reliable_abstract:
  assumes "window_of t R" and "\<forall>m\<in>R. \<bar>m - n\<bar> < 32768"
  shows "\<exists>t'. track_reliable (seq_of n) t = (t', window_fresh R n) \<and>
    window_of t' (if window_fresh R n then insert n R else R)"
proof (cases "R = {}")
  case True
  then show ?thesis
    using track_first assms(1) by (simp add: window_fresh_def)
next
  case False
  have fin: "finite R" using assms(1) by (simp add: window_of_def)
  then have mx: "Max R \<in> R" using False by simp
  show ?thesis
  proof (cases "n \<le> Max R")
    case True
    moreover have "Max R - n < 32768"
      using bspec [OF assms(2) mx] by simp
    ultimately show ?thesis
      by (rule track_older [OF assms(1) False])
  next
    case less: False
    then have "window_fresh R n"
      using Max_ge [OF fin, of n] unfolding window_fresh_Max [OF fin False] by auto
    then show ?thesis
      using track_new_highest [OF assms(1) False, of n] less bspec [OF assms(2) mx] by simp
  qed
qed

lemma track_keeps: "track_reliable seq t = (t', b) \<Longrightarrow> ut_sendBuf t' = ut_sendBuf t \<and> ut_limits t' = ut_limits t"
  by (auto simp: track_reliable_def Let_def split: if_splits)

text \<open>The messages a run of arrivals delivers, in order.\<close>

fun track_run :: "UDPTransport \<Rightarrow> int list \<Rightarrow> UDPTransport \<times> int list" where
  "track_run t [] = (t, [])"
| "track_run t (n # ns) =
     (case track_reliable (seq_of n) t of
        (t1, deliver) \<Rightarrow> (case track_run t1 ns of (t2, out) \<Rightarrow> (t2, if deliver then n # out else out)))"

text \<open>The reference: a receiver that remembers every message it accepted.\<close>

fun reference_run :: "int set \<Rightarrow> int list \<Rightarrow> int list" where
  "reference_run R [] = []"
| "reference_run R (n # ns) =
     (if window_fresh R n then n # reference_run (insert n R) ns else reference_run R ns)"

definition within_half :: "int set \<Rightarrow> bool" where
  "within_half S \<longleftrightarrow> (\<forall>m\<in>S. \<forall>n\<in>S. \<bar>m - n\<bar> < 32768)"

lemma track_run_reference:
  assumes "window_of t R" and "within_half (R \<union> set ns)"
  shows "\<exists>t'. track_run t ns = (t', reference_run R ns) \<and> window_of t' (R \<union> set (reference_run R ns))"
  using assms
proof (induction ns arbitrary: t R)
  case (Cons n ns)
  have half: "\<forall>m\<in>R. \<bar>m - n\<bar> < 32768"
    using Cons.prems(2) by (simp add: within_half_def)
  obtain t1 where t1: "track_reliable (seq_of n) t = (t1, window_fresh R n)"
    "window_of t1 (if window_fresh R n then insert n R else R)"
    using track_reliable_abstract [OF Cons.prems(1) half] by blast
  have "within_half ((if window_fresh R n then insert n R else R) \<union> set ns)"
    using Cons.prems(2) by (auto simp: within_half_def)
  then obtain t2 where "track_run t1 ns = (t2, reference_run (if window_fresh R n then insert n R else R) ns)"
    "window_of t2 ((if window_fresh R n then insert n R else R) \<union> set (reference_run (if window_fresh R n then insert n R else R) ns))"
    using Cons.IH [OF t1(2)] by blast
  then show ?case
    using t1(1) by (auto split: if_splits)
qed simp

lemma reference_run_once: "distinct (reference_run R ns) \<and> set (reference_run R ns) \<subseteq> set ns - R"
proof (induction ns arbitrary: R)
  case (Cons n ns)
  then show ?case
    using Cons.IH [of "insert n R"] Cons.IH [of R] by (auto simp: window_fresh_def)
qed simp

section \<open>Acknowledgements\<close>

text \<open>The sequence numbers an acknowledgement names.\<close>

definition ack_names :: "u16 \<Rightarrow> u32 \<Rightarrow> u16 set" where
  "ack_names ackSeq ackBits = insert ackSeq ((\<lambda>i. ackSeq - of_nat i - 1) ` {i. i < 32 \<and> bit ackBits i})"

lemma ack_names_window:
  assumes "window_of t R" and "R \<noteq> {}"
  shows "ack_names (ut_recvSeq t) (ut_recvBits t) = seq_of ` {n \<in> R. Max R - n \<le> 32}"
proof -
  have fin: "finite R" and st: "ut_recvSeq t = seq_of (Max R)"
    and bits: "\<And>i. i < 32 \<Longrightarrow> bit (ut_recvBits t) i \<longleftrightarrow> Max R - 1 - int i \<in> R"
    using assms by (simp_all add: window_of_def)
  have seq: "seq_of (Max R) - of_nat i - 1 = seq_of (Max R - 1 - int i)" for i
    by (simp add: algebra_simps)
  have mx: "Max R \<in> R"
    using fin assms(2) by simp
  have "n \<in> R \<and> Max R - n \<le> 32 \<longleftrightarrow> n = Max R \<or> (\<exists>i<32. n = Max R - 1 - int i \<and> Max R - 1 - int i \<in> R)" for n
  proof
    assume n: "n \<in> R \<and> Max R - n \<le> 32"
    then have "n \<le> Max R" using fin by simp
    then show "n = Max R \<or> (\<exists>i<32. n = Max R - 1 - int i \<and> Max R - 1 - int i \<in> R)"
      using n by (cases "n = Max R") (auto intro!: exI [where x="nat (Max R - 1 - n)"])
  qed (use mx in auto)
  then have "{n \<in> R. Max R - n \<le> 32} = insert (Max R) ((\<lambda>i. Max R - 1 - int i) ` {i. i < 32 \<and> bit (ut_recvBits t) i})"
    using bits by auto
  then show ?thesis
    unfolding ack_names_def st by (simp only: seq image_insert image_image)
qed

text \<open>
  C10. The receiving half of the reliable channel. On a fresh session, as long as the true numbers of
  the messages in flight stay within half the sequence space of one another, the 16-bit window makes
  the same decision for every arrival, in any order and with any repetition, as a receiver that
  remembers every message: a message is delivered exactly when it was not delivered before and is at
  most 32 behind every delivered one. So nothing is delivered twice, and the next acknowledgement
  names exactly the delivered messages at most 32 behind the newest.
\<close>

theorem reliable_channel_delivers_once:
  assumes "within_half (set ns)" and "ns \<noteq> []"
    and "track_run (newUDPTransport ap token c sv limits sess now) ns = (t', delivered)"
  shows "delivered = reference_run {} ns \<and> distinct delivered \<and> delivered \<noteq> [] \<and>
    ack_names (ut_recvSeq t') (ut_recvBits t') = seq_of ` {n \<in> set delivered. Max (set delivered) - n \<le> 32}"
proof -
  have "window_of (newUDPTransport ap token c sv limits sess now) {}"
    by (simp add: window_of_def newUDPTransport_def)
  from track_run_reference [OF this, of ns] assms
  have run: "delivered = reference_run {} ns" "window_of t' (set delivered)"
    by auto
  moreover have "delivered \<noteq> []"
    using assms(2) by (cases ns) (simp_all add: run window_fresh_def)
  ultimately show ?thesis
    using reference_run_once [of "{}" ns] ack_names_window [of t' "set delivered"] by simp
qed

theorem reliable_channel_delivers_once_witness:
  "snd (track_run (newUDPTransport (IPv4 1, 2) 3 4 5 DefaultWireLimits demo_session 0) [65530, 65540, 65532, 65540, 65600, 65533])
     = [65530, 65540, 65532, 65600]"
proof -
  have "within_half (set [65530, 65540, 65532, 65540, 65600, 65533])"
    by (simp add: within_half_def)
  from reliable_channel_delivers_once [OF this _ surjective_pairing]
  have "snd (track_run (newUDPTransport (IPv4 1, 2) 3 4 5 DefaultWireLimits demo_session 0) [65530, 65540, 65532, 65540, 65600, 65533])
     = reference_run {} [65530, 65540, 65532, 65540, 65600, 65533]"
    by simp
  then show ?thesis
    by (simp add: window_fresh_def)
qed

section \<open>The ring of unacknowledged messages\<close>

text \<open>
  \<open>ring_ok t N\<close>: \<open>N\<close> is the true number of the next message, every occupied slot holds one of the
  last 256 messages, in the slot its number selects.
\<close>

definition slot :: "int \<Rightarrow> nat" where
  "slot n = nat (n mod 256)"

definition ring_ok :: "UDPTransport \<Rightarrow> int \<Rightarrow> bool" where
  "ring_ok t N \<longleftrightarrow> length (ut_sendBuf t) = reliableBufSize \<and> ut_sendSeq t = seq_of N \<and>
     (\<forall>i<reliableBufSize. re_used (ut_sendBuf t ! i) \<longrightarrow>
        \<not> re_acked (ut_sendBuf t ! i) \<and>
        (\<exists>n. N - 256 \<le> n \<and> n < N \<and> slot n = i \<and> re_seq (ut_sendBuf t ! i) = seq_of n))"

definition outstanding :: "UDPTransport \<Rightarrow> int \<Rightarrow> int set" where
  "outstanding t N = {n. N - 256 \<le> n \<and> n < N \<and> re_used (ut_sendBuf t ! slot n) \<and> re_seq (ut_sendBuf t ! slot n) = seq_of n}"

lemma slot_less: "slot n < reliableBufSize"
  by (simp add: slot_def reliableBufSize_def nat_less_iff)

lemma slot_seq: "unat (seq_of n) mod reliableBufSize = slot n"
proof -
  have "uint (seq_of n) = n mod 65536"
    by (simp add: uint_word_of_int)
  then have "unat (seq_of n) = nat (n mod 65536)"
    by (simp only: unat_eq_nat_uint)
  moreover have "nat (n mod 65536) mod 256 = nat (n mod 65536 mod 256)"
    using nat_mod_distrib [of "n mod 65536" 256] by simp
  moreover have "n mod 65536 mod 256 = n mod 256"
    by (rule mod_mod_cancel) simp
  ultimately show ?thesis
    by (simp only: slot_def reliableBufSize_def)
qed

lemma slot_inj: "slot m = slot n \<Longrightarrow> \<bar>m - n\<bar> < 256 \<Longrightarrow> m = n"
proof -
  assume "slot m = slot n" and near: "\<bar>m - n\<bar> < 256"
  then have "m mod 256 = n mod 256"
    by (simp add: slot_def)
  then have "256 dvd (m - n)"
    by (simp add: mod_eq_dvd_iff)
  with near show ?thesis
    using dvd_imp_le_int [of "m - n" 256] by fastforce
qed

lemma seq_of_inj: "seq_of m = seq_of n \<Longrightarrow> \<bar>m - n\<bar> < 65536 \<Longrightarrow> m = n"
proof -
  assume "seq_of m = seq_of n" and near: "\<bar>m - n\<bar> < 65536"
  then have "m mod 65536 = n mod 65536"
    by (simp add: word_uint_eq_iff uint_word_of_int)
  then have "65536 dvd (m - n)"
    by (simp add: mod_eq_dvd_iff)
  with near show ?thesis
    using dvd_imp_le_int [of "m - n" 65536] by fastforce
qed

lemma ring_entry:
  assumes "ring_ok t N" and "re_used (ut_sendBuf t ! slot n)" and "N - 256 \<le> n" and "n < N"
  shows "re_seq (ut_sendBuf t ! slot n) = seq_of n \<and> n \<in> outstanding t N"
proof -
  obtain m where m: "N - 256 \<le> m" "m < N" "slot m = slot n" "re_seq (ut_sendBuf t ! slot n) = seq_of m"
    using assms slot_less unfolding ring_ok_def by metis
  then have "m = n"
    using assms by (intro slot_inj) auto
  then show ?thesis
    using m assms by (simp add: outstanding_def)
qed

lemma markAcked_ring:
  assumes "ring_ok t N"
  shows "ring_ok (markAcked s t) N \<and> outstanding (markAcked s t) N = {n \<in> outstanding t N. seq_of n \<noteq> s}"
proof (cases "re_used (ut_sendBuf t ! (unat s mod reliableBufSize)) \<and> re_seq (ut_sendBuf t ! (unat s mod reliableBufSize)) = s")
  case False
  then have "markAcked s t = t"
    by (auto simp: markAcked_def Let_def)
  moreover have "seq_of n \<noteq> s" if "n \<in> outstanding t N" for n
  proof
    assume hit: "seq_of n = s"
    then have "unat s mod reliableBufSize = slot n"
      using slot_seq [of n] by simp
    with hit that False show False
      by (simp add: outstanding_def)
  qed
  ultimately show ?thesis
    using assms by (simp add: Collect_mem_eq) blast
next
  case True
  define k where "k = unat s mod reliableBufSize"
  have k: "k < reliableBufSize" "k < length (ut_sendBuf t)"
    using assms by (simp_all add: k_def reliableBufSize_def ring_ok_def)
  have eq: "markAcked s t = t\<lparr>ut_sendBuf := (ut_sendBuf t)[k := no_entry]\<rparr>"
    using True by (simp add: markAcked_def Let_def k_def)
  have nth: "ut_sendBuf (markAcked s t) ! i = (if i = k then no_entry else ut_sendBuf t ! i)" for i
    using k by (simp add: eq nth_list_update)
  have unused: "\<not> re_used no_entry"
    by (simp add: no_entry_def)
  have "length (ut_sendBuf (markAcked s t)) = length (ut_sendBuf t)" "ut_sendSeq (markAcked s t) = ut_sendSeq t"
    by (simp_all add: eq)
  then have ring: "ring_ok (markAcked s t) N"
    using assms unused by (simp add: ring_ok_def nth)
  have hit: "slot n = k \<longleftrightarrow> seq_of n = s" if "n \<in> outstanding t N" for n
  proof
    assume "slot n = k"
    then have "re_seq (ut_sendBuf t ! slot n) = s"
      using True by (simp add: k_def)
    then show "seq_of n = s"
      using that by (simp add: outstanding_def)
  qed (use slot_seq [of n] in \<open>simp add: k_def\<close>)
  have "n \<in> outstanding (markAcked s t) N \<longleftrightarrow> n \<in> outstanding t N \<and> slot n \<noteq> k" for n
    using unused by (simp add: outstanding_def nth)
  with hit ring show ?thesis
    by blast
qed

lemma markAcked_fold_ring:
  assumes "ring_ok t N"
  shows "ring_ok (fold (\<lambda>i t. if P i then markAcked (g i) t else t) is t) N \<and>
    outstanding (fold (\<lambda>i t. if P i then markAcked (g i) t else t) is t) N =
      {n \<in> outstanding t N. seq_of n \<notin> g ` {i \<in> set is. P i}}"
  using assms
proof (induction "is" arbitrary: t)
  case (Cons i "is")
  have "ring_ok (if P i then markAcked (g i) t else t) N"
    using markAcked_ring [OF Cons.prems] Cons.prems by simp
  from Cons.IH [OF this] markAcked_ring [OF Cons.prems, of "g i"] show ?case
    by auto
qed simp

lemma openInbound_keeps: "openInbound L counter aad sealed now t = (t1, r) \<Longrightarrow>
  ut_sendBuf t1 = ut_sendBuf t \<and> ut_sendSeq t1 = ut_sendSeq t \<and> ut_limits t1 = ut_limits t \<and>
  ut_inbound t1 = ut_inbound t \<and> ut_opInbound t1 = ut_opInbound t \<and> ut_recvInit t1 = ut_recvInit t \<and>
  ut_recvSeq t1 = ut_recvSeq t \<and> ut_recvBits t1 = ut_recvBits t \<and> ut_lastRecvTick t1 = ut_lastRecvTick t \<and>
  ut_addr t1 = ut_addr t \<and> ut_token t1 = ut_token t \<and> ut_closed t1 = ut_closed t"
  by (auto simp: openInbound_def noteInboundDrop_def split: prod.splits sum.splits)

lemma handleACK_ring:
  assumes "ring_ok t N" and "openInbound L counter aad sealed now t = (t1, Some (EncodeACKBody ackSeq ackBits))"
  shows "ring_ok (handleACK L counter aad sealed now t) N \<and>
    outstanding (handleACK L counter aad sealed now t) N = {n \<in> outstanding t N. seq_of n \<notin> ack_names ackSeq ackBits}"
proof -
  define t2 where "t2 = t1\<lparr>ut_lastRecvTick := advanceUDPClock (ut_lastRecvTick t1) now\<rparr>"
  have same: "ring_ok t2 N" "outstanding t2 N = outstanding t N"
    using openInbound_keeps [OF assms(2)] assms(1) by (simp_all add: t2_def ring_ok_def outstanding_def)
  have bit: "ackBits AND push_bit i 1 \<noteq> 0 \<longleftrightarrow> bit ackBits i" for i
    by (simp add: and_single_bit)
  have eq: "handleACK L counter aad sealed now t =
    fold (\<lambda>i t. if bit ackBits i then markAcked (ackSeq - of_nat i - 1) t else t) [0..<32] (markAcked ackSeq t2)"
    using assms(2) by (simp only: handleACK_def t2_def ack_body_roundtrip prod.case option.case sum.case Let_def bit)
  have "{i \<in> set [0..<32]. bit ackBits i} = {i. i < 32 \<and> bit ackBits i}"
    by auto
  then show ?thesis
    using markAcked_ring [OF same(1), of ackSeq]
      markAcked_fold_ring [of "markAcked ackSeq t2" N "bit ackBits" "\<lambda>i. ackSeq - of_nat i - 1" "[0..<32]"]
    unfolding eq ack_names_def same(2) by auto
qed

text \<open>
  C11. An acknowledgement retires exactly what was received. Take a sender whose ring holds some of
  its last 256 messages and a receiver that accepted the set \<open>R\<close> of its messages, the newest at
  most 60000 behind the sender's next number. When the sender opens the acknowledgement of that
  receiver, the messages still outstanding are exactly the previous ones outside \<open>R\<close> or more than 32
  behind its newest: no message that was not received is ever retired, although sequence numbers
  and ring slots are reused.
\<close>

theorem ack_retires_exactly_the_received:
  assumes "ring_ok t N" and "window_of r R" and "R \<noteq> {}" and "\<forall>n\<in>R. n < N" and "N - Max R \<le> 60000"
    and "openInbound L counter aad sealed now t = (t1, Some (EncodeACKBody (ut_recvSeq r) (ut_recvBits r)))"
  shows "ring_ok (handleACK L counter aad sealed now t) N \<and>
    outstanding (handleACK L counter aad sealed now t) N = outstanding t N - {n \<in> R. Max R - n \<le> 32}"
proof -
  have fin: "finite R" using assms(2) by (simp add: window_of_def)
  then have mx: "Max R \<in> R" using assms(3) by simp
  have "seq_of n \<in> seq_of ` {n \<in> R. Max R - n \<le> 32} \<longleftrightarrow> n \<in> {n \<in> R. Max R - n \<le> 32}"
    if "n \<in> outstanding t N" for n
  proof
    assume "seq_of n \<in> seq_of ` {n \<in> R. Max R - n \<le> 32}"
    then obtain m where m: "m \<in> R" "Max R - m \<le> 32" "seq_of n = seq_of m"
      by auto
    have "\<bar>n - m\<bar> < 65536"
      using that m assms(4,5) by (auto simp: outstanding_def)
    with m seq_of_inj [of n m] show "n \<in> {n \<in> R. Max R - n \<le> 32}"
      by simp
  qed simp
  then show ?thesis
    using handleACK_ring [OF assms(1,6)] ack_names_window [OF assms(2,3)] by auto
qed

section \<open>Sending through the ring\<close>

lemma sendRaw_keeps: "sendRaw data now (t, so) = ((t', so'), r) \<Longrightarrow>
  ut_sendBuf t' = ut_sendBuf t \<and> ut_sendSeq t' = ut_sendSeq t \<and> ut_closed t' = ut_closed t"
  by (auto simp: sendRaw_def split: prod.splits write_outcome.splits if_splits)

lemma sealSend_keeps: "sealSend L body hdr now (t, so) = ((t', so'), r) \<Longrightarrow>
  ut_sendBuf t' = ut_sendBuf t \<and> ut_sendSeq t' = ut_sendSeq t \<and> ut_closed t' = ut_closed t"
  by (auto simp: sealSend_def dest!: sendRaw_keeps split: prod.splits sum.splits)

lemma ring_acked: "ring_ok t N \<Longrightarrow> re_used (ut_sendBuf t ! slot n) \<Longrightarrow> \<not> re_acked (ut_sendBuf t ! slot n)"
  using slot_less [of n] by (simp add: ring_ok_def)

text \<open>The ring after the slot of the next message, free before, was filled or left free.\<close>

lemma ring_advance:
  assumes "ring_ok t N" and "\<not> re_used (ut_sendBuf t ! slot N)"
    and "ut_sendBuf t' = (ut_sendBuf t)[slot N := e]" and "ut_sendSeq t' = seq_of (N + 1)"
  shows "(re_used e \<longrightarrow> \<not> re_acked e \<and> re_seq e = seq_of N) \<longrightarrow>
    ring_ok t' (N + 1) \<and> outstanding t' (N + 1) = outstanding t N \<union> (if re_used e then {N} else {})"
proof
  assume e: "re_used e \<longrightarrow> \<not> re_acked e \<and> re_seq e = seq_of N"
  have len: "length (ut_sendBuf t) = reliableBufSize"
    using assms(1) by (simp add: ring_ok_def)
  have nth: "ut_sendBuf t' ! i = (if i = slot N then e else ut_sendBuf t ! i)" if "i < reliableBufSize" for i
    using that by (simp add: assms(3) nth_list_update len)
  have fresh: "slot n \<noteq> slot N" if "N - 256 < n" "n < N" for n
    using slot_inj [of n N] that by auto
  have "slot (N - 256) = slot N"
    by (simp add: slot_def)
  then have later: "N - 256 < n" if "N - 256 \<le> n" "re_used (ut_sendBuf t ! slot n)" for n
    using that assms(2) by (cases "n = N - 256") auto
  have entry: "\<not> re_acked (ut_sendBuf t' ! i) \<and> (\<exists>n. N + 1 - 256 \<le> n \<and> n < N + 1 \<and> slot n = i \<and> re_seq (ut_sendBuf t' ! i) = seq_of n)"
    if i: "i < reliableBufSize" "re_used (ut_sendBuf t' ! i)" for i
  proof (cases "i = slot N")
    case True
    with i e show ?thesis
      by (auto simp: nth intro!: exI [where x=N])
  next
    case False
    then have used: "re_used (ut_sendBuf t ! i)"
      using i by (simp add: nth)
    then obtain n where n: "N - 256 \<le> n" "n < N" "slot n = i" "re_seq (ut_sendBuf t ! i) = seq_of n"
      and "\<not> re_acked (ut_sendBuf t ! i)"
      using assms(1) i(1) unfolding ring_ok_def by blast
    moreover have "N - 256 < n"
      using later [OF n(1)] used n(3) by simp
    ultimately show ?thesis
      using False i(1) by (auto simp: nth intro!: exI [where x=n])
  qed
  have ring: "ring_ok t' (N + 1)"
    unfolding ring_ok_def using entry assms(4) by (simp add: assms(3) len)
  have "n \<in> outstanding t' (N + 1) \<longleftrightarrow> n \<in> outstanding t N \<or> re_used e \<and> n = N" for n
  proof (cases "n = N")
    case True
    then show ?thesis
      using e by (auto simp: outstanding_def nth [OF slot_less])
  next
    case False
    then show ?thesis
      using fresh [of n] later [of n] by (auto simp: outstanding_def nth [OF slot_less])
  qed
  then show "ring_ok t' (N + 1) \<and> outstanding t' (N + 1) = outstanding t N \<union> (if re_used e then {N} else {})"
    using ring by auto
qed

text \<open>
  C12. Flow control of the reliable channel. On an open session whose ring holds some of the last 256
  messages, \<open>SendReliable\<close> refuses with backpressure, changing nothing, exactly when the message
  256 numbers earlier is still unacknowledged; otherwise it consumes the next number, and the message
  joins the outstanding ones exactly when the socket took the whole datagram. Every other outstanding
  message stays, so no unacknowledged message is ever overwritten.
\<close>

theorem send_window_is_exact:
  assumes "ring_ok t N" and "\<not> ut_closed t" and "SendReliable L data now (t, so) = ((t', so'), result)"
  shows "(N - 256 \<in> outstanding t N \<longrightarrow> t' = t \<and> so' = so \<and> result = refused SendBackpressure) \<and>
    (N - 256 \<notin> outstanding t N \<longrightarrow>
       ring_ok t' (N + 1) \<and>
       outstanding t' (N + 1) = outstanding t N \<union> (if Queued result then {N} else {}) \<and>
       (Queued result \<longrightarrow> re_payload (ut_sendBuf t' ! slot N) = data))"
proof -
  define e where "e = \<lparr>re_seq = seq_of N, re_payload = data, re_firstSentAt = now, re_lastSentAt = now,
    re_acked = False, re_used = True\<rparr>"
  have seq: "ut_sendSeq t = seq_of N" and len: "length (ut_sendBuf t) = reliableBufSize"
    using assms(1) by (simp_all add: ring_ok_def)
  have idx: "unat (ut_sendSeq t) mod reliableBufSize = slot N"
    by (simp add: seq slot_seq)
  have old: "slot (N - 256) = slot N"
    by (simp add: slot_def)
  have busy: "re_used (ut_sendBuf t ! slot N) \<and> \<not> re_acked (ut_sendBuf t ! slot N) \<longleftrightarrow> N - 256 \<in> outstanding t N"
    using ring_entry [OF assms(1), of "N - 256"] ring_acked [OF assms(1), of "N - 256"]
    by (auto simp: old outstanding_def)
  show ?thesis
  proof (cases "N - 256 \<in> outstanding t N")
    case True
    then show ?thesis
      using assms(2,3) busy by (simp add: SendReliable_def idx Let_def)
  next
    case False
    obtain t2 so2 where sent: "sealSend L data (\<lambda>ctr. EncodeReliableHeader (ut_token t) (seq_of N) ctr) now
        (t\<lparr>ut_sendSeq := seq_of N + 1, ut_sendBuf := (ut_sendBuf t)[slot N := e]\<rparr>, so) = ((t2, so2), result)"
      and t': "t' = (if Queued result then t2 else t2\<lparr>ut_sendBuf := (ut_sendBuf t2)[slot N := no_entry]\<rparr>)"
      using assms(2,3) False busy
      by (auto simp: SendReliable_def seq slot_seq Let_def e_def split: prod.splits if_splits)
    have buf: "ut_sendBuf t' = (ut_sendBuf t)[slot N := if Queued result then e else no_entry]"
      and nxt: "ut_sendSeq t' = seq_of (N + 1)"
      using sealSend_keeps [OF sent] t' by simp_all
    have free: "\<not> re_used (ut_sendBuf t ! slot N)"
      using False ring_entry [OF assms(1), of "N - 256"] by (auto simp: old)
    from ring_advance [OF assms(1) free buf nxt] show ?thesis
      using False by (simp add: e_def no_entry_def buf len slot_less)
  qed
qed

definition demo_transport :: UDPTransport where
  "demo_transport = newUDPTransport (IPv4 1, 2) 3 4 5 DefaultWireLimits demo_session 0"

definition demo_socket :: udp_socket where
  "demo_socket = \<lparr>so_attempts = 0, so_outcome = (\<lambda>_ data. Wrote (length data)), so_sent = []\<rparr>"

lemma demo_transport_ring: "ring_ok demo_transport 0"
  by (simp add: ring_ok_def demo_transport_def newUDPTransport_def no_entry_def)

lemma demo_transport_window: "window_of demo_transport {}"
  by (simp add: window_of_def demo_transport_def newUDPTransport_def)

theorem send_window_is_exact_witness:
  "ring_ok (fst (fst (SendReliable demo_lib [0, 9] 5 (demo_transport, demo_socket)))) 1 \<and>
   outstanding (fst (fst (SendReliable demo_lib [0, 9] 5 (demo_transport, demo_socket)))) 1 = {0}"
proof -
  have none: "outstanding demo_transport 0 = {}"
    by (auto simp: outstanding_def demo_transport_def newUDPTransport_def no_entry_def slot_less)
  have q: "Queued (snd (SendReliable demo_lib [0, 9] 5 (demo_transport, demo_socket)))"
    by code_simp
  have "\<not> ut_closed demo_transport"
    by (simp add: demo_transport_def newUDPTransport_def)
  from send_window_is_exact [OF demo_transport_ring this, of demo_lib "[0, 9]" 5 demo_socket
      "fst (fst (SendReliable demo_lib [0, 9] 5 (demo_transport, demo_socket)))"
      "snd (fst (SendReliable demo_lib [0, 9] 5 (demo_transport, demo_socket)))"
      "snd (SendReliable demo_lib [0, 9] 5 (demo_transport, demo_socket))"]
  show ?thesis
    using none q by simp
qed

text \<open>A session with one message in flight, and the acknowledgement of a peer that received it.\<close>

definition demo_sender :: UDPTransport where
  "demo_sender = demo_transport\<lparr>ut_sendSeq := 1, ut_sendBuf := (ut_sendBuf demo_transport)[0 :=
     \<lparr>re_seq = 0, re_payload = [0, 9], re_firstSentAt = 5, re_lastSentAt = 5, re_acked = False, re_used = True\<rparr>]\<rparr>"

lemma demo_sender_ring: "ring_ok demo_sender 1 \<and> outstanding demo_sender 1 = {0}"
proof -
  have free: "\<not> re_used (ut_sendBuf demo_transport ! slot 0)"
    by (simp add: demo_transport_def newUDPTransport_def no_entry_def slot_less)
  have "outstanding demo_transport 0 = {}"
    by (auto simp: outstanding_def demo_transport_def newUDPTransport_def no_entry_def slot_less)
  with ring_advance [OF demo_transport_ring free, of demo_sender] show ?thesis
    by (simp add: demo_sender_def slot_def)
qed

theorem ack_retires_exactly_the_received_witness:
  "outstanding demo_sender 1 = {0} \<and>
   outstanding (handleACK demo_lib 1 [] (EncodeACKBody 0 0 @ demo_tag [1]) 7 demo_sender) 1 = {}"
proof -
  define r where "r = fst (track_reliable 0 demo_transport)"
  have r: "window_of r {0}" "ut_recvSeq r = 0" "ut_recvBits r = 0"
    using track_first [OF demo_transport_window, of 0]
    by (auto simp: r_def track_reliable_def demo_transport_def newUDPTransport_def)
  have "snd (openInbound demo_lib 1 [] (EncodeACKBody 0 0 @ demo_tag [1]) 7 demo_sender) = Some (EncodeACKBody 0 0)"
    by code_simp
  then have "openInbound demo_lib 1 [] (EncodeACKBody 0 0 @ demo_tag [1]) 7 demo_sender =
     (fst (openInbound demo_lib 1 [] (EncodeACKBody 0 0 @ demo_tag [1]) 7 demo_sender),
      Some (EncodeACKBody (ut_recvSeq r) (ut_recvBits r)))"
    using r by (metis prod.collapse)
  from ack_retires_exactly_the_received [OF _ r(1) _ _ _ this, of 1] show ?thesis
    using demo_sender_ring by simp
qed

section \<open>The two windows do not match\<close>

lemma reference_run_behind:
  "\<exists>m\<in>R. 32 < m - n \<Longrightarrow> n \<notin> set (reference_run R ns)"
proof (induction ns arbitrary: R)
  case (Cons k ns)
  have "\<not> window_fresh R n"
    using Cons.prems unfolding window_fresh_def by force
  moreover have "n \<notin> set (reference_run (insert k R) ns)" "n \<notin> set (reference_run R ns)"
    using Cons.IH [of "insert k R"] Cons.IH [of R] Cons.prems by auto
  ultimately show ?case
    by auto
qed simp

lemma retransmit_expires:
  assumes "i \<in> set is" and "re_used (ut_sendBuf t ! i)" and "\<not> re_acked (ut_sendBuf t ! i)"
    and "now - re_firstSentAt (ut_sendBuf t ! i) > reliableTimeout"
  shows "\<not> snd (retransmit_from L now clock is (t, so))"
  using assms
proof (induction "is" arbitrary: t so)
  case (Cons j "is")
  show ?case
  proof (cases "i = j")
    case True
    then show ?thesis
      using Cons.prems by (simp add: Let_def)
  next
    case False
    then have i: "i \<in> set is"
      using Cons.prems(1) by simp
    have later: "\<not> snd (retransmit_from L now clock is
          (t1\<lparr>ut_sendBuf := (ut_sendBuf t1)[j := e]\<rparr>, so1))"
      if "ut_sendBuf t1 = ut_sendBuf t" for t1 so1 e
      by (rule Cons.IH [OF i]) (use Cons.prems False that in simp_all)
    obtain t1 so1 res where s: "sealSend L (re_payload (ut_sendBuf t ! j))
        (\<lambda>ctr. EncodeReliableHeader (ut_token t) (re_seq (ut_sendBuf t ! j)) ctr) clock (t, so) = ((t1, so1), res)"
      by (metis surj_pair)
    then have "ut_sendBuf t1 = ut_sendBuf t"
      using sealSend_keeps by blast
    then show ?thesis
      using later [of t1] Cons.IH [OF i Cons.prems(2-4), of so] s by (simp add: Let_def)
  qed
qed simp

text \<open>
  C13. The sender keeps 256 messages in flight but the receiver remembers only 32. A message that was
  lost while one more than 32 ahead of it arrived is never delivered by any later arrivals, its own
  retransmissions included; no acknowledgement of that receiver names it, so it stays outstanding;
  and the maintenance pass after its five seconds tells the server to remove the session.
\<close>

theorem message_behind_the_window_ends_the_session:
  assumes "window_of r R" and "n \<notin> R" and "m \<in> R" and "32 < m - n" and "within_half (insert n R \<union> set ns)"
    and "track_run r ns = (r', delivered)"
    and "ring_ok t N" and "n \<in> outstanding t N"
    and "now - re_firstSentAt (ut_sendBuf t ! slot n) > reliableTimeout"
  shows "n \<notin> set delivered \<and>
    seq_of n \<notin> ack_names (ut_recvSeq r') (ut_recvBits r') \<and>
    (openInbound L counter aad sealed clock t = (t1, Some (EncodeACKBody (ut_recvSeq r') (ut_recvBits r'))) \<longrightarrow>
       n \<in> outstanding (handleACK L counter aad sealed clock t) N) \<and>
    \<not> snd (maintenance_pass L now clock (t, so))"
proof -
  have "within_half (R \<union> set ns)"
    using assms(5) by (simp add: within_half_def)
  from track_run_reference [OF assms(1) this] assms(6)
  have run: "delivered = reference_run R ns" and win: "window_of r' (R \<union> set delivered)"
    by auto
  have undelivered: "n \<notin> set delivered"
    using reference_run_behind [of R n ns] assms(3,4) run by blast
  have "seq_of n \<noteq> seq_of k" if "k \<in> R \<union> set delivered" for k
  proof
    assume "seq_of n = seq_of k"
    moreover have "k \<in> insert n R \<union> set ns"
      using that reference_run_once [of R ns] run by auto
    then have "\<bar>n - k\<bar> < 65536"
      using assms(5) unfolding within_half_def by force
    ultimately have "n = k"
      by (rule seq_of_inj)
    then show False
      using that undelivered assms(2) by simp
  qed
  moreover have "R \<union> set delivered \<noteq> {}"
    using assms(3) by auto
  ultimately have unnamed: "seq_of n \<notin> ack_names (ut_recvSeq r') (ut_recvBits r')"
    using ack_names_window [OF win] by auto
  have "re_used (ut_sendBuf t ! slot n)"
    using assms(8) by (simp add: outstanding_def)
  with retransmit_expires [of "slot n" "[0..<reliableBufSize]" t now L clock so] ring_acked [OF assms(7), of n]
  have "\<not> snd (retransmit_from L now clock [0..<reliableBufSize] (t, so))"
    using assms(9) slot_less [of n] by simp
  then have "\<not> snd (maintenance_pass L now clock (t, so))"
    by (auto simp: maintenance_pass_def split: prod.splits bool.splits)
  with undelivered unnamed show ?thesis
    using handleACK_ring [OF assms(7)] assms(8) by auto
qed

theorem message_behind_the_window_ends_the_session_witness:
  "snd (track_run (fst (track_run demo_transport [33])) [0, 0, 0]) = [] \<and>
   \<not> snd (maintenance_pass demo_lib 5000000006 5000000006 (demo_sender, demo_socket))"
proof -
  obtain r where r: "track_run demo_transport [33] = (r, [33])" "window_of r {33}"
    using track_run_reference [OF demo_transport_window, of "[33]"] by (auto simp: within_half_def window_fresh_def)
  have half: "within_half (insert 0 {33} \<union> set [0, 0, 0])"
    by (simp add: within_half_def)
  have seen: "re_firstSentAt (ut_sendBuf demo_sender ! slot 0) = 5"
    by (simp add: demo_sender_def demo_transport_def newUDPTransport_def slot_def reliableBufSize_def)
  have out: "0 \<notin> set (snd (track_run r [0, 0, 0])) \<and>
    \<not> snd (maintenance_pass demo_lib 5000000006 5000000006 (demo_sender, demo_socket))"
    using message_behind_the_window_ends_the_session [OF r(2) _ _ _ half surjective_pairing, of 33 demo_sender 1 5000000006]
      demo_sender_ring by (simp add: seen reliableTimeout_def)
  then have "0 \<notin> set (snd (track_run r [0, 0, 0]))"
    by (rule conjunct1)
  moreover have "set (snd (track_run r [0, 0, 0])) \<subseteq> {0}"
    by (auto split: prod.splits if_splits)
  ultimately have "snd (track_run r [0, 0, 0]) = []"
    by (metis set_empty subset_singletonD insertI1)
  with out show ?thesis
    by (simp only: r(1) fst_conv simp_thms)
qed

section \<open>The inbound queues\<close>

text \<open>Everything that touches the inbound queues of a session, as steps.\<close>

datatype udp_event =
    UnreliableArrives u64 octets octets int
  | ReliableArrives u16 u64 octets octets int
  | AckArrives u64 octets octets int
  | InjectUdp octets int
  | DrainUdpEvents
  | DrainUdpOps

fun udp_step :: "crypto_lib \<Rightarrow> udp_event \<Rightarrow> UDPTransport \<Rightarrow> UDPTransport" where
  "udp_step L (UnreliableArrives counter aad sealed now) t = handleUnreliable L counter aad sealed now t"
| "udp_step L (ReliableArrives seq counter aad sealed now) t = handleReliable L seq counter aad sealed now t"
| "udp_step L (AckArrives counter aad sealed now) t = handleACK L counter aad sealed now t"
| "udp_step L (InjectUdp data now) t = udp_InjectInput data now t"
| "udp_step L DrainUdpEvents t = fst (udp_DrainInput t)"
| "udp_step L DrainUdpOps t = fst (udp_DrainOpInput t)"

definition udp_good :: "UDPTransport \<Rightarrow> bool" where
  "udp_good t \<longleftrightarrow> limits_ok (ut_limits t)"

fun udp_events_taken :: "udp_event \<Rightarrow> UDPTransport \<Rightarrow> octets list" where
  "udp_events_taken DrainUdpEvents t = (case snd (udp_DrainInput t) of None \<Rightarrow> [] | Some msgs \<Rightarrow> msgs)"
| "udp_events_taken _ t = []"

fun udp_ops_taken :: "udp_event \<Rightarrow> UDPTransport \<Rightarrow> octets list" where
  "udp_ops_taken DrainUdpOps t = (case snd (udp_DrainOpInput t) of None \<Rightarrow> [] | Some msgs \<Rightarrow> msgs)"
| "udp_ops_taken _ t = []"

text \<open>The payload an arrival hands to the queues, when it authenticates and is to be delivered.\<close>

fun udp_payload :: "crypto_lib \<Rightarrow> udp_event \<Rightarrow> UDPTransport \<Rightarrow> octets option" where
  "udp_payload L (UnreliableArrives counter aad sealed now) t = snd (openInbound L counter aad sealed now t)"
| "udp_payload L (ReliableArrives seq counter aad sealed now) t =
     (if snd (track_reliable seq t) then snd (openInbound L counter aad sealed now t) else None)"
| "udp_payload L _ t = None"

fun udp_events_added :: "crypto_lib \<Rightarrow> udp_event \<Rightarrow> UDPTransport \<Rightarrow> octets list" where
  "udp_events_added L (InjectUdp data now) t = when_room (ut_inbound t) (MaxInputQueueDepth (ut_limits t)) [data]"
| "udp_events_added L e t = when_room (ut_inbound t) (MaxInputQueueDepth (ut_limits t))
     (case udp_payload L e t of
        Some (ch # body) \<Rightarrow> if ch = ChannelEvent \<and> int (Suc (length body)) \<le> MaxFrameBytes (ut_limits t) then [body] else []
      | _ \<Rightarrow> [])"

definition udp_ops_added :: "crypto_lib \<Rightarrow> udp_event \<Rightarrow> UDPTransport \<Rightarrow> octets list" where
  "udp_ops_added L e t = when_room (ut_opInbound t) (MaxOpQueueDepth (ut_limits t))
     (case udp_payload L e t of
        Some (ch # body) \<Rightarrow> if ch = ChannelOperation \<and> int (Suc (length body)) \<le> MaxFrameBytes (ut_limits t) then [body] else []
      | _ \<Rightarrow> [])"

lemma routePayload_queues:
  assumes "limits_ok (ut_limits t)"
  shows "ut_limits (routePayload (ch # body) now t) = ut_limits t \<and>
    ut_inbound (routePayload (ch # body) now t) = ut_inbound t @ when_room (ut_inbound t) (MaxInputQueueDepth (ut_limits t))
      (if ch = ChannelEvent \<and> int (Suc (length body)) \<le> MaxFrameBytes (ut_limits t) then [body] else []) \<and>
    ut_opInbound (routePayload (ch # body) now t) = ut_opInbound t @ when_room (ut_opInbound t) (MaxOpQueueDepth (ut_limits t))
      (if ch = ChannelOperation \<and> int (Suc (length body)) \<le> MaxFrameBytes (ut_limits t) then [body] else [])"
  using assms
  by (auto simp: routePayload_def Let_def udp_lim_def appendInbound_def noteInboundDrop_def when_room_def
      ChannelEvent_def ChannelOperation_def)

lemma markAcked_queues [simp]:
  "ut_inbound (markAcked s t) = ut_inbound t" "ut_opInbound (markAcked s t) = ut_opInbound t"
  "ut_limits (markAcked s t) = ut_limits t"
  by (simp_all add: markAcked_def Let_def)

lemma markAcked_fold_queues:
  "ut_inbound (fold (\<lambda>i t. if P i then markAcked (g i) t else t) is t) = ut_inbound t \<and>
   ut_opInbound (fold (\<lambda>i t. if P i then markAcked (g i) t else t) is t) = ut_opInbound t \<and>
   ut_limits (fold (\<lambda>i t. if P i then markAcked (g i) t else t) is t) = ut_limits t"
  by (induction "is" arbitrary: t) simp_all

lemma handleACK_queues:
  "ut_inbound (handleACK L counter aad sealed now t) = ut_inbound t \<and>
   ut_opInbound (handleACK L counter aad sealed now t) = ut_opInbound t \<and>
   ut_limits (handleACK L counter aad sealed now t) = ut_limits t"
proof -
  obtain t1 r where o: "openInbound L counter aad sealed now t = (t1, r)"
    by (cases "openInbound L counter aad sealed now t")
  show ?thesis
    using openInbound_keeps [OF o] unfolding handleACK_def o
    by (cases r) (auto simp: Let_def markAcked_fold_queues split: sum.splits)
qed

lemma track_queues: "track_reliable seq t = (t', b) \<Longrightarrow>
  ut_inbound t' = ut_inbound t \<and> ut_opInbound t' = ut_opInbound t \<and> ut_limits t' = ut_limits t"
  by (auto simp: track_reliable_def Let_def split: if_splits)

lemma track_decision: "ut_recvInit t' = ut_recvInit t \<Longrightarrow> ut_recvSeq t' = ut_recvSeq t \<Longrightarrow>
  ut_recvBits t' = ut_recvBits t \<Longrightarrow> snd (track_reliable seq t') = snd (track_reliable seq t)"
  by (simp add: track_reliable_def Let_def)

lemma handleUnreliable_queues:
  assumes "limits_ok (ut_limits t)" and "openInbound L counter aad sealed now t = (t1, r)"
  shows "ut_limits (handleUnreliable L counter aad sealed now t) = ut_limits t \<and>
    ut_inbound (handleUnreliable L counter aad sealed now t) = ut_inbound t @ when_room (ut_inbound t) (MaxInputQueueDepth (ut_limits t))
      (case r of Some (ch # body) \<Rightarrow> if ch = ChannelEvent \<and> int (Suc (length body)) \<le> MaxFrameBytes (ut_limits t) then [body] else [] | _ \<Rightarrow> []) \<and>
    ut_opInbound (handleUnreliable L counter aad sealed now t) = ut_opInbound t @ when_room (ut_opInbound t) (MaxOpQueueDepth (ut_limits t))
      (case r of Some (ch # body) \<Rightarrow> if ch = ChannelOperation \<and> int (Suc (length body)) \<le> MaxFrameBytes (ut_limits t) then [body] else [] | _ \<Rightarrow> [])"
proof (cases r)
  case None
  then show ?thesis
    using openInbound_keeps [OF assms(2)] by (simp add: handleUnreliable_def assms(2) when_room_def)
next
  case (Some payload)
  define t2 where "t2 = t1\<lparr>ut_lastRecvTick := advanceUDPClock (ut_lastRecvTick t1) now,
    ut_bytesRecv := ut_bytesRecv t1 + of_nat (length payload)\<rparr>"
  have same: "ut_limits t2 = ut_limits t" "ut_inbound t2 = ut_inbound t" "ut_opInbound t2 = ut_opInbound t"
    using openInbound_keeps [OF assms(2)] by (simp_all add: t2_def)
  have eq: "handleUnreliable L counter aad sealed now t = (if payload = [] then t2 else routePayload payload now t2)"
    by (simp add: handleUnreliable_def assms(2) Some t2_def)
  show ?thesis
    unfolding eq Some using routePayload_queues [of t2 _ _ now] assms(1) same
    by (cases payload) (simp_all add: when_room_def)
qed

lemma handleReliable_queues:
  assumes "limits_ok (ut_limits t)" and "openInbound L counter aad sealed now t = (t1, r)"
    and "p = (if snd (track_reliable seq t) then r else None)"
  shows "ut_limits (handleReliable L seq counter aad sealed now t) = ut_limits t \<and>
    ut_inbound (handleReliable L seq counter aad sealed now t) = ut_inbound t @ when_room (ut_inbound t) (MaxInputQueueDepth (ut_limits t))
      (case p of Some (ch # body) \<Rightarrow> if ch = ChannelEvent \<and> int (Suc (length body)) \<le> MaxFrameBytes (ut_limits t) then [body] else [] | _ \<Rightarrow> []) \<and>
    ut_opInbound (handleReliable L seq counter aad sealed now t) = ut_opInbound t @ when_room (ut_opInbound t) (MaxOpQueueDepth (ut_limits t))
      (case p of Some (ch # body) \<Rightarrow> if ch = ChannelOperation \<and> int (Suc (length body)) \<le> MaxFrameBytes (ut_limits t) then [body] else [] | _ \<Rightarrow> [])"
proof (cases r)
  case None
  then show ?thesis
    using openInbound_keeps [OF assms(2)] by (simp add: handleReliable_def assms(2,3) when_room_def)
next
  case (Some payload)
  define t2 where "t2 = t1\<lparr>ut_lastRecvTick := advanceUDPClock (ut_lastRecvTick t1) now,
    ut_bytesRecv := ut_bytesRecv t1 + of_nat (length payload)\<rparr>"
  obtain t3 d where tr: "track_reliable seq t2 = (t3, d)"
    by (cases "track_reliable seq t2")
  define t4 where "t4 = t3\<lparr>ut_ackDirty := True\<rparr>"
  have same: "ut_limits t4 = ut_limits t" "ut_inbound t4 = ut_inbound t" "ut_opInbound t4 = ut_opInbound t"
    using openInbound_keeps [OF assms(2)] track_queues [OF tr] by (simp_all add: t2_def t4_def)
  have d: "snd (track_reliable seq t) = d"
  proof -
    have "snd (track_reliable seq t2) = snd (track_reliable seq t)"
      using openInbound_keeps [OF assms(2)] by (intro track_decision) (simp_all add: t2_def)
    then show ?thesis by (simp add: tr)
  qed
  have eq: "handleReliable L seq counter aad sealed now t = (if d \<and> payload \<noteq> [] then routePayload payload now t4 else t4)"
    using tr by (simp add: handleReliable_def assms(2) Some t2_def t4_def Let_def)
  show ?thesis
    unfolding eq Some assms(3) d using routePayload_queues [of t4 _ _ now] assms(1) same
    by (cases payload) (simp_all add: when_room_def)
qed

lemma udp_step_queues:
  assumes "udp_good t"
  shows "ut_limits (udp_step L e t) = ut_limits t \<and>
    udp_events_taken e t @ ut_inbound (udp_step L e t) = ut_inbound t @ udp_events_added L e t \<and>
    udp_ops_taken e t @ ut_opInbound (udp_step L e t) = ut_opInbound t @ udp_ops_added L e t"
proof (cases e)
  case (UnreliableArrives counter aad sealed now)
  then show ?thesis
    using assms handleUnreliable_queues [of t L counter aad sealed now, OF _ surjective_pairing]
    by (simp add: udp_good_def udp_ops_added_def)
next
  case (ReliableArrives seq counter aad sealed now)
  then show ?thesis
    using assms handleReliable_queues [of t L counter aad sealed now, OF _ surjective_pairing refl, of seq]
    by (simp add: udp_good_def udp_ops_added_def)
next
  case (AckArrives counter aad sealed now)
  then show ?thesis
    using handleACK_queues [of L counter aad sealed now t] by (simp add: udp_ops_added_def when_room_def)
next
  case (InjectUdp data now)
  then show ?thesis
    using assms by (simp add: udp_good_def udp_InjectInput_def udp_lim_def noteInboundDrop_def udp_ops_added_def when_room_def)
next
  case DrainUdpEvents
  then show ?thesis
    using assms by (auto simp: udp_good_def udp_DrainInput_def udp_lim_def udp_ops_added_def when_room_def
        splitDrain_take_drop limits_ok_pos)
next
  case DrainUdpOps
  then show ?thesis
    using assms by (auto simp: udp_good_def udp_DrainOpInput_def udp_lim_def udp_ops_added_def when_room_def
        splitDrain_take_drop limits_ok_pos)
qed

lemma when_room_single: "length xs \<le> 1 \<Longrightarrow> length (when_room q d xs) \<le> 1 \<and> (when_room q d xs \<noteq> [] \<longrightarrow> int (length q) < d)"
  by (simp add: when_room_def)

lemma udp_added_single:
  "length (udp_events_added L e t) \<le> 1 \<and> (udp_events_added L e t \<noteq> [] \<longrightarrow> int (length (ut_inbound t)) < MaxInputQueueDepth (ut_limits t))"
  "length (udp_ops_added L e t) \<le> 1 \<and> (udp_ops_added L e t \<noteq> [] \<longrightarrow> int (length (ut_opInbound t)) < MaxOpQueueDepth (ut_limits t))"
  unfolding udp_ops_added_def
  by (cases e; simp only: udp_events_added.simps; rule when_room_single; simp split: option.splits list.splits)
     (rule when_room_single, simp split: option.splits list.splits)

interpretation udp_event_queue: bounded_fifo udp_good ut_inbound "\<lambda>t. MaxInputQueueDepth (ut_limits t)"
  "udp_step L" udp_events_taken "udp_events_added L" for L
  by unfold_locales (use udp_step_queues [of _ L] udp_added_single(1) [of L] in \<open>auto simp: udp_good_def\<close>)

interpretation udp_op_queue: bounded_fifo udp_good ut_opInbound "\<lambda>t. MaxOpQueueDepth (ut_limits t)"
  "udp_step L" udp_ops_taken "udp_ops_added L" for L
  by unfold_locales (use udp_step_queues [of _ L] udp_added_single(2) [of L] in \<open>auto simp: udp_good_def\<close>)

lemma udp_queues_bounded:
  "int (length (ut_inbound (fold (udp_step L) es (newUDPTransport ap token c sv limits sess now)))) \<le> MaxInputQueueDepth (Normalized limits)"
  "int (length (ut_opInbound (fold (udp_step L) es (newUDPTransport ap token c sv limits sess now)))) \<le> MaxOpQueueDepth (Normalized limits)"
  using udp_event_queue.run_depth [of "newUDPTransport ap token c sv limits sess now" L es]
    udp_op_queue.run_depth [of "newUDPTransport ap token c sv limits sess now" L es]
    limits_ok_pos [OF limits_ok_Normalized, of limits]
  by (simp_all add: newUDPTransport_def udp_good_def)

end
