(* ===== verification/UdpServer.thy ===== *)
theory UdpServer
  imports UdpTransport
begin

text \<open>
  The UDP listener and the connection manager behind it (\<open>pkg/net/udp_server.go\<close>,
  \<open>pkg/net/server.go\<close>, \<open>pkg/net/ws.go\<close>): the handshake, the routing of packets to sessions,
  their removal, and the table of connections of any transport.

  Transports are heap objects: a pointer into the store of UDP sessions or of WebSocket
  connections. \<open>net\<close> is the state of the package; \<open>now\<close> is the monotonic stamp and \<open>wall\<close>
  the wall clock of one operation. A send on the manager's event channel appends to it (the
  sender waits while it is full); the goroutine that announces an identity is recorded in
  \<open>us_announced\<close>. Random salts and the textual form of an address are arguments.
\<close>

section \<open>State\<close>

datatype transport = WS nat | UDP nat

record PlayerEvent =
  pe_ConnID :: u32
  pe_Connected :: bool
  pe_Disconnect :: bool

record net =
  n_ws :: "nat \<Rightarrow> Conn"
  n_udp :: "nat \<Rightarrow> UDPTransport"
  n_nextWS :: nat
  n_nextUDP :: nat
  n_socket :: udp_socket
  us_byToken :: "(u32 \<times> nat) list"
  us_byAddr :: "(addr_port \<times> nat) list"
  us_connIDs :: "(nat \<times> u32) list"
  us_cookies :: cookie_signer
  us_keys :: "UDPKeyRegistry option"
  us_onAuthenticated :: bool
  us_announced :: "(u32 \<times> string \<times> string) list"
  us_maxConnections :: int
  us_limits :: WireLimits
  us_sourceMismatchDrops :: u64
  us_capacityDrops :: u64
  us_handshakeRejectDrops :: u64
  us_lastDropLogStamp :: int
  cm_conns :: "(u32 \<times> transport) list"
  cm_remoteAddrs :: "(u32 \<times> string) list"
  cm_nextID :: u32
  cm_events :: "PlayerEvent list"
  cm_limits :: WireLimits

section \<open>The connection manager\<close>

definition cm_SetWireLimits :: "WireLimits \<Rightarrow> net \<Rightarrow> net" where
  "cm_SetWireLimits l n = n\<lparr>cm_limits := Normalized l\<rparr>"

definition cm_WireLimits :: "net \<Rightarrow> WireLimits" where
  "cm_WireLimits n = Normalized (cm_limits n)"

definition cm_Get :: "u32 \<Rightarrow> net \<Rightarrow> transport option" where
  "cm_Get cid n = map_of (cm_conns n) cid"

definition registerTransport :: "u32 \<Rightarrow> transport \<Rightarrow> string \<Rightarrow> net \<Rightarrow> net" where
  "registerTransport connID t remoteAddr n =
     (let n1 = n\<lparr>cm_conns := AList.update connID t (cm_conns n)\<rparr>;
          n2 = (if remoteAddr \<noteq> '''' then n1\<lparr>cm_remoteAddrs := AList.update connID remoteAddr (cm_remoteAddrs n1)\<rparr> else n1)
      in n2\<lparr>cm_events := cm_events n2 @ [\<lparr>pe_ConnID = connID, pe_Connected = True, pe_Disconnect = False\<rparr>]\<rparr>)"

definition AddTransport :: "transport \<Rightarrow> string \<Rightarrow> net \<Rightarrow> net \<times> u32" where
  "AddTransport t remoteAddr n =
     (let connID = cm_nextID n + 1
      in (registerTransport connID t remoteAddr (n\<lparr>cm_nextID := connID\<rparr>), connID))"

definition Unregister :: "u32 \<Rightarrow> net \<Rightarrow> net" where
  "Unregister cid n =
     n\<lparr>cm_conns := AList.delete cid (cm_conns n), cm_remoteAddrs := AList.delete cid (cm_remoteAddrs n),
       cm_events := cm_events n @ [\<lparr>pe_ConnID = cid, pe_Connected = False, pe_Disconnect = True\<rparr>]\<rparr>"

definition ConnectionCount :: "net \<Rightarrow> nat" where
  "ConnectionCount n = length (cm_conns n)"

definition ActiveConnIDs :: "net \<Rightarrow> u32 list" where
  "ActiveConnIDs n = map fst (cm_conns n)"

definition RemoteAddrString :: "u32 \<Rightarrow> net \<Rightarrow> string" where
  "RemoteAddrString cid n = (case map_of (cm_remoteAddrs n) cid of None \<Rightarrow> '''' | Some a \<Rightarrow> a)"

fun transport_BytesSent :: "net \<Rightarrow> transport \<Rightarrow> u64" where
  "transport_BytesSent n (WS p) = cn_bytesSent (n_ws n p)"
| "transport_BytesSent n (UDP p) = ut_bytesSent (n_udp n p)"

fun transport_BytesRecv :: "net \<Rightarrow> transport \<Rightarrow> u64" where
  "transport_BytesRecv n (WS p) = cn_bytesRecv (n_ws n p)"
| "transport_BytesRecv n (UDP p) = ut_bytesRecv (n_udp n p)"

definition TotalBytesSent :: "net \<Rightarrow> u64" where
  "TotalBytesSent n = sum_list (map (\<lambda>(cid, t). transport_BytesSent n t) (cm_conns n))"

definition TotalBytesRecv :: "net \<Rightarrow> u64" where
  "TotalBytesRecv n = sum_list (map (\<lambda>(cid, t). transport_BytesRecv n t) (cm_conns n))"

fun transport_DeliveryClass :: "transport \<Rightarrow> DeliveryClass" where
  "transport_DeliveryClass (WS p) = DeliveryReliableOrdered"
| "transport_DeliveryClass (UDP p) = DeliveryBestEffort"

definition DeliveryClassFor :: "u32 \<Rightarrow> net \<Rightarrow> DeliveryClass" where
  "DeliveryClassFor cid n =
     (case map_of (cm_conns n) cid of None \<Rightarrow> DeliveryReliableOrdered | Some t \<Rightarrow> transport_DeliveryClass t)"

definition put_udp :: "nat \<Rightarrow> UDPTransport \<times> udp_socket \<Rightarrow> net \<Rightarrow> net" where
  "put_udp p ts n = n\<lparr>n_udp := (n_udp n)(p := fst ts), n_socket := snd ts\<rparr>"

definition upd_udp :: "nat \<Rightarrow> (UDPTransport \<Rightarrow> UDPTransport) \<Rightarrow> net \<Rightarrow> net" where
  "upd_udp p f n = n\<lparr>n_udp := (n_udp n)(p := f (n_udp n p))\<rparr>"

definition cm_Send :: "crypto_lib \<Rightarrow> u32 \<Rightarrow> octets \<Rightarrow> int \<Rightarrow> net \<Rightarrow> net \<times> SendResult" where
  "cm_Send L connID data now n =
     (case map_of (cm_conns n) connID of
        None \<Rightarrow> (n, refused SendNoRoute)
      | Some (WS p) \<Rightarrow> (case Conn_Send data now (n_ws n p) of (c, r) \<Rightarrow> (n\<lparr>n_ws := (n_ws n)(p := c)\<rparr>, r))
      | Some (UDP p) \<Rightarrow> (case SendUnreliable L data now (n_udp n p, n_socket n) of (ts, r) \<Rightarrow> (put_udp p ts n, r)))"

definition cm_SendReliable :: "crypto_lib \<Rightarrow> u32 \<Rightarrow> octets \<Rightarrow> int \<Rightarrow> net \<Rightarrow> net \<times> SendResult" where
  "cm_SendReliable L connID data now n =
     (case map_of (cm_conns n) connID of
        None \<Rightarrow> (n, refused SendNoRoute)
      | Some (WS p) \<Rightarrow> (case Conn_Send data now (n_ws n p) of (c, r) \<Rightarrow> (n\<lparr>n_ws := (n_ws n)(p := c)\<rparr>, r))
      | Some (UDP p) \<Rightarrow> (case SendReliable L data now (n_udp n p, n_socket n) of (ts, r) \<Rightarrow> (put_udp p ts n, r)))"

definition cm_InjectInput :: "u32 \<Rightarrow> octets \<Rightarrow> int \<Rightarrow> net \<Rightarrow> net" where
  "cm_InjectInput connID data now n =
     (case map_of (cm_conns n) connID of
        None \<Rightarrow> n
      | Some (WS p) \<Rightarrow> n\<lparr>n_ws := (n_ws n)(p := Conn_InjectInput data now (n_ws n p))\<rparr>
      | Some (UDP p) \<Rightarrow> upd_udp p (udp_InjectInput data now) n)"

definition cm_DrainInput :: "u32 \<Rightarrow> net \<Rightarrow> net \<times> octets list option" where
  "cm_DrainInput connID n =
     (case map_of (cm_conns n) connID of
        None \<Rightarrow> (n, None)
      | Some (WS p) \<Rightarrow> (case Conn_DrainInput (n_ws n p) of (c, msgs) \<Rightarrow> (n\<lparr>n_ws := (n_ws n)(p := c)\<rparr>, msgs))
      | Some (UDP p) \<Rightarrow> (case udp_DrainInput (n_udp n p) of (t, msgs) \<Rightarrow> (n\<lparr>n_udp := (n_udp n)(p := t)\<rparr>, msgs)))"

definition cm_DrainOpInput :: "u32 \<Rightarrow> net \<Rightarrow> net \<times> octets list option" where
  "cm_DrainOpInput connID n =
     (case map_of (cm_conns n) connID of
        None \<Rightarrow> (n, None)
      | Some (WS p) \<Rightarrow> (case Conn_DrainOpInput (n_ws n p) of (c, msgs) \<Rightarrow> (n\<lparr>n_ws := (n_ws n)(p := c)\<rparr>, msgs))
      | Some (UDP p) \<Rightarrow> (case udp_DrainOpInput (n_udp n p) of (t, msgs) \<Rightarrow> (n\<lparr>n_udp := (n_udp n)(p := t)\<rparr>, msgs)))"

section \<open>Sessions of the UDP server\<close>

datatype server_drop = SourceMismatch | Capacity | HandshakeReject

definition noteDrop :: "server_drop \<Rightarrow> int \<Rightarrow> net \<Rightarrow> net" where
  "noteDrop counter now n =
     (let n1 = (case counter of
                  SourceMismatch \<Rightarrow> n\<lparr>us_sourceMismatchDrops := us_sourceMismatchDrops n + 1\<rparr>
                | Capacity \<Rightarrow> n\<lparr>us_capacityDrops := us_capacityDrops n + 1\<rparr>
                | HandshakeReject \<Rightarrow> n\<lparr>us_handshakeRejectDrops := us_handshakeRejectDrops n + 1\<rparr>)
      in if now - us_lastDropLogStamp n1 < dropLogInterval then n1 else n1\<lparr>us_lastDropLogStamp := now\<rparr>)"

definition SetMaxConnections :: "int \<Rightarrow> net \<Rightarrow> net" where
  "SetMaxConnections mx n = (if mx > 0 then n\<lparr>us_maxConnections := mx\<rparr> else n)"

definition us_SetWireLimits :: "WireLimits \<Rightarrow> net \<Rightarrow> net" where
  "us_SetWireLimits l n = n\<lparr>us_limits := Normalized l\<rparr>"

definition SetKeyRegistry :: "UDPKeyRegistry option \<Rightarrow> net \<Rightarrow> net" where
  "SetKeyRegistry r n = n\<lparr>us_keys := r\<rparr>"

definition SetOnAuthenticated :: "bool \<Rightarrow> net \<Rightarrow> net" where
  "SetOnAuthenticated installed n = n\<lparr>us_onAuthenticated := installed\<rparr>"

definition forgetTransport :: "nat \<Rightarrow> net \<Rightarrow> net \<times> u32 option" where
  "forgetTransport p n =
     (let t = n_udp n p;
          connID = map_of (us_connIDs n) p;
          n1 = (if map_of (us_byToken n) (ut_token t) = Some p
                then n\<lparr>us_byToken := AList.delete (ut_token t) (us_byToken n)\<rparr> else n);
          n2 = (if map_of (us_byAddr n1) (ut_addr t) = Some p
                then n1\<lparr>us_byAddr := AList.delete (ut_addr t) (us_byAddr n1)\<rparr> else n1)
      in (n2\<lparr>us_connIDs := AList.delete p (us_connIDs n2)\<rparr>, connID))"

definition udp_Close :: "crypto_lib \<Rightarrow> nat \<Rightarrow> net \<Rightarrow> net" where
  "udp_Close L p n =
     (if ut_closed (n_udp n p) then n
      else let n1 = upd_udp p close_local n;
               n2 = fst (forgetTransport p n1)
           in put_udp p (send_disconnect L (n_udp n2 p, n_socket n2)) n2)"

definition removeTransport :: "crypto_lib \<Rightarrow> nat \<Rightarrow> net \<Rightarrow> net" where
  "removeTransport L p n =
     (case forgetTransport p n of
        (n1, connID) \<Rightarrow>
          let n2 = udp_Close L p n1
          in (case connID of None \<Rightarrow> n2 | Some cid \<Rightarrow> Unregister cid n2))"

definition maintenanceTick :: "crypto_lib \<Rightarrow> nat \<Rightarrow> int \<Rightarrow> int \<Rightarrow> net \<Rightarrow> net \<times> bool" where
  "maintenanceTick L p now clock n =
     (case maintenance_pass L now clock (n_udp n p, n_socket n) of
        (ts, ok) \<Rightarrow> let n1 = put_udp p ts n in if ok then (n1, True) else (removeTransport L p n1, False))"

text \<open>Removal by the manager, which the gateway's kick and logout paths use.\<close>

definition cm_Remove :: "crypto_lib \<Rightarrow> u32 \<Rightarrow> net \<Rightarrow> net" where
  "cm_Remove L cid n =
     (let t = map_of (cm_conns n) cid;
          n1 = n\<lparr>cm_conns := AList.delete cid (cm_conns n), cm_remoteAddrs := AList.delete cid (cm_remoteAddrs n)\<rparr>
      in case t of
           None \<Rightarrow> n1
         | Some (WS p) \<Rightarrow> n1\<lparr>n_ws := (n_ws n1)(p := Conn_Close (n_ws n1 p))\<rparr>
         | Some (UDP p) \<Rightarrow> udp_Close L p n1)"

definition routeFor :: "u32 \<Rightarrow> addr_port \<Rightarrow> int \<Rightarrow> net \<Rightarrow> net \<times> nat option" where
  "routeFor token ap now n =
     (case map_of (us_byToken n) token of
        None \<Rightarrow> (n, None)
      | Some p \<Rightarrow> if ut_addr (n_udp n p) \<noteq> ap then (noteDrop SourceMismatch now n, None) else (n, Some p))"

definition promoteConfirmed ::
  "(addr_port \<Rightarrow> string) \<Rightarrow> u32 \<Rightarrow> addr_port \<Rightarrow> u64 \<Rightarrow> u64 \<Rightarrow> session \<Rightarrow> UDPKeyEntry \<Rightarrow> int \<Rightarrow> net \<Rightarrow> net \<times> nat option" where
  "promoteConfirmed str token ap clientSalt serverSalt sess entry now n =
     (case map_of (us_byToken n) token of
        Some existing \<Rightarrow> (n, Some existing)
      | None \<Rightarrow>
          if int (length (us_byToken n)) \<ge> us_maxConnections n then (noteDrop Capacity now n, None)
          else let p = n_nextUDP n;
                   n1 = n\<lparr>n_udp := (n_udp n)(p := newUDPTransport ap token clientSalt serverSalt (us_limits n) sess now),
                          n_nextUDP := p + 1\<rparr>
               in case AddTransport (UDP p) (str ap) n1 of
                    (n2, connID) \<Rightarrow>
                      let n3 = n2\<lparr>us_byToken := AList.update token p (us_byToken n2),
                                  us_byAddr := AList.update ap p (us_byAddr n2),
                                  us_connIDs := AList.update p connID (us_connIDs n2)\<rparr>;
                          n4 = (if us_onAuthenticated n3
                                then n3\<lparr>us_announced := us_announced n3 @ [(connID, ke_UserID entry, ke_Username entry)]\<rparr>
                                else n3)
                      in (n4, Some p))"

definition handleDisconnectPacket ::
  "crypto_lib \<Rightarrow> u32 \<Rightarrow> u64 \<Rightarrow> octets \<Rightarrow> octets \<Rightarrow> addr_port \<Rightarrow> int \<Rightarrow> net \<Rightarrow> net" where
  "handleDisconnectPacket L token counter aad sealed ap now n =
     (case routeFor token ap now n of
        (n1, None) \<Rightarrow> n1
      | (n1, Some p) \<Rightarrow>
          (case Open L (ut_crypto (n_udp n1 p)) [] counter sealed aad of
             (s', Inl err) \<Rightarrow> upd_udp p (\<lambda>t. noteInboundDrop AuthFailure now (t\<lparr>ut_crypto := s'\<rparr>)) n1
           | (s', Inr body) \<Rightarrow> removeTransport L p (upd_udp p (\<lambda>t. t\<lparr>ut_crypto := s'\<rparr>) n1)))"

text \<open>\<open>rnd\<close> is the salt the random source yields, absent when it fails.\<close>

definition handleConnReq :: "crypto_lib \<Rightarrow> octets option \<Rightarrow> octets \<Rightarrow> addr_port \<Rightarrow> int \<Rightarrow> net \<Rightarrow> net" where
  "handleConnReq L rnd data ap wall n =
     (case DecodeConnReq data of
        Inl err \<Rightarrow> n
      | Inr clientSalt \<Rightarrow>
          (case map_of (us_byAddr n) ap of
             Some p \<Rightarrow>
               let t = n_udp n p;
                   cookie = Mint L (us_cookies n) ap (ut_clientSalt t) (ut_serverSalt t) wall
               in n\<lparr>n_socket := fst (WriteTo (EncodeConnAccept (ut_clientSalt t) (ut_serverSalt t) cookie) ap (n_socket n))\<rparr>
           | None \<Rightarrow>
               (case rnd of
                  None \<Rightarrow> n
                | Some saltBuf \<Rightarrow>
                    let serverSalt = LE saltBuf;
                        cookie = Mint L (us_cookies n) ap clientSalt serverSalt wall
                    in n\<lparr>n_socket := fst (WriteTo (EncodeConnAccept clientSalt serverSalt cookie) ap (n_socket n))\<rparr>)))"

definition handleConnConfirm ::
  "crypto_lib \<Rightarrow> (addr_port \<Rightarrow> string) \<Rightarrow> octets \<Rightarrow> addr_port \<Rightarrow> int \<Rightarrow> int \<Rightarrow> net \<Rightarrow> net" where
  "handleConnConfirm L str data ap wall now n =
     (case DecodeConnConfirm data of
        Inl err \<Rightarrow> n
      | Inr (keyID, clientSalt, serverSalt, cookie) \<Rightarrow>
          if \<not> Verify L (us_cookies n) cookie ap clientSalt serverSalt wall then noteDrop HandshakeReject now n
          else (case us_keys n of
                  None \<Rightarrow> noteDrop HandshakeReject now n
                | Some keys \<Rightarrow>
                    (case Key_Lookup keys keyID wall of
                       (keys', Inl err) \<Rightarrow> noteDrop HandshakeReject now (n\<lparr>us_keys := Some keys'\<rparr>)
                     | (keys', Inr entry) \<Rightarrow>
                         let n1 = n\<lparr>us_keys := Some keys'\<rparr> in
                         (case NewSession L (ke_Key entry) RoleServer (SessionSalt clientSalt serverSalt) of
                            None \<Rightarrow> noteDrop HandshakeReject now n1
                          | Some sess \<Rightarrow>
                              fst (promoteConfirmed str (MakeToken clientSalt serverSalt) ap clientSalt serverSalt
                                     sess entry now n1)))))"

text \<open>One datagram of the read loop; \<open>None\<close> is the index panic an empty one would raise.\<close>

definition dispatch ::
  "crypto_lib \<Rightarrow> (addr_port \<Rightarrow> string) \<Rightarrow> octets option \<Rightarrow> octets \<Rightarrow> addr_port \<Rightarrow> int \<Rightarrow> int \<Rightarrow> net \<Rightarrow> net option" where
  "dispatch L str rnd data ap wall now n =
     (if data = [] then None
      else let pktType = data ! 0 in
      if pktType = TypeConnReq then Some (handleConnReq L rnd data ap wall n)
      else if pktType = TypeConnConfirm then Some (handleConnConfirm L str data ap wall now n)
      else if pktType = TypeUnreliable then
        (case DecodeUnreliable data of
           Inl err \<Rightarrow> Some n
         | Inr (token, counter, aad, sealed) \<Rightarrow>
             (case routeFor token ap now n of
                (n1, None) \<Rightarrow> Some n1
              | (n1, Some p) \<Rightarrow> Some (upd_udp p (handleUnreliable L counter aad sealed now) n1)))
      else if pktType = TypeReliable then
        (case DecodeReliable data of
           Inl err \<Rightarrow> Some n
         | Inr (token, seq, counter, aad, sealed) \<Rightarrow>
             (case routeFor token ap now n of
                (n1, None) \<Rightarrow> Some n1
              | (n1, Some p) \<Rightarrow> Some (upd_udp p (handleReliable L seq counter aad sealed now) n1)))
      else if pktType = TypeACK then
        (case DecodeACK data of
           Inl err \<Rightarrow> Some n
         | Inr (token, counter, aad, sealed) \<Rightarrow>
             (case routeFor token ap now n of
                (n1, None) \<Rightarrow> Some n1
              | (n1, Some p) \<Rightarrow> Some (upd_udp p (handleACK L counter aad sealed now) n1)))
      else if pktType = TypeDisconnect then
        (case DecodeDisconnect data of
           Inl err \<Rightarrow> Some n
         | Inr (token, counter, aad, sealed) \<Rightarrow>
             Some (handleDisconnectPacket L token counter aad sealed ap now n))
      else Some n)"

text \<open>One iteration of \<open>Run\<close>: a read that failed, an empty datagram, or a packet.\<close>

definition Run_step ::
  "crypto_lib \<Rightarrow> (addr_port \<Rightarrow> string) \<Rightarrow> octets option \<Rightarrow> (octets \<times> addr_port) option \<Rightarrow> int \<Rightarrow> int \<Rightarrow> net \<Rightarrow> net option" where
  "Run_step L str rnd pkt wall now n =
     (case pkt of
        None \<Rightarrow> Some n
      | Some (data, ap) \<Rightarrow> if length data = 0 then Some n else dispatch L str rnd data ap wall now n)"

definition NewUDPServer :: "cookie_signer \<Rightarrow> udp_socket \<Rightarrow> (nat \<Rightarrow> Conn) \<Rightarrow> (nat \<Rightarrow> UDPTransport) \<Rightarrow> net" where
  "NewUDPServer signer so ws udp =
     \<lparr>n_ws = ws, n_udp = udp, n_nextWS = 0, n_nextUDP = 0, n_socket = so,
      us_byToken = [], us_byAddr = [], us_connIDs = [], us_cookies = signer, us_keys = None,
      us_onAuthenticated = False, us_announced = [], us_maxConnections = 1024, us_limits = DefaultWireLimits,
      us_sourceMismatchDrops = 0, us_capacityDrops = 0, us_handshakeRejectDrops = 0, us_lastDropLogStamp = 0,
      cm_conns = [], cm_remoteAddrs = [], cm_nextID = 0, cm_events = [], cm_limits = DefaultWireLimits\<rparr>"

text \<open>A WebSocket upgrade up to its read loop, and its end.\<close>

definition HandleWebSocket_open :: "string \<Rightarrow> net \<Rightarrow> net \<times> u32" where
  "HandleWebSocket_open remoteAddr n =
     (let limits = cm_WireLimits n;
          connID = cm_nextID n + 1;
          p = n_nextWS n;
          n1 = n\<lparr>cm_nextID := connID, n_ws := (n_ws n)(p := newConn connID limits), n_nextWS := p + 1\<rparr>
      in (registerTransport connID (WS p) remoteAddr n1, connID))"

section \<open>What the operations of a session keep\<close>

definition same_peer :: "UDPTransport \<Rightarrow> UDPTransport \<Rightarrow> bool" where
  "same_peer t t' \<longleftrightarrow> ut_token t' = ut_token t \<and> ut_addr t' = ut_addr t \<and> ut_closed t' = ut_closed t"

definition same_peer_all :: "(UDPTransport \<Rightarrow> UDPTransport) \<Rightarrow> bool" where
  "same_peer_all f \<longleftrightarrow> (\<forall>t. same_peer t (f t))"

named_theorems peer \<open>operations that keep the identity of a session\<close>

lemma same_peer_refl [peer]: "same_peer t t"
  by (simp add: same_peer_def)

lemma same_peer_trans: "same_peer t t' \<Longrightarrow> same_peer t' t'' \<Longrightarrow> same_peer t t''"
  by (simp add: same_peer_def)

lemma same_peer_noteInboundDrop [peer]: "same_peer t (noteInboundDrop c now t)"
  by (simp add: same_peer_def noteInboundDrop_def)

lemma same_peer_routePayload [peer]: "same_peer t (routePayload payload now t)"
  by (simp add: same_peer_def routePayload_def appendInbound_def noteInboundDrop_def Let_def)

lemma same_peer_openInbound: "openInbound L counter aad sealed now t = (t1, r) \<Longrightarrow> same_peer t t1"
  using openInbound_keeps by (simp add: same_peer_def)

lemma same_peer_handleUnreliable [peer]: "same_peer t (handleUnreliable L counter aad sealed now t)"
proof -
  obtain t1 r where o: "openInbound L counter aad sealed now t = (t1, r)"
    by (cases "openInbound L counter aad sealed now t")
  show ?thesis
    using same_peer_openInbound [OF o] same_peer_routePayload
    by (auto simp: handleUnreliable_def o same_peer_def Let_def split: option.splits)
qed

lemma same_peer_track: "track_reliable seq t = (t1, d) \<Longrightarrow> same_peer t t1"
  by (auto simp: track_reliable_def same_peer_def Let_def split: if_splits)

lemma same_peer_handleReliable [peer]: "same_peer t (handleReliable L seq counter aad sealed now t)"
proof -
  obtain t1 r where o: "openInbound L counter aad sealed now t = (t1, r)"
    by (cases "openInbound L counter aad sealed now t")
  show ?thesis
    using same_peer_openInbound [OF o] same_peer_routePayload
    by (auto simp: handleReliable_def o same_peer_def Let_def dest!: same_peer_track split: option.splits prod.splits)
qed

lemma same_peer_markAcked [peer]: "same_peer t (markAcked s t)"
  by (simp add: same_peer_def markAcked_def Let_def)

lemma same_peer_fold_acked: "same_peer t (fold (\<lambda>i t. if P i then markAcked (g i) t else t) is t)"
proof (induction "is" arbitrary: t)
  case (Cons i "is")
  have "same_peer t (if P i then markAcked (g i) t else t)"
    by (simp add: peer)
  from same_peer_trans [OF this Cons.IH] show ?case
    by simp
qed (simp add: peer)

lemma same_peer_handleACK [peer]: "same_peer t (handleACK L counter aad sealed now t)"
proof -
  obtain t1 r where o: "openInbound L counter aad sealed now t = (t1, r)"
    by (cases "openInbound L counter aad sealed now t")
  have acked: "same_peer t (fold (\<lambda>i t. if P i then markAcked (g i) t else t) is
      (markAcked s (t1\<lparr>ut_lastRecvTick := k\<rparr>)))" for P g "is" s k
    by (rule same_peer_trans [OF same_peer_trans [OF _ same_peer_markAcked] same_peer_fold_acked])
       (use same_peer_openInbound [OF o] in \<open>simp add: same_peer_def\<close>)
  show ?thesis
    using same_peer_openInbound [OF o] acked
    by (auto simp: handleACK_def o Let_def split: option.splits sum.splits)
qed

lemma same_peer_sealSend [peer]: "same_peer t (fst (fst (sealSend L body hdr now (t, so))))"
  by (auto simp: same_peer_def sealSend_def sendRaw_def split: prod.splits sum.splits write_outcome.splits)

lemma same_peer_SendUnreliable [peer]: "same_peer t (fst (fst (SendUnreliable L data now (t, so))))"
  by (simp add: SendUnreliable_def peer)

lemma same_peer_SendReliable [peer]: "same_peer t (fst (fst (SendReliable L data now (t, so))))"
proof -
  have "same_peer t (fst (fst (sealSend L data hdr now (t\<lparr>ut_sendSeq := s, ut_sendBuf := b\<rparr>, so))))" for hdr s b
    using same_peer_sealSend [of "t\<lparr>ut_sendSeq := s, ut_sendBuf := b\<rparr>" L data hdr now so] by (simp add: same_peer_def)
  then show ?thesis
    by (auto simp: SendReliable_def Let_def same_peer_def split: prod.splits) (metis fst_conv)+
qed

lemma same_peer_retransmit: "same_peer t (fst (fst (retransmit_from L now clock is (t, so))))"
proof (induction "is" arbitrary: t so)
  case (Cons i "is")
  obtain t1 so1 res where s: "sealSend L (re_payload (ut_sendBuf t ! i))
      (\<lambda>ctr. EncodeReliableHeader (ut_token t) (re_seq (ut_sendBuf t ! i)) ctr) clock (t, so) = ((t1, so1), res)"
    by (metis surj_pair)
  then have "same_peer t t1"
    using same_peer_sealSend [of t L] by (metis fst_conv)
  then have "same_peer t (t1\<lparr>ut_sendBuf := b\<rparr>)" for b
    by (simp add: same_peer_def)
  then have "same_peer t (fst (fst (retransmit_from L now clock is (t1\<lparr>ut_sendBuf := b\<rparr>, so1))))" for b
    using Cons.IH same_peer_trans by blast
  then show ?case
    using s Cons.IH by (auto simp: Let_def peer)
qed (simp add: peer)

lemma same_peer_sendACK: "same_peer t (fst (sendACK L now (t, so)))"
proof -
  have "same_peer t (fst (fst (sealSend L body hdr now (t\<lparr>ut_ackDirty := False\<rparr>, so))))" for body hdr
    using same_peer_sealSend [of "t\<lparr>ut_ackDirty := False\<rparr>" L body hdr now so] by (simp add: same_peer_def)
  then show ?thesis
    by (auto simp: sendACK_def takePendingACK_def same_peer_def split: prod.splits) (metis fst_conv)+
qed

lemma same_peer_maintenance [peer]: "same_peer t (fst (fst (maintenance_pass L now clock (t, so))))"
proof -
  obtain t1 so1 ok where r: "retransmit_from L now clock [0..<reliableBufSize] (t, so) = ((t1, so1), ok)"
    by (metis surj_pair)
  then have t1: "same_peer t t1"
    using same_peer_retransmit [of t L now clock "[0..<reliableBufSize]" so] by simp
  obtain t2 so2 where a: "sendACK L clock (t1, so1) = (t2, so2)"
    by (cases "sendACK L clock (t1, so1)")
  then have t2: "same_peer t t2"
    using same_peer_trans [OF t1 same_peer_sendACK, of L clock so1] by simp
  then have "same_peer t (fst (fst (sealSend L [] (\<lambda>ctr. EncodeUnreliableHeader (ut_token t2) ctr) clock (t2, so2))))"
    using same_peer_trans same_peer_sealSend by blast
  then show ?thesis
    using r a t1 t2 by (cases ok) (auto simp: maintenance_pass_def peer)
qed

lemma same_peer_Inject [peer]: "same_peer t (udp_InjectInput data now t)"
  by (simp add: same_peer_def udp_InjectInput_def noteInboundDrop_def)

lemma same_peer_drains [peer]: "same_peer t (fst (udp_DrainInput t))" "same_peer t (fst (udp_DrainOpInput t))"
  by (auto simp: same_peer_def udp_DrainInput_def udp_DrainOpInput_def split: prod.splits option.splits)

section \<open>The session maps agree\<close>

text \<open>
  The invariant of the three maps, over any type of addresses: \<open>B\<close>, \<open>A\<close> and \<open>C\<close> are the maps from
  tokens, from addresses and to connection identifiers, \<open>N\<close> bounds the allocated sessions, and
  \<open>tk\<close>, \<open>ad\<close>, \<open>cl\<close> are a session's token, address and closed flag.
\<close>

definition maps_ok ::
  "(u32 \<rightharpoonup> nat) \<Rightarrow> ('a \<rightharpoonup> nat) \<Rightarrow> (nat \<rightharpoonup> u32) \<Rightarrow> nat \<Rightarrow> (nat \<Rightarrow> u32) \<Rightarrow> (nat \<Rightarrow> 'a) \<Rightarrow> (nat \<Rightarrow> bool) \<Rightarrow> bool" where
  "maps_ok B A C N tk ad cl \<longleftrightarrow>
     (\<forall>token p. B token = Some p \<longrightarrow> p < N \<and> tk p = token \<and> \<not> cl p \<and> C p \<noteq> None) \<and>
     (\<forall>ap p. A ap = Some p \<longrightarrow> ad p = ap \<and> B (tk p) = Some p) \<and>
     (\<forall>p. C p \<noteq> None \<longrightarrow> B (tk p) = Some p)"

lemma maps_okD:
  assumes "maps_ok B A C N tk ad cl"
  shows "B token = Some p \<Longrightarrow> p < N \<and> tk p = token \<and> \<not> cl p \<and> C p \<noteq> None"
    and "A ap = Some p \<Longrightarrow> ad p = ap \<and> B (tk p) = Some p"
    and "C p \<noteq> None \<Longrightarrow> B (tk p) = Some p"
  using assms unfolding maps_ok_def by simp_all

lemma maps_ok_forget:
  assumes "maps_ok B A C N tk ad cl"
  shows "maps_ok (\<lambda>k. if B k = Some p then None else B k) (\<lambda>k. if A k = Some p then None else A k) (C(p := None)) N tk ad cl"
  unfolding maps_ok_def
proof (intro conjI allI impI)
  fix token q
  assume "(if B token = Some p then None else B token) = Some q"
  then have q: "B token = Some q" "q \<noteq> p"
    by (simp_all split: if_splits)
  note maps_okD(1) [OF assms q(1)]
  with q(2) show "q < N" "tk q = token" "\<not> cl q" "(C(p := None)) q \<noteq> None"
    by simp_all
next
  fix ap q
  assume "(if A ap = Some p then None else A ap) = Some q"
  then have q: "A ap = Some q" "q \<noteq> p"
    by (simp_all split: if_splits)
  note maps_okD(2) [OF assms q(1)]
  with q(2) show "ad q = ap" "(if B (tk q) = Some p then None else B (tk q)) = Some q"
    by simp_all
next
  fix q
  assume "(C(p := None)) q \<noteq> None"
  then have q: "C q \<noteq> None" "q \<noteq> p"
    by (simp_all split: if_splits)
  note maps_okD(3) [OF assms q(1)]
  with q(2) show "(if B (tk q) = Some p then None else B (tk q)) = Some q"
    by simp
qed

lemma maps_okI:
  assumes "\<And>token p. B token = Some p \<Longrightarrow> p < N \<and> tk p = token \<and> \<not> cl p \<and> C p \<noteq> None"
    and "\<And>ap p. A ap = Some p \<Longrightarrow> ad p = ap \<and> B (tk p) = Some p"
    and "\<And>p. C p \<noteq> None \<Longrightarrow> B (tk p) = Some p"
  shows "maps_ok B A C N tk ad cl"
  using assms unfolding maps_ok_def by simp

lemma maps_ok_absent:
  assumes "maps_ok B A C N tk ad cl" and "C p = None"
  shows "B k \<noteq> Some p" and "A j \<noteq> Some p"
  using maps_okD(1) [OF assms(1), of k p] maps_okD(2) [OF assms(1), of j p]
    maps_okD(1) [OF assms(1), of "tk p" p] assms(2) by auto

lemma maps_ok_gone:
  assumes "maps_ok B A C N tk ad cl" and "C p = None"
  shows "maps_ok B A C N (tk(p := x)) (ad(p := y)) (cl(p := z))"
proof (rule maps_okI)
  fix token q assume q: "B token = Some q"
  then have "q \<noteq> p" using maps_ok_absent(1) [OF assms] by auto
  with maps_okD(1) [OF assms(1) q]
  show "q < N \<and> (tk(p := x)) q = token \<and> \<not> (cl(p := z)) q \<and> C q \<noteq> None" by simp
next
  fix ap q assume q: "A ap = Some q"
  then have "q \<noteq> p" using maps_ok_absent(2) [OF assms] by auto
  with maps_okD(2) [OF assms(1) q] show "(ad(p := y)) q = ap \<and> B ((tk(p := x)) q) = Some q" by simp
next
  fix q assume q: "C q \<noteq> None"
  then have "q \<noteq> p" using assms(2) by auto
  with maps_okD(3) [OF assms(1) q] show "B ((tk(p := x)) q) = Some q" by simp
qed

lemma maps_ok_insert:
  assumes "maps_ok B A C N tk ad cl" and "B token = None"
  shows "maps_ok (B(token \<mapsto> N)) (A(ap \<mapsto> N)) (C(N \<mapsto> cid)) (Suc N) (tk(N := token)) (ad(N := ap)) (cl(N := False))"
proof -
  have bound: "q < N" if "C q \<noteq> None" for q
    using maps_okD(1) [OF assms(1) maps_okD(3) [OF assms(1) that]] by simp
  then have none: "C N = None"
    by blast
  show ?thesis
  proof (rule maps_okI)
    fix k q assume q: "(B(token \<mapsto> N)) k = Some q"
    show "q < Suc N \<and> (tk(N := token)) q = k \<and> \<not> (cl(N := False)) q \<and> (C(N \<mapsto> cid)) q \<noteq> None"
    proof (cases "k = token")
      case True
      with q show ?thesis by simp
    next
      case False
      with q have b: "B k = Some q" by simp
      then have "q \<noteq> N" using maps_ok_absent(1) [OF assms(1) none] by auto
      with maps_okD(1) [OF assms(1) b] show ?thesis by simp
    qed
  next
    fix k q assume q: "(A(ap \<mapsto> N)) k = Some q"
    show "(ad(N := ap)) q = k \<and> (B(token \<mapsto> N)) ((tk(N := token)) q) = Some q"
    proof (cases "k = ap")
      case True
      with q show ?thesis by simp
    next
      case False
      with q have a: "A k = Some q" by simp
      then have "q \<noteq> N" using maps_ok_absent(2) [OF assms(1) none] by auto
      with maps_okD(2) [OF assms(1) a] assms(2) show ?thesis by (auto simp: fun_upd_apply)
    qed
  next
    fix q assume q: "(C(N \<mapsto> cid)) q \<noteq> None"
    show "(B(token \<mapsto> N)) ((tk(N := token)) q) = Some q"
    proof (cases "q = N")
      case False
      with q have "C q \<noteq> None" by simp
      from maps_okD(3) [OF assms(1) this] False assms(2) show ?thesis by (auto simp: fun_upd_apply)
    qed simp
  qed
qed

definition server_ok :: "net \<Rightarrow> bool" where
  "server_ok n \<longleftrightarrow> distinct (map fst (us_byToken n)) \<and> int (length (us_byToken n)) \<le> us_maxConnections n \<and>
     maps_ok (map_of (us_byToken n)) (map_of (us_byAddr n)) (map_of (us_connIDs n)) (n_nextUDP n)
       (\<lambda>p. ut_token (n_udp n p)) (\<lambda>p. ut_addr (n_udp n p)) (\<lambda>p. ut_closed (n_udp n p))"

text \<open>The fields of the state the invariant reads.\<close>

definition same_maps :: "net \<Rightarrow> net \<Rightarrow> bool" where
  "same_maps n n' \<longleftrightarrow> us_byToken n' = us_byToken n \<and> us_byAddr n' = us_byAddr n \<and> us_connIDs n' = us_connIDs n \<and>
     n_nextUDP n' = n_nextUDP n \<and> us_maxConnections n' = us_maxConnections n"

lemma same_maps_refl: "same_maps n n"
  by (simp add: same_maps_def)

lemma server_ok_peers:
  assumes "server_ok n" and "same_maps n n'" and "\<And>p. same_peer (n_udp n p) (n_udp n' p)"
  shows "server_ok n'"
  using assms by (simp add: server_ok_def same_maps_def same_peer_def)

lemma noteDrop_maps [simp]: "same_maps n (noteDrop c now n)" "n_udp (noteDrop c now n) = n_udp n"
  by (cases c; simp add: noteDrop_def same_maps_def Let_def)+

lemma server_ok_noteDrop: "server_ok n \<Longrightarrow> server_ok (noteDrop c now n)"
  by (erule server_ok_peers) (simp_all add: peer)

lemma server_ok_upd_udp:
  assumes "server_ok n" and "same_peer (n_udp n p) (f (n_udp n p))"
  shows "server_ok (upd_udp p f n)"
  using assms(1) by (rule server_ok_peers) (use assms(2) in \<open>simp_all add: upd_udp_def same_maps_def peer\<close>)

lemma server_ok_put_udp:
  assumes "server_ok n" and "same_peer (n_udp n p) (fst ts)"
  shows "server_ok (put_udp p ts n)"
  using assms(1) by (rule server_ok_peers) (use assms(2) in \<open>simp_all add: put_udp_def same_maps_def peer\<close>)

lemma only_key:
  assumes "\<And>k. B k = Some p \<Longrightarrow> k = key"
  shows "(if B key = Some p then B(key := None) else B) = (\<lambda>k. if B k = Some p then None else B k)"
proof
  fix k show "(if B key = Some p then B(key := None) else B) k = (if B k = Some p then None else B k)"
    using assms [of k] by (cases "k = key") auto
qed

lemma maps_ok_key:
  assumes "maps_ok B A C N tk ad cl"
  shows "(if B (tk p) = Some p then B(tk p := None) else B) = (\<lambda>k. if B k = Some p then None else B k)"
    and "(if A (ad p) = Some p then A(ad p := None) else A) = (\<lambda>k. if A k = Some p then None else A k)"
proof -
  show "(if B (tk p) = Some p then B(tk p := None) else B) = (\<lambda>k. if B k = Some p then None else B k)"
    by (rule only_key) (simp add: maps_okD(1) [OF assms])
  show "(if A (ad p) = Some p then A(ad p := None) else A) = (\<lambda>k. if A k = Some p then None else A k)"
    by (rule only_key) (simp add: maps_okD(2) [OF assms])
qed

lemma forgetTransport_fields:
  "us_byToken (fst (forgetTransport p n)) =
     (if map_of (us_byToken n) (ut_token (n_udp n p)) = Some p
      then AList.delete (ut_token (n_udp n p)) (us_byToken n) else us_byToken n)"
  "us_byAddr (fst (forgetTransport p n)) =
     (if map_of (us_byAddr n) (ut_addr (n_udp n p)) = Some p
      then AList.delete (ut_addr (n_udp n p)) (us_byAddr n) else us_byAddr n)"
  "us_connIDs (fst (forgetTransport p n)) = AList.delete p (us_connIDs n)"
  "n_udp (fst (forgetTransport p n)) = n_udp n" "n_nextUDP (fst (forgetTransport p n)) = n_nextUDP n"
  "n_socket (fst (forgetTransport p n)) = n_socket n" "us_maxConnections (fst (forgetTransport p n)) = us_maxConnections n"
  by (simp_all add: forgetTransport_def Let_def)

lemma forgetTransport_maps:
  assumes "server_ok n"
  shows "map_of (us_byToken (fst (forgetTransport p n))) =
           (\<lambda>k. if map_of (us_byToken n) k = Some p then None else map_of (us_byToken n) k)"
    and "map_of (us_byAddr (fst (forgetTransport p n))) =
           (\<lambda>k. if map_of (us_byAddr n) k = Some p then None else map_of (us_byAddr n) k)"
    and "map_of (us_connIDs (fst (forgetTransport p n))) = (map_of (us_connIDs n))(p := None)"
proof -
  have ok: "maps_ok (map_of (us_byToken n)) (map_of (us_byAddr n)) (map_of (us_connIDs n)) (n_nextUDP n)
       (\<lambda>p. ut_token (n_udp n p)) (\<lambda>p. ut_addr (n_udp n p)) (\<lambda>p. ut_closed (n_udp n p))"
    using assms by (simp add: server_ok_def)
  show "map_of (us_byToken (fst (forgetTransport p n))) =
           (\<lambda>k. if map_of (us_byToken n) k = Some p then None else map_of (us_byToken n) k)"
    unfolding maps_ok_key(1) [OF ok, symmetric] forgetTransport_fields
    by (cases "map_of (us_byToken n) (ut_token (n_udp n p)) = Some p") (simp_all only: if_True if_False delete_conv' HOL.simp_thms)
  show "map_of (us_byAddr (fst (forgetTransport p n))) =
           (\<lambda>k. if map_of (us_byAddr n) k = Some p then None else map_of (us_byAddr n) k)"
    unfolding maps_ok_key(2) [OF ok, symmetric] forgetTransport_fields
    by (cases "map_of (us_byAddr n) (ut_addr (n_udp n p)) = Some p") (simp_all only: if_True if_False delete_conv' HOL.simp_thms)
qed (simp add: forgetTransport_fields delete_conv')

lemma forget_length: "length (us_byToken (fst (forgetTransport p n))) \<le> length (us_byToken n)"
  by (simp add: forgetTransport_fields AList.delete_eq)

lemma forget_distinct: "distinct (map fst (us_byToken n)) \<Longrightarrow> distinct (map fst (us_byToken (fst (forgetTransport p n))))"
  by (simp add: forgetTransport_fields distinct_delete)

lemma server_ok_forget:
  assumes "server_ok n"
  shows "server_ok (fst (forgetTransport p n))"
proof -
  have "distinct (map fst (us_byToken (fst (forgetTransport p n)))) \<and>
    int (length (us_byToken (fst (forgetTransport p n)))) \<le> us_maxConnections n"
    using assms forget_length [of p n] by (simp add: server_ok_def forget_distinct)
  moreover have "maps_ok (map_of (us_byToken n)) (map_of (us_byAddr n)) (map_of (us_connIDs n)) (n_nextUDP n)
       (\<lambda>p. ut_token (n_udp n p)) (\<lambda>p. ut_addr (n_udp n p)) (\<lambda>p. ut_closed (n_udp n p))"
    using assms by (simp add: server_ok_def)
  note maps_ok_forget [OF this, of p]
  ultimately show ?thesis
    unfolding server_ok_def forgetTransport_maps [OF assms] forgetTransport_fields(4,5,7) by blast
qed

text \<open>Once a session is out of the maps, its own state no longer matters to them.\<close>

lemma server_ok_gone:
  assumes "server_ok n" and "map_of (us_connIDs n) p = None" and "same_maps n n'" and "n_udp n' = (n_udp n)(p := t)"
  shows "server_ok n'"
proof -
  have upd: "(\<lambda>q. f (n_udp n' q)) = (\<lambda>q. f (n_udp n q))(p := f t)" for f :: "UDPTransport \<Rightarrow> 'x"
    unfolding assms(4) by auto
  have "maps_ok (map_of (us_byToken n)) (map_of (us_byAddr n)) (map_of (us_connIDs n)) (n_nextUDP n)
       (\<lambda>p. ut_token (n_udp n p)) (\<lambda>p. ut_addr (n_udp n p)) (\<lambda>p. ut_closed (n_udp n p))"
    using assms(1) by (simp add: server_ok_def)
  from maps_ok_gone [OF this assms(2)]
  have "maps_ok (map_of (us_byToken n)) (map_of (us_byAddr n)) (map_of (us_connIDs n)) (n_nextUDP n)
       (\<lambda>p. ut_token (n_udp n' p)) (\<lambda>p. ut_addr (n_udp n' p)) (\<lambda>p. ut_closed (n_udp n' p))"
    unfolding upd .
  then show ?thesis
    using assms(1,3) by (simp add: server_ok_def same_maps_def)
qed

section \<open>Every operation keeps the maps\<close>

lemma forget_out: "server_ok n \<Longrightarrow> map_of (us_connIDs (fst (forgetTransport p n))) p = None"
  by (simp add: forgetTransport_maps(3))

lemma send_disconnect_peer: "same_peer t (fst (send_disconnect L (t, so)))"
  by (auto simp: send_disconnect_def same_peer_def split: prod.splits sum.splits)

lemma udp_Close_effect:
  assumes "\<not> ut_closed (n_udp n p)"
  shows "\<exists>t. same_maps (fst (forgetTransport p n)) (udp_Close L p n) \<and> n_udp (udp_Close L p n) = (n_udp n)(p := t) \<and>
    ut_closed t \<and> ut_token t = ut_token (n_udp n p) \<and> ut_addr t = ut_addr (n_udp n p) \<and>
    us_announced (udp_Close L p n) = us_announced n \<and> us_keys (udp_Close L p n) = us_keys n \<and>
    us_cookies (udp_Close L p n) = us_cookies n \<and> cm_nextID (udp_Close L p n) = cm_nextID n"
proof -
  define n2 where "n2 = fst (forgetTransport p (upd_udp p close_local n))"
  define ts where "ts = send_disconnect L (n_udp n2 p, n_socket n2)"
  have eq: "udp_Close L p n = put_udp p ts n2"
    using assms by (simp add: udp_Close_def n2_def ts_def Let_def)
  have n2: "n_udp n2 = (n_udp n)(p := close_local (n_udp n p))"
    by (simp add: n2_def forgetTransport_fields upd_udp_def)
  have ids: "ut_token (close_local t) = ut_token t" "ut_addr (close_local t) = ut_addr t" "ut_closed (close_local t)" for t
    by (simp_all add: close_local_def)
  have "same_maps (fst (forgetTransport p n)) n2"
    by (simp add: same_maps_def n2_def forgetTransport_fields upd_udp_def ids)
  then have maps: "same_maps (fst (forgetTransport p n)) (udp_Close L p n)"
    by (simp add: eq put_udp_def same_maps_def)
  have rest: "us_announced n2 = us_announced n" "us_keys n2 = us_keys n" "us_cookies n2 = us_cookies n" "cm_nextID n2 = cm_nextID n"
    by (simp_all add: n2_def forgetTransport_def upd_udp_def Let_def)
  have "same_peer (close_local (n_udp n p)) (fst ts)"
    using send_disconnect_peer [of "n_udp n2 p" L "n_socket n2"] by (simp add: ts_def n2)
  then show ?thesis
    using maps rest by (intro exI [where x="fst ts"]) (simp add: eq put_udp_def n2 same_peer_def ids)
qed

lemma server_ok_Close:
  assumes "server_ok n"
  shows "server_ok (udp_Close L p n)"
proof (cases "ut_closed (n_udp n p)")
  case True
  then show ?thesis using assms by (simp add: udp_Close_def)
next
  case False
  then obtain t where "same_maps (fst (forgetTransport p n)) (udp_Close L p n)" "n_udp (udp_Close L p n) = (n_udp n)(p := t)"
    using udp_Close_effect by blast
  then show ?thesis
    using server_ok_gone [OF server_ok_forget [OF assms] forget_out [OF assms]] by (simp add: forgetTransport_fields(4))
qed

lemma Unregister_maps [simp]: "same_maps n (Unregister cid n)" "n_udp (Unregister cid n) = n_udp n"
  by (simp_all add: Unregister_def same_maps_def)

lemma server_ok_Unregister: "server_ok n \<Longrightarrow> server_ok (Unregister cid n)"
  by (erule server_ok_peers) (simp_all add: peer)

definition same_config :: "net \<Rightarrow> net \<Rightarrow> bool" where
  "same_config n n' \<longleftrightarrow> us_keys n' = us_keys n \<and> us_cookies n' = us_cookies n \<and> n_nextUDP n' = n_nextUDP n \<and>
     us_maxConnections n' = us_maxConnections n"

lemma same_config_forget: "same_config n (fst (forgetTransport p n))"
  by (simp add: same_config_def forgetTransport_def Let_def)

lemma same_config_Close: "same_config n (udp_Close L p n)"
proof (cases "ut_closed (n_udp n p)")
  case True
  then show ?thesis by (simp add: udp_Close_def same_config_def)
next
  case False
  then show ?thesis
    using udp_Close_effect [OF False, of L] by (auto simp: same_config_def same_maps_def forgetTransport_fields)
qed

lemma same_config_remove: "same_config n (removeTransport L p n)"
proof -
  obtain n1 cid where f: "forgetTransport p n = (n1, cid)"
    by (cases "forgetTransport p n")
  have "same_config n (udp_Close L p n1)"
    using same_config_forget [of n p] same_config_Close [of n1 L p] by (simp add: f same_config_def)
  then show ?thesis
    by (cases cid) (simp_all add: removeTransport_def f Unregister_def same_config_def Let_def)
qed

lemmas removeTransport_frame = same_config_remove [unfolded same_config_def]

lemma server_ok_remove:
  assumes "server_ok n"
  shows "server_ok (removeTransport L p n)"
proof -
  obtain n1 cid where f: "forgetTransport p n = (n1, cid)"
    by (cases "forgetTransport p n")
  then have "server_ok n1"
    using server_ok_forget [OF assms, of p] by simp
  then have "server_ok (udp_Close L p n1)"
    by (rule server_ok_Close)
  then show ?thesis
    by (cases cid) (simp_all add: removeTransport_def f server_ok_Unregister)
qed

lemma server_ok_tick:
  assumes "server_ok n"
  shows "server_ok (fst (maintenanceTick L p now clock n))"
proof -
  obtain ts ok where m: "maintenance_pass L now clock (n_udp n p, n_socket n) = (ts, ok)"
    by (cases "maintenance_pass L now clock (n_udp n p, n_socket n)")
  then have "same_peer (n_udp n p) (fst ts)"
    using same_peer_maintenance [of "n_udp n p" L now clock "n_socket n"] by simp
  then have "server_ok (put_udp p ts n)"
    by (rule server_ok_put_udp [OF assms])
  then show ?thesis
    by (simp add: maintenanceTick_def m Let_def server_ok_remove)
qed

lemma server_ok_cm:
  assumes "server_ok n"
  shows "server_ok (cm_Remove L cid n)" and "server_ok (fst (cm_Send L cid data now n))"
    and "server_ok (fst (cm_SendReliable L cid data now n))" and "server_ok (cm_InjectInput cid data now n)"
    and "server_ok (fst (cm_DrainInput cid n))" and "server_ok (fst (cm_DrainOpInput cid n))"
proof -
  have frame: "server_ok (n\<lparr>cm_conns := cs, cm_remoteAddrs := rs\<rparr>)" "server_ok (n\<lparr>n_ws := w\<rparr>)"
    "server_ok (n\<lparr>cm_conns := cs, cm_remoteAddrs := rs, n_ws := w\<rparr>)" for cs rs w
    using assms by (simp_all add: server_ok_def)
  show "server_ok (cm_Remove L cid n)"
    using frame by (auto simp: cm_Remove_def Let_def server_ok_Close split: option.splits transport.splits)
  show "server_ok (fst (cm_Send L cid data now n))"
    using assms frame same_peer_SendUnreliable [where L=L and data=data and now=now and so="n_socket n"]
    by (auto simp: cm_Send_def intro!: server_ok_put_udp split: option.splits transport.splits prod.splits) (metis fst_conv)
  show "server_ok (fst (cm_SendReliable L cid data now n))"
    using assms frame same_peer_SendReliable [where L=L and data=data and now=now and so="n_socket n"]
    by (auto simp: cm_SendReliable_def intro!: server_ok_put_udp split: option.splits transport.splits prod.splits) (metis fst_conv)
  show "server_ok (cm_InjectInput cid data now n)"
    using assms frame by (auto simp: cm_InjectInput_def peer intro!: server_ok_upd_udp split: option.splits transport.splits)
  have drain: "server_ok (n\<lparr>n_udp := (n_udp n)(p := t)\<rparr>)" if "same_peer (n_udp n p) t" for p t
    using server_ok_upd_udp [OF assms, of p "\<lambda>_. t"] that by (simp add: upd_udp_def)
  show "server_ok (fst (cm_DrainInput cid n))"
    using assms frame same_peer_drains(1)
    by (auto simp: cm_DrainInput_def intro!: drain split: option.splits transport.splits prod.splits) (metis fst_conv)
  show "server_ok (fst (cm_DrainOpInput cid n))"
    using assms frame same_peer_drains(2)
    by (auto simp: cm_DrainOpInput_def intro!: drain split: option.splits transport.splits prod.splits) (metis fst_conv)
qed

lemma AddTransport_frame:
  assumes "AddTransport t addr n = (n', cid)"
  shows "cid = cm_nextID n + 1 \<and> same_maps n n' \<and> n_udp n' = n_udp n \<and> us_onAuthenticated n' = us_onAuthenticated n \<and>
    us_announced n' = us_announced n \<and> us_keys n' = us_keys n"
  using assms by (cases "addr = []") (auto simp: AddTransport_def registerTransport_def same_maps_def Let_def)

text \<open>A promotion either finds the session, refuses, or adds one.\<close>

lemma promote_new:
  assumes "map_of (us_byToken n) token = None" and "int (length (us_byToken n)) < us_maxConnections n"
    and "promoteConfirmed str token ap c sv sess entry now n = (n', r)"
  shows "r = Some (n_nextUDP n) \<and>
    n_udp n' = (n_udp n)(n_nextUDP n := newUDPTransport ap token c sv (us_limits n) sess now) \<and>
    n_nextUDP n' = Suc (n_nextUDP n) \<and> us_maxConnections n' = us_maxConnections n \<and>
    us_byToken n' = AList.update token (n_nextUDP n) (us_byToken n) \<and>
    us_byAddr n' = AList.update ap (n_nextUDP n) (us_byAddr n) \<and>
    us_connIDs n' = AList.update (n_nextUDP n) (cm_nextID n + 1) (us_connIDs n) \<and>
    us_announced n' = us_announced n @
      (if us_onAuthenticated n then [(cm_nextID n + 1, ke_UserID entry, ke_Username entry)] else [])"
  using assms by (cases "str ap = []") (auto simp: promoteConfirmed_def AddTransport_def registerTransport_def Let_def)

lemma promote_old: "map_of (us_byToken n) token = Some p \<Longrightarrow>
  promoteConfirmed str token ap c sv sess entry now n = (n, Some p)"
  by (simp add: promoteConfirmed_def)

lemma promote_full: "map_of (us_byToken n) token = None \<Longrightarrow> \<not> int (length (us_byToken n)) < us_maxConnections n \<Longrightarrow>
  promoteConfirmed str token ap c sv sess entry now n = (noteDrop Capacity now n, None)"
  by (simp add: promoteConfirmed_def)

lemma server_ok_promote:
  assumes "server_ok n"
  shows "server_ok (fst (promoteConfirmed str token ap c sv sess entry now n))"
proof (cases "map_of (us_byToken n) token")
  case (Some p)
  then show ?thesis using assms by (simp add: promote_old)
next
  case None
  show ?thesis
  proof (cases "int (length (us_byToken n)) < us_maxConnections n")
    case False
    then show ?thesis using None assms by (simp add: promote_full server_ok_noteDrop)
  next
    case True
    obtain n' r where p: "promoteConfirmed str token ap c sv sess entry now n = (n', r)"
      by (cases "promoteConfirmed str token ap c sv sess entry now n")
    note new = promote_new [OF None True p]
    have maps: "maps_ok (map_of (us_byToken n)) (map_of (us_byAddr n)) (map_of (us_connIDs n)) (n_nextUDP n)
       (\<lambda>p. ut_token (n_udp n p)) (\<lambda>p. ut_addr (n_udp n p)) (\<lambda>p. ut_closed (n_udp n p))"
      and dist: "distinct (map fst (us_byToken n))"
      using assms by (simp_all add: server_ok_def)
    let ?t = "newUDPTransport ap token c sv (us_limits n) sess now"
    have upd: "(\<lambda>q. f (n_udp n' q)) = (\<lambda>q. f (n_udp n q))(n_nextUDP n := f ?t)" for f :: "UDPTransport \<Rightarrow> 'x"
      using new by auto
    have ids: "ut_token ?t = token" "ut_addr ?t = ap" "ut_closed ?t = False"
      by (simp_all add: newUDPTransport_def)
    have "distinct (map fst (us_byToken n')) \<and> int (length (us_byToken n')) \<le> us_maxConnections n'"
      using new dist True length_update_le [of token "n_nextUDP n" "us_byToken n"] by (simp add: distinct_update)
    moreover have "maps_ok (map_of (us_byToken n')) (map_of (us_byAddr n')) (map_of (us_connIDs n')) (n_nextUDP n')
       (\<lambda>p. ut_token (n_udp n' p)) (\<lambda>p. ut_addr (n_udp n' p)) (\<lambda>p. ut_closed (n_udp n' p))"
      unfolding upd ids using maps_ok_insert [OF maps None, of ap "cm_nextID n + 1"] new by (simp add: update_conv')
    ultimately show ?thesis
      by (simp add: p server_ok_def)
  qed
qed

lemma server_ok_keys: "server_ok n \<Longrightarrow> server_ok (n\<lparr>us_keys := k\<rparr>)"
  by (simp add: server_ok_def)

lemma server_ok_confirm: "server_ok n \<Longrightarrow> server_ok (handleConnConfirm L str data ap wall now n)"
  by (auto simp: handleConnConfirm_def Let_def
      intro!: server_ok_noteDrop server_ok_promote server_ok_keys split: sum.splits option.splits prod.splits)

lemma server_ok_req: "server_ok n \<Longrightarrow> server_ok (handleConnReq L rnd data ap wall n)"
  by (auto simp: handleConnReq_def Let_def server_ok_def split: sum.splits option.splits)

lemma routeFor_cases: "routeFor token ap now n = (n, None) \<or> routeFor token ap now n = (noteDrop SourceMismatch now n, None) \<or>
  (\<exists>p. routeFor token ap now n = (n, Some p) \<and> map_of (us_byToken n) token = Some p \<and> ut_addr (n_udp n p) = ap)"
  by (auto simp: routeFor_def split: option.splits)

lemma server_ok_disconnect:
  assumes "server_ok n"
  shows "server_ok (handleDisconnectPacket L token counter aad sealed ap now n)"
proof -
  have keep: "same_peer t (noteInboundDrop AuthFailure now (t\<lparr>ut_crypto := s\<rparr>))" "same_peer t (t\<lparr>ut_crypto := s\<rparr>)" for t s
    by (simp_all add: same_peer_def noteInboundDrop_def)
  show ?thesis
    using routeFor_cases [of token ap now n] assms
    by (auto simp: handleDisconnectPacket_def server_ok_noteDrop
        intro!: server_ok_upd_udp server_ok_remove keep split: prod.splits sum.splits)
qed

lemma dispatch_total: "data \<noteq> [] \<Longrightarrow> \<exists>n'. dispatch L str rnd data ap wall now n = Some n'"
  by (auto simp: dispatch_def Let_def split: sum.splits prod.splits option.splits)

lemma server_ok_dispatch:
  assumes "server_ok n" and "dispatch L str rnd data ap wall now n = Some n'"
  shows "server_ok n'"
proof -
  have routed: "server_ok n'" if "same_peer_all f" and
    "(case routeFor token ap now n of (n1, None) \<Rightarrow> Some n1 | (n1, Some p) \<Rightarrow> Some (upd_udp p f n1)) = Some n'" for f token
    using routeFor_cases [of token ap now n] assms(1) that
    by (auto simp: same_peer_all_def server_ok_noteDrop intro!: server_ok_upd_udp)
  have keep: "same_peer_all (handleUnreliable L c a s now)" "same_peer_all (handleReliable L q c a s now)"
    "same_peer_all (handleACK L c a s now)" for q c a s
    by (simp_all add: same_peer_all_def peer)
  show ?thesis
    using assms(2) assms(1)
    by (auto simp: dispatch_def Let_def server_ok_req server_ok_confirm server_ok_disconnect
        split: if_splits sum.splits intro: routed keep)
qed

text \<open>What can happen to the package: datagrams, ticks, removals, sends, drains, upgrades.\<close>

datatype net_event =
    Datagram "(octets \<times> addr_port) option" "octets option" int int
  | Tick nat int int
  | Kick u32
  | SendTo u32 octets int
  | SendReliableTo u32 octets int
  | InjectTo u32 octets int
  | DrainFrom u32
  | DrainOpsFrom u32
  | Upgrade string

text \<open>A datagram the read loop could not survive would leave no state; \<open>Run_step_total\<close> shows there is none.\<close>

fun net_step :: "crypto_lib \<Rightarrow> (addr_port \<Rightarrow> string) \<Rightarrow> net_event \<Rightarrow> net \<Rightarrow> net" where
  "net_step L str (Datagram pkt rnd wall now) n = (case Run_step L str rnd pkt wall now n of Some n' \<Rightarrow> n' | None \<Rightarrow> n)"
| "net_step L str (Tick p now clock) n = (if p < n_nextUDP n then fst (maintenanceTick L p now clock n) else n)"
| "net_step L str (Kick cid) n = cm_Remove L cid n"
| "net_step L str (SendTo cid data now) n = fst (cm_Send L cid data now n)"
| "net_step L str (SendReliableTo cid data now) n = fst (cm_SendReliable L cid data now n)"
| "net_step L str (InjectTo cid data now) n = cm_InjectInput cid data now n"
| "net_step L str (DrainFrom cid) n = fst (cm_DrainInput cid n)"
| "net_step L str (DrainOpsFrom cid) n = fst (cm_DrainOpInput cid n)"
| "net_step L str (Upgrade addr) n = fst (HandleWebSocket_open addr n)"

lemma Run_step_total: "\<exists>n'. Run_step L str rnd pkt wall now n = Some n'"
  using dispatch_total by (auto simp: Run_step_def split: option.splits prod.splits)

lemma server_ok_step: "server_ok n \<Longrightarrow> server_ok (net_step L str e n)"
proof (cases e)
  case (Datagram pkt rnd wall now)
  assume ok: "server_ok n"
  obtain n' where n': "Run_step L str rnd pkt wall now n = Some n'"
    using Run_step_total by blast
  then have "server_ok n'"
    using ok by (auto simp: Run_step_def split: option.splits prod.splits if_splits intro: server_ok_dispatch)
  then show ?thesis
    by (simp add: Datagram n')
next
  case (Upgrade addr)
  assume "server_ok n"
  then show ?thesis
    by (cases "addr = []") (simp_all add: Upgrade HandleWebSocket_open_def registerTransport_def Let_def server_ok_def)
qed (simp_all add: server_ok_tick server_ok_cm)


section \<open>Strangers and sessions\<close>

definition untouched :: "nat \<Rightarrow> net \<Rightarrow> net \<Rightarrow> bool" where
  "untouched p n n' \<longleftrightarrow> n_udp n' p = n_udp n p \<and> map_of (us_connIDs n') p = map_of (us_connIDs n) p \<and>
     (\<forall>token. map_of (us_byToken n) token = Some p \<longrightarrow> map_of (us_byToken n') token = Some p)"

lemma untouched_refl: "untouched p n n"
  by (simp add: untouched_def)

lemma untouched_trans: "untouched p n n' \<Longrightarrow> untouched p n' n'' \<Longrightarrow> untouched p n n''"
  by (simp add: untouched_def)

lemma untouched_maps: "same_maps n n' \<Longrightarrow> n_udp n' p = n_udp n p \<Longrightarrow> untouched p n n'"
  by (simp add: untouched_def same_maps_def)

lemma upd_maps [simp]: "same_maps n (upd_udp q f n)"
  by (simp add: upd_udp_def same_maps_def)

lemma untouched_upd: "q \<noteq> p \<Longrightarrow> untouched p n (upd_udp q f n)"
  by (rule untouched_maps) (simp_all add: upd_udp_def same_maps_def)

lemma untouched_forget:
  assumes "server_ok n" and "q \<noteq> p"
  shows "untouched p n (fst (forgetTransport q n))"
  using assms(2) unfolding untouched_def forgetTransport_maps [OF assms(1)] forgetTransport_fields(4) by simp

lemma untouched_Close:
  assumes "server_ok n" and "q \<noteq> p"
  shows "untouched p n (udp_Close L q n)"
proof (cases "ut_closed (n_udp n q)")
  case True
  then show ?thesis by (simp add: udp_Close_def untouched_refl)
next
  case False
  then obtain t where t: "same_maps (fst (forgetTransport q n)) (udp_Close L q n)" "n_udp (udp_Close L q n) = (n_udp n)(q := t)"
    using udp_Close_effect by blast
  then have "untouched p (fst (forgetTransport q n)) (udp_Close L q n)"
    using assms(2) by (intro untouched_maps) (simp_all add: forgetTransport_fields(4))
  with untouched_forget [OF assms] show ?thesis
    by (rule untouched_trans)
qed

lemma untouched_remove:
  assumes "server_ok n" and "q \<noteq> p"
  shows "untouched p n (removeTransport L q n)"
proof -
  obtain n1 cid where f: "forgetTransport q n = (n1, cid)"
    by (cases "forgetTransport q n")
  have "untouched p n n1" "server_ok n1"
    using untouched_forget [OF assms] server_ok_forget [OF assms(1), of q] by (simp_all add: f)
  then have "untouched p n (udp_Close L q n1)"
    using untouched_trans untouched_Close assms(2) by blast
  moreover from this have "untouched p n (Unregister c (udp_Close L q n1))" for c
    by (rule untouched_trans) (simp add: untouched_maps)
  ultimately show ?thesis
    by (cases cid) (simp_all add: removeTransport_def f)
qed

lemma untouched_promote:
  assumes "server_ok n" and "p < n_nextUDP n"
  shows "untouched p n (fst (promoteConfirmed str token ap c sv sess entry now n))"
proof (cases "map_of (us_byToken n) token")
  case (Some q)
  then show ?thesis by (simp add: promote_old untouched_refl)
next
  case None
  show ?thesis
  proof (cases "int (length (us_byToken n)) < us_maxConnections n")
    case False
    then show ?thesis using None by (simp add: promote_full untouched_maps)
  next
    case True
    obtain n' r where pr: "promoteConfirmed str token ap c sv sess entry now n = (n', r)"
      by (cases "promoteConfirmed str token ap c sv sess entry now n")
    have "map_of (us_byToken n) k = Some p \<Longrightarrow> k \<noteq> token" for k
      using None by auto
    then show ?thesis
      using promote_new [OF None True pr] assms(2) by (simp add: pr untouched_def update_conv')
  qed
qed

lemma untouched_keys: "untouched p n (n\<lparr>us_keys := k\<rparr>)" "untouched p n (noteDrop d now n)"
  by (rule untouched_maps; simp add: same_maps_def [of n "n\<lparr>us_keys := k\<rparr>"])+

lemma untouched_confirm:
  assumes "server_ok n" and "p < n_nextUDP n"
  shows "untouched p n (handleConnConfirm L str data ap wall now n)"
proof -
  have prom: "untouched p n (fst (promoteConfirmed str token ap c sv sess entry now (n\<lparr>us_keys := k\<rparr>)))" for token c sv sess entry k
    by (rule untouched_trans [OF untouched_keys(1) untouched_promote]) (use assms server_ok_keys in simp_all)
  have drop: "untouched p n (noteDrop d now (n\<lparr>us_keys := k\<rparr>))" for d k
    by (rule untouched_trans [OF untouched_keys])
  show ?thesis
    by (auto simp: handleConnConfirm_def Let_def untouched_refl untouched_keys prom drop split: sum.splits option.splits prod.splits)
qed

lemma untouched_disconnect:
  assumes "server_ok n" and "ut_addr (n_udp n p) \<noteq> ap"
  shows "untouched p n (handleDisconnectPacket L token counter aad sealed ap now n)"
proof -
  have rem: "untouched p n (removeTransport L q (upd_udp q (\<lambda>t. t\<lparr>ut_crypto := s\<rparr>) n))" if "q \<noteq> p" for q s
  proof (rule untouched_trans [OF untouched_upd [OF that] untouched_remove [OF _ that]])
    show "server_ok (upd_udp q (\<lambda>t. t\<lparr>ut_crypto := s\<rparr>) n)"
      by (rule server_ok_upd_udp [OF assms(1)]) (simp add: same_peer_def)
  qed
  show ?thesis
    using routeFor_cases [of token ap now n] assms(2)
    by (auto simp: handleDisconnectPacket_def untouched_refl untouched_keys split: prod.splits sum.splits
        intro!: rem untouched_upd)
qed

text \<open>
  C7. Only packets from its own address reach a session. Whatever a datagram contains, valid token,
  replayed bytes and disconnects included, a session bound to another address than the one it came
  from keeps its whole state and its place in the maps; the listener replies to such packets with
  nothing that depends on it.
\<close>

theorem strangers_cannot_touch_a_session:
  assumes "server_ok n" and "dispatch L str rnd data ap wall now n = Some n'"
    and "p < n_nextUDP n" and "ut_addr (n_udp n p) \<noteq> ap"
  shows "n_udp n' p = n_udp n p \<and> map_of (us_connIDs n') p = map_of (us_connIDs n) p \<and>
    (\<forall>token. map_of (us_byToken n) token = Some p \<longrightarrow> map_of (us_byToken n') token = Some p)"
proof -
  have req: "untouched p n (handleConnReq L rnd data ap wall n)"
    by (rule untouched_maps) (auto simp: handleConnReq_def same_maps_def Let_def split: sum.splits option.splits)
  have routed: "untouched p n n'" if
    "(case routeFor token ap now n of (n1, None) \<Rightarrow> Some n1 | (n1, Some q) \<Rightarrow> Some (upd_udp q f n1)) = Some n'" for f token
    using routeFor_cases [of token ap now n] assms(4) that
    by (auto simp: untouched_refl untouched_keys intro!: untouched_upd)
  have "untouched p n n'"
    using assms(2) req untouched_confirm [OF assms(1,3), of L str data ap wall now] untouched_disconnect [OF assms(1,4)]
    by (auto simp: dispatch_def Let_def untouched_refl split: if_splits sum.splits intro: routed)
  then show ?thesis
    by (simp add: untouched_def)
qed

section \<open>How sessions begin\<close>

definition no_new :: "net \<Rightarrow> net \<Rightarrow> bool" where
  "no_new n n' \<longleftrightarrow> (\<forall>token p. map_of (us_byToken n') token = Some p \<longrightarrow> map_of (us_byToken n) token = Some p)"

lemma no_new_maps: "same_maps n n' \<Longrightarrow> no_new n n'"
  by (simp add: no_new_def same_maps_def)

lemma no_new_refl: "no_new n n"
  by (simp add: no_new_def)

lemma no_new_trans: "no_new n n' \<Longrightarrow> no_new n' n'' \<Longrightarrow> no_new n n''"
  by (simp add: no_new_def)

lemma no_new_forget: "server_ok n \<Longrightarrow> no_new n (fst (forgetTransport p n))"
  unfolding no_new_def by (simp add: forgetTransport_maps)

lemma no_new_Close:
  assumes "server_ok n"
  shows "no_new n (udp_Close L p n)"
proof (cases "ut_closed (n_udp n p)")
  case True
  then show ?thesis by (simp add: udp_Close_def no_new_def)
next
  case False
  then have "same_maps (fst (forgetTransport p n)) (udp_Close L p n)"
    using udp_Close_effect by blast
  from no_new_trans [OF no_new_forget [OF assms] no_new_maps [OF this]] show ?thesis .
qed

lemma no_new_remove:
  assumes "server_ok n"
  shows "no_new n (removeTransport L p n)"
proof -
  obtain n1 cid where f: "forgetTransport p n = (n1, cid)"
    by (cases "forgetTransport p n")
  have "no_new n n1" "server_ok n1"
    using no_new_forget [OF assms, of p] server_ok_forget [OF assms, of p] by (simp_all add: f)
  then have closed: "no_new n (udp_Close L p n1)"
    using no_new_trans no_new_Close by blast
  then have "no_new n (Unregister c (udp_Close L p n1))" for c
    by (rule no_new_trans [OF _ no_new_maps]) simp
  with closed show ?thesis
    by (cases cid) (simp_all add: removeTransport_def f)
qed

lemma no_new_disconnect:
  assumes "server_ok n"
  shows "no_new n (handleDisconnectPacket L token counter aad sealed ap now n)"
proof -
  have upd: "same_maps n (upd_udp q f n)" for q f
    by (simp add: upd_udp_def same_maps_def)
  have rem: "no_new n (removeTransport L q (upd_udp q (\<lambda>t. t\<lparr>ut_crypto := s\<rparr>) n))" for q s
    by (rule no_new_trans [OF no_new_maps [OF upd] no_new_remove [OF server_ok_upd_udp [OF assms]]])
       (simp add: same_peer_def)
  show ?thesis
    using routeFor_cases [of token ap now n]
    by (auto simp: handleDisconnectPacket_def no_new_maps upd same_maps_refl split: prod.splits sum.splits intro!: rem)
qed

text \<open>What a confirm that opens a session went through.\<close>

definition confirm_admits ::
  "crypto_lib \<Rightarrow> octets \<Rightarrow> addr_port \<Rightarrow> int \<Rightarrow> net \<Rightarrow> u64 \<Rightarrow> u64 \<Rightarrow> UDPKeyEntry \<Rightarrow> session \<Rightarrow> bool" where
  "confirm_admits L data ap wall n c sv entry sess \<longleftrightarrow>
     (\<exists>keyID cookie keys. DecodeConnConfirm data = Inr (keyID, c, sv, cookie) \<and>
        Verify L (us_cookies n) cookie ap c sv wall \<and>
        us_keys n = Some keys \<and> snd (Key_Lookup keys keyID wall) = Inr entry \<and>
        NewSession L (ke_Key entry) RoleServer (SessionSalt c sv) = Some sess)"

lemma confirm_admitted:
  assumes "confirm_admits L data ap wall n c sv entry sess"
  obtains keys' where "handleConnConfirm L str data ap wall now n =
    fst (promoteConfirmed str (MakeToken c sv) ap c sv sess entry now (n\<lparr>us_keys := Some keys'\<rparr>))"
proof -
  obtain keyID cookie keys where "DecodeConnConfirm data = Inr (keyID, c, sv, cookie)"
    "Verify L (us_cookies n) cookie ap c sv wall" "us_keys n = Some keys" "snd (Key_Lookup keys keyID wall) = Inr entry"
    "NewSession L (ke_Key entry) RoleServer (SessionSalt c sv) = Some sess"
    using assms by (auto simp: confirm_admits_def)
  moreover obtain keys' where "Key_Lookup keys keyID wall = (keys', Inr entry)"
    using calculation(4) by (cases "Key_Lookup keys keyID wall") simp
  ultimately have "handleConnConfirm L str data ap wall now n =
    fst (promoteConfirmed str (MakeToken c sv) ap c sv sess entry now (n\<lparr>us_keys := Some keys'\<rparr>))"
    by (simp add: handleConnConfirm_def)
  then show ?thesis by (rule that)
qed

lemma confirm_refused:
  assumes "\<nexists>c sv entry sess. confirm_admits L data ap wall n c sv entry sess"
  shows "no_new n (handleConnConfirm L str data ap wall now n)"
proof -
  have k: "no_new n (noteDrop d now (n\<lparr>us_keys := q\<rparr>))" "no_new n (noteDrop d now n)" for d q
    by (rule no_new_trans [OF no_new_maps no_new_maps [OF noteDrop_maps(1)]], simp add: same_maps_def)
       (rule no_new_maps [OF noteDrop_maps(1)])
  have "confirm_admits L data ap wall n c sv entry sess"
    if "DecodeConnConfirm data = Inr (keyID, c, sv, cookie)" "Verify L (us_cookies n) cookie ap c sv wall"
      "us_keys n = Some keys" "Key_Lookup keys keyID wall = (keys', Inr entry)"
      "NewSession L (ke_Key entry) RoleServer (SessionSalt c sv) = Some sess" for keyID c sv cookie keys keys' entry sess
    using that by (auto simp: confirm_admits_def)
  then have stop: "False" if "DecodeConnConfirm data = Inr (keyID, c, sv, cookie)" "Verify L (us_cookies n) cookie ap c sv wall"
      "us_keys n = Some keys" "Key_Lookup keys keyID wall = (keys', Inr entry)"
      "NewSession L (ke_Key entry) RoleServer (SessionSalt c sv) = Some sess" for keyID c sv cookie keys keys' entry sess
    using that assms by blast
  then show ?thesis
    by (auto simp: handleConnConfirm_def Let_def k no_new_refl dest: stop split: sum.splits option.splits prod.splits)
qed

lemma confirm_opens:
  assumes "confirm_admits L data ap wall n c sv entry sess" and "map_of (us_byToken n) (MakeToken c sv) = None"
    and "int (length (us_byToken n)) < us_maxConnections n" and "n' = handleConnConfirm L str data ap wall now n"
  shows "map_of (us_byToken n') = (map_of (us_byToken n))(MakeToken c sv \<mapsto> n_nextUDP n) \<and>
    n_udp n' (n_nextUDP n) = newUDPTransport ap (MakeToken c sv) c sv (us_limits n) sess now \<and>
    us_announced n' = us_announced n @
      (if us_onAuthenticated n then [(cm_nextID n + 1, ke_UserID entry, ke_Username entry)] else [])"
proof -
  obtain keys' where "n' = fst (promoteConfirmed str (MakeToken c sv) ap c sv sess entry now (n\<lparr>us_keys := Some keys'\<rparr>))"
    using confirm_admitted [OF assms(1), of str now] assms(4) by metis
  then obtain r where "promoteConfirmed str (MakeToken c sv) ap c sv sess entry now (n\<lparr>us_keys := Some keys'\<rparr>) = (n', r)"
    by (metis prod.collapse)
  from promote_new [OF _ _ this] show ?thesis
    using assms(2,3) by (simp add: update_conv')
qed

text \<open>
  C8. A session begins only with proof. Whenever a datagram makes a token name a session it did not
  name before, the datagram is a connection confirm whose cookie verifies for the very address it
  came from, whose key identifier resolves to an unexpired key, and whose salts yield that token; the
  session is bound to that address, starts with the traffic keys of that key and those salts, and the
  identity announced to the gateway, if any, is the one the key was issued for.
\<close>

theorem sessions_begin_with_proof:
  assumes "server_ok n" and "dispatch L str rnd data ap wall now n = Some n'"
    and "map_of (us_byToken n') token = Some p" and "map_of (us_byToken n) token \<noteq> Some p"
  shows "\<exists>c sv entry sess. confirm_admits L data ap wall n c sv entry sess \<and> token = MakeToken c sv \<and>
    n_udp n' p = newUDPTransport ap token c sv (us_limits n) sess now \<and>
    us_announced n' = us_announced n @
      (if us_onAuthenticated n then [(cm_nextID n + 1, ke_UserID entry, ke_Username entry)] else [])"
proof -
  have new: "\<not> no_new n n'"
    using assms(3,4) by (auto simp: no_new_def)
  have req: "same_maps n (handleConnReq L rnd data ap wall n)"
    by (auto simp: handleConnReq_def same_maps_def Let_def split: sum.splits option.splits)
  have routed: "no_new n n'" if
    "(case routeFor k ap now n of (n1, None) \<Rightarrow> Some n1 | (n1, Some q) \<Rightarrow> Some (upd_udp q f n1)) = Some n'" for f k
    using routeFor_cases [of k ap now n] that
    by (auto simp: no_new_refl no_new_maps upd_maps)
  have "no_new n n' \<or> n' = handleConnConfirm L str data ap wall now n"
    using assms(2) no_new_maps [OF req] no_new_disconnect [OF assms(1), of L _ _ _ _ ap now]
    by (auto simp: dispatch_def Let_def no_new_refl split: if_splits sum.splits intro: routed)
  with new have conf: "n' = handleConnConfirm L str data ap wall now n"
    by simp
  then obtain c sv entry sess where adm: "confirm_admits L data ap wall n c sv entry sess"
    using confirm_refused [of L data ap wall n str now] new by auto
  obtain keys' where pr: "n' = fst (promoteConfirmed str (MakeToken c sv) ap c sv sess entry now (n\<lparr>us_keys := Some keys'\<rparr>))"
    using confirm_admitted [OF adm, of str now] conf by metis
  have "map_of (us_byToken n) (MakeToken c sv) = None"
  proof (cases "map_of (us_byToken n) (MakeToken c sv)")
    case (Some q)
    then have "no_new n n'"
      using pr by (simp add: promote_old no_new_def)
    with new show ?thesis by simp
  qed simp
  moreover have "int (length (us_byToken n)) < us_maxConnections n"
  proof (rule ccontr)
    assume full: "\<not> int (length (us_byToken n)) < us_maxConnections n"
    have "n' = noteDrop Capacity now (n\<lparr>us_keys := Some keys'\<rparr>)"
      using pr promote_full [of "n\<lparr>us_keys := Some keys'\<rparr>" "MakeToken c sv"] full calculation by simp
    then have "no_new n n'"
      using no_new_trans [OF no_new_maps no_new_maps [OF noteDrop_maps(1)], of n "n\<lparr>us_keys := Some keys'\<rparr>"]
      by (simp add: same_maps_def)
    with new show False by simp
  qed
  ultimately have opened: "map_of (us_byToken n') = (map_of (us_byToken n))(MakeToken c sv \<mapsto> n_nextUDP n)"
    "n_udp n' (n_nextUDP n) = newUDPTransport ap (MakeToken c sv) c sv (us_limits n) sess now"
    "us_announced n' = us_announced n @
      (if us_onAuthenticated n then [(cm_nextID n + 1, ke_UserID entry, ke_Username entry)] else [])"
    using confirm_opens [OF adm _ _ conf] by auto
  moreover have "token = MakeToken c sv" "p = n_nextUDP n"
    using opened(1) assms(3,4) by (auto split: if_splits)
  ultimately show ?thesis
    using adm by blast
qed

text \<open>
  C9. A replayed confirm restarts the keystream. The confirm packet is not bound to a session it has
  opened: if it opened one in state \<open>n1\<close>, then in any later state in which that session is gone
  (disconnected, timed out or kicked), while the cookie still verifies and the key is still held, the
  same bytes open another session whose cryptographic state equals the initial one of the first: the
  same keys in both directions, the send counter at zero and an empty replay window. The packets the
  server seals next reuse the nonces of the first session under the same key, and the packets it
  accepted before authenticate again.
\<close>

theorem replayed_confirm_restarts_the_session:
  assumes "confirm_admits L data ap wall1 n1 c sv entry sess1" and "confirm_admits L data ap wall2 n2 c sv entry sess2"
    and "map_of (us_byToken n1) (MakeToken c sv) = None" and "map_of (us_byToken n2) (MakeToken c sv) = None"
    and "int (length (us_byToken n1)) < us_maxConnections n1" and "int (length (us_byToken n2)) < us_maxConnections n2"
  shows "let n1' = handleConnConfirm L str data ap wall1 now1 n1;
             n2' = handleConnConfirm L str data ap wall2 now2 n2;
             t1 = n_udp n1' (n_nextUDP n1); t2 = n_udp n2' (n_nextUDP n2)
    in map_of (us_byToken n1') (MakeToken c sv) = Some (n_nextUDP n1) \<and>
       map_of (us_byToken n2') (MakeToken c sv) = Some (n_nextUDP n2) \<and>
       ut_crypto t2 = ut_crypto t1 \<and> ss_sendCtr (ut_crypto t2) = 0 \<and>
       snd (SealWithHeader L (ut_crypto t1) body1 hdr) =
         Inr (hdr 1, aead_seal L (ss_send (ut_crypto t1)) (nonceFor 1) body1 (hdr 1)) \<and>
       snd (SealWithHeader L (ut_crypto t2) body2 hdr) =
         Inr (hdr 1, aead_seal L (ss_send (ut_crypto t1)) (nonceFor 1) body2 (hdr 1))"
proof -
  have sess: "sess2 = sess1" "ss_sendCtr sess1 = 0"
    using assms(1,2) session_fresh by (auto simp: confirm_admits_def)
  have "(1 :: u64) \<le> maxCounter" "maxCounter \<noteq> 0"
    by (simp_all add: word_le_nat_alt unat_maxCounter word_unat_eq_iff)
  then show ?thesis
    using confirm_opens [OF assms(1,3,5) refl, of str now1] confirm_opens [OF assms(2,4,6) refl, of str now2] sess
    by (simp add: Let_def newUDPTransport_def SealWithHeader_def not_less)
qed

lemma lookup_again:
  assumes "snd (Key_Lookup r k w) = Inr e" and "w' < ke_ExpiresAt e"
  shows "snd (Key_Lookup (fst (Key_Lookup r k w)) k w') = Inr e"
  using assms by (auto simp: Key_Lookup_def split: option.splits if_splits)

lemma removed_token:
  assumes "server_ok n" and "map_of (us_byToken n) token = Some p"
  shows "map_of (us_byToken (removeTransport L p n)) token = None"
proof -
  obtain n1 cid where f: "forgetTransport p n = (n1, cid)"
    by (cases "forgetTransport p n")
  have n1: "server_ok n1" "map_of (us_byToken n1) token = None"
    using server_ok_forget [OF assms(1), of p] forgetTransport_maps(1) [OF assms(1), of p] assms(2) by (simp_all add: f)
  then have closed: "map_of (us_byToken (udp_Close L p n1)) token = None"
    using no_new_Close [OF n1(1), of L p] unfolding no_new_def by (metis not_None_eq)
  have "us_byToken (Unregister c m) = us_byToken m" for c m
    by (simp add: Unregister_def)
  with closed show ?thesis
    by (cases cid) (simp_all add: removeTransport_def f Let_def)
qed

lemma remove_length: "length (us_byToken (removeTransport L p n)) \<le> length (us_byToken n)"
proof -
  obtain n1 cid where f: "forgetTransport p n = (n1, cid)"
    by (cases "forgetTransport p n")
  have "length (us_byToken (udp_Close L p n1)) \<le> length (us_byToken n1)"
  proof (cases "ut_closed (n_udp n1 p)")
    case False
    then have "us_byToken (udp_Close L p n1) = us_byToken (fst (forgetTransport p n1))"
      using udp_Close_effect [OF False, of L] by (auto simp: same_maps_def)
    then show ?thesis
      using forget_length by simp
  qed (simp add: udp_Close_def)
  moreover have "length (us_byToken n1) \<le> length (us_byToken n)"
    using forget_length [of p n] by (simp add: f)
  ultimately show ?thesis
    by (cases cid) (simp_all add: removeTransport_def f Unregister_def Let_def)
qed

lemma confirm_config:
  assumes "confirm_admits L data ap wall n c sv entry sess" and "DecodeConnConfirm data = Inr (keyID, c, sv, cookie)"
    and "us_keys n = Some keys" and "n' = handleConnConfirm L str data ap wall now n"
  shows "us_cookies n' = us_cookies n \<and> us_maxConnections n' = us_maxConnections n \<and>
    us_keys n' = Some (fst (Key_Lookup keys keyID wall)) \<and> length (us_byToken n') \<le> Suc (length (us_byToken n))"
proof -
  have "Verify L (us_cookies n) cookie ap c sv wall" "snd (Key_Lookup keys keyID wall) = Inr entry"
    "NewSession L (ke_Key entry) RoleServer (SessionSalt c sv) = Some sess"
    using assms(1,2,3) by (auto simp: confirm_admits_def)
  moreover from this obtain keys' where look: "Key_Lookup keys keyID wall = (keys', Inr entry)"
    by (cases "Key_Lookup keys keyID wall") simp
  ultimately have "n' = fst (promoteConfirmed str (MakeToken c sv) ap c sv sess entry now (n\<lparr>us_keys := Some keys'\<rparr>))"
    using assms by (simp add: handleConnConfirm_def)
  then show ?thesis
    using length_update_le [of "MakeToken c sv" "n_nextUDP n" "us_byToken n"]
    by (cases "str ap = []")
       (auto simp: promoteConfirmed_def AddTransport_def registerTransport_def noteDrop_def look Let_def split: option.splits)
qed

section \<open>An example run\<close>

definition demo_signer :: cookie_signer where
  "demo_signer = \<lparr>ck_secret = [], ck_slot = defaultCookieSlot\<rparr>"

definition demo_entry :: UDPKeyEntry where
  "demo_entry = \<lparr>ke_Key = [], ke_UserID = ''u1'', ke_Username = ''ann'', ke_ExpiresAt = 300000000000\<rparr>"

definition demo_keys :: UDPKeyRegistry where
  "demo_keys = (NewUDPKeyRegistry 0 0)\<lparr>kr_entries := [(7, demo_entry)]\<rparr>"

definition demo_server :: net where
  "demo_server = SetOnAuthenticated True (SetKeyRegistry (Some demo_keys) (SetMaxConnections 0
     (NewUDPServer demo_signer demo_socket (\<lambda>_. newConn 0 DefaultWireLimits) (\<lambda>_. demo_transport))))"

definition demo_confirm :: octets where
  "demo_confirm = EncodeConnConfirm 7 4 5 (Mint demo_lib demo_signer (IPv4 1, 2) 4 5 0)"

definition demo_connected :: net where
  "demo_connected = handleConnConfirm demo_lib (\<lambda>_. ''peer'') demo_confirm (IPv4 1, 2) 1000000000 1 demo_server"

definition demo_sess :: session where
  "demo_sess = the (NewSession demo_lib [] RoleServer (SessionSalt 4 5))"

lemma demo_server_ok: "server_ok demo_server"
  by (simp add: server_ok_def maps_ok_def demo_server_def SetOnAuthenticated_def SetKeyRegistry_def
      SetMaxConnections_def NewUDPServer_def)

lemma demo_connected_ok: "server_ok demo_connected"
  unfolding demo_connected_def by (rule server_ok_confirm [OF demo_server_ok])

lemma demo_server_fields:
  "us_cookies demo_server = demo_signer" "us_keys demo_server = Some demo_keys" "us_byToken demo_server = []"
  "n_nextUDP demo_server = 0" "us_maxConnections demo_server = 1024"
  by (simp_all add: demo_server_def SetOnAuthenticated_def SetKeyRegistry_def SetMaxConnections_def NewUDPServer_def)

lemma demo_cookie_size: "length (Mint demo_lib demo_signer (IPv4 1, 2) 4 5 0) = 16"
  by (simp add: Mint_def cookie_compute_def demo_lib_def HandshakeCookieSize_def)

lemma demo_confirm_decodes: "DecodeConnConfirm demo_confirm = Inr (7, 4, 5, Mint demo_lib demo_signer (IPv4 1, 2) 4 5 0)"
  unfolding conn_confirm_exact by (auto simp: demo_confirm_def demo_cookie_size CookieSize_def)

lemma demo_sess_new: "NewSession demo_lib [] RoleServer (SessionSalt 4 5) = Some demo_sess"
  unfolding demo_sess_def by (simp add: NewSession_def deriveKey_def newAEAD_def demo_lib_def KeySize_def)

lemma demo_admits:
  assumes "us_cookies n = demo_signer" and "us_keys n = Some keys" and "snd (Key_Lookup keys 7 wall) = Inr demo_entry"
    and "0 \<le> wall" and "wall < 15000000000"
  shows "confirm_admits demo_lib demo_confirm (IPv4 1, 2) wall n 4 5 demo_entry demo_sess"
proof -
  have "slotOf demo_signer wall = 0" "slotOf demo_signer 0 = 0"
    using assms(4,5) by (simp_all add: slotOf_def demo_signer_def defaultCookieSlot_def)
  then have "Verify demo_lib demo_signer (Mint demo_lib demo_signer (IPv4 1, 2) 4 5 0) (IPv4 1, 2) 4 5 wall"
    using demo_cookie_size by (simp add: Verify_def Mint_def HandshakeCookieSize_def)
  moreover have "ke_Key demo_entry = []"
    by (simp add: demo_entry_def)
  ultimately show ?thesis
    using assms demo_confirm_decodes demo_sess_new by (auto simp: confirm_admits_def)
qed

lemma demo_lookup: "0 \<le> wall \<Longrightarrow> wall < 15000000000 \<Longrightarrow> snd (Key_Lookup demo_keys 7 wall) = Inr demo_entry"
  by (simp add: Key_Lookup_def demo_keys_def demo_entry_def)

lemma demo_admits_first: "confirm_admits demo_lib demo_confirm (IPv4 1, 2) 1000000000 demo_server 4 5 demo_entry demo_sess"
  by (rule demo_admits [OF demo_server_fields(1,2) demo_lookup]) simp_all

lemma demo_connected_fields:
  "map_of (us_byToken demo_connected) (MakeToken 4 5) = Some 0"
  "n_udp demo_connected 0 = newUDPTransport (IPv4 1, 2) (MakeToken 4 5) 4 5 (us_limits demo_server) demo_sess 1"
  using confirm_opens [OF demo_admits_first _ _ demo_connected_def] by (simp_all add: demo_server_fields)

lemma demo_connected_live: "0 < n_nextUDP demo_connected"
  using maps_okD(1) [where B="map_of (us_byToken demo_connected)" and token="MakeToken 4 5"]
    demo_connected_ok demo_connected_fields(1) unfolding server_ok_def by blast


theorem strangers_cannot_touch_a_session_witness:
  "\<exists>n'. dispatch demo_lib (\<lambda>_. []) None (EncodeDisconnectHeader 1 1 @ demo_tag [1]) (IPv4 9, 9) 2 2 demo_connected = Some n' \<and>
     n_udp n' 0 = n_udp demo_connected 0"
proof -
  have "EncodeDisconnectHeader 1 1 @ demo_tag [1] \<noteq> []"
    by (simp add: EncodeDisconnectHeader_def)
  from dispatch_total [OF this, of demo_lib "\<lambda>_. []" None "(IPv4 9, 9)" 2 2 demo_connected]
  obtain n' where n': "dispatch demo_lib (\<lambda>_. []) None (EncodeDisconnectHeader 1 1 @ demo_tag [1]) (IPv4 9, 9) 2 2 demo_connected = Some n'"
    by (rule exE)
  have "ut_addr (n_udp demo_connected 0) \<noteq> (IPv4 9, 9)"
    by (simp add: demo_connected_fields newUDPTransport_def)
  from strangers_cannot_touch_a_session [OF demo_connected_ok n' demo_connected_live this] n' show ?thesis
    by blast
qed

theorem sessions_begin_with_proof_witness:
  "\<exists>c sv entry sess. confirm_admits demo_lib demo_confirm (IPv4 1, 2) 1000000000 demo_server c sv entry sess \<and>
     MakeToken 4 5 = MakeToken c sv"
proof -
  have "demo_confirm ! 0 = TypeConnConfirm" "demo_confirm \<noteq> []"
    by (simp_all add: demo_confirm_def EncodeConnConfirm_def)
  then have n': "dispatch demo_lib (\<lambda>_. ''peer'') None demo_confirm (IPv4 1, 2) 1000000000 1 demo_server = Some demo_connected"
    by (simp add: dispatch_def demo_connected_def packet_types)
  have "map_of (us_byToken demo_server) (MakeToken 4 5) \<noteq> Some 0"
    by (simp add: demo_server_fields)
  from sessions_begin_with_proof [OF demo_server_ok n' demo_connected_fields(1) this] show ?thesis
    by blast
qed

theorem replayed_confirm_restarts_the_session_witness:
  "ut_crypto (n_udp (handleConnConfirm demo_lib (\<lambda>_. ''peer'') demo_confirm (IPv4 1, 2) 9000000000 9
       (removeTransport demo_lib 0 demo_connected)) (n_nextUDP demo_connected)) =
   ut_crypto (n_udp demo_connected 0)"
proof -
  let ?n = "removeTransport demo_lib 0 demo_connected"
  have conn: "us_cookies demo_connected = demo_signer" "us_maxConnections demo_connected = 1024"
    "us_keys demo_connected = Some (fst (Key_Lookup demo_keys 7 1000000000))" "length (us_byToken demo_connected) \<le> 1"
    using confirm_config [OF demo_admits_first demo_confirm_decodes demo_server_fields(2) demo_connected_def]
    by (simp_all add: demo_server_fields)
  have "snd (Key_Lookup (fst (Key_Lookup demo_keys 7 1000000000)) 7 9000000000) = Inr demo_entry"
    by (rule lookup_again [OF demo_lookup]) (simp_all add: demo_entry_def)
  then have adm2: "confirm_admits demo_lib demo_confirm (IPv4 1, 2) 9000000000 ?n 4 5 demo_entry demo_sess"
    using conn by (intro demo_admits) (simp_all add: removeTransport_frame)
  have gone: "map_of (us_byToken ?n) (MakeToken 4 5) = None"
    by (rule removed_token [OF demo_connected_ok demo_connected_fields(1)])
  have "int (length (us_byToken ?n)) < us_maxConnections ?n"
    using remove_length [of demo_lib 0 demo_connected] conn by (simp add: removeTransport_frame)
  then show ?thesis
    using replayed_confirm_restarts_the_session [OF demo_admits_first adm2 _ gone, of "\<lambda>_. ''peer''" 1 9]
    by (simp add: Let_def removeTransport_frame demo_server_fields flip: demo_connected_def)
qed

end
