(* ===== verification/Spec2Isabelle.thy ===== *)
theory Spec2Isabelle
  imports MarketConservation CommitEffects UdpServer
begin

text \<open>
  \<^bold>\<open>A verification library for mmokit.\<close>

  mmokit is a server framework for massively multiplayer games. A world is a quadtree of cells; each
  cell runs its simulation on a host; a coordinator decides which host runs which cell and moves
  cells between hosts; gateways and hosts talk to clients over WebSocket or UDP; a market example
  trades goods through a limit order book. The library models the decision logic of these parts as
  executable functions over explicit states and proves what the parts promise each other. File names
  below are relative to \<open>src/\<close>.

  \<^bold>\<open>Conventions.\<close> Unsigned Go integers are words of their width, so that arithmetic wraps as in the
  source; signed ones are \<^typ>\<open>int\<close> with \<open>wrap32\<close> and \<open>wrap64\<close> written where an overflow can be
  reached. Floating point is rational arithmetic with a rounding step after every operation
  (\<open>GoFloat\<close>). Slices are lists, maps are functions to \<^typ>\<open>'a option\<close> or association lists, \<open>nil\<close>
  is \<open>None\<close>, an error is a value of an \<open>error\<close> datatype, a run-time panic is \<open>None\<close> in the result
  type. What the environment decides is an argument: clock readings, random bytes, the iteration
  order of a Go map, the outcome of a write. A critical section under a mutex is one step of a
  transition relation, so interleavings are sequences of steps. Cryptography, hashing, the socket
  and the database are parameters with the laws the code relies on as named hypotheses.

  \<^bold>\<open>Foundations.\<close>
  \<^item> \<open>GoPrelude\<close>: integer types and wrapping, slices, \<open>sort.Search\<close>, and the generic lemmas on lists
    and association lists the components share.
  \<^item> \<open>GoFloat\<close>: \<open>float32\<close> and \<open>float64\<close> rounding; exactness on integers and dyadic values.

  \<^bold>\<open>The market\<close> (\<open>pkg/orderbook\<close>, \<open>examples/space/internal/marketplace\<close>).
  \<^item> \<open>OrderBook\<close>: one book with its two sorted sides (\<open>types.go\<close>, \<open>book.go\<close>); the contract of a side
    is the locale \<open>priority_side\<close>, interpreted for bids and asks. Insertion keeps price-time
    priority.
  \<^item> \<open>OrderMatching\<close>, \<open>OrderService\<close>, \<open>OrderLifecycle\<close>: the matching loops and every operation of
    \<open>service.go\<close>. Every reachable state satisfies the service invariant, a limit order is a
    price-time fill of the opposite side, an instant purchase stays in its budget, expiry removes
    exactly the due orders.
  \<^item> \<open>OrderEscrow\<close>, \<open>PlayerRepo\<close>, \<open>Settlement\<close>, \<open>MarketConservation\<close>: the players' goods and money
    (\<open>game/playerdb.go\<close>), the settlement that moves them (\<open>settlement.go\<close>) and the proof that no
    sequence of operations creates or loses goods or creates money, with the two inputs for which
    the guards of the source fail.

  \<^bold>\<open>The mesh\<close> (\<open>pkg/universe\<close>).
  \<^item> \<open>CellId\<close>, \<open>Topology\<close>: cell identifiers, their geometry and the neighbour graph (\<open>cell_id.go\<close>,
    \<open>topology.go\<close>). Children tile their parent, adjacency is contact of squares, the incremental
    updates equal recomputation.
  \<^item> \<open>Rendezvous\<close>, \<open>HostRegistry\<close>, \<open>ControlPlane\<close>, \<open>SessionRoutes\<close>, \<open>PlayerDirectory\<close>, \<open>NetIds\<close>,
    \<open>BoundedLogs\<close>: placement, host registry, ownership lookup and remote calls, session routing with
    its epochs, player directory, network identifiers and the bounded logs of the coordinator and of
    the admin interface.
  \<^item> \<open>CellTransfer\<close>: the orchestrator of splits, merges and migrations (\<open>cell_transfer.go\<close>) as a
    transition system: a request ends once, commits only with every acknowledgement, and ends when
    its deadline has passed.
  \<^item> \<open>CommitPlans\<close>, \<open>CommitEffects\<close>: the plans a commit executes (\<open>cell_transfer_commit.go\<close>,
    \<open>commit_plan.go\<close>, \<open>commit_builders_*.go\<close>, \<open>integrity.go\<close>, \<open>conservation.go\<close>), and what they do:
    ownership lookup, neighbour graph and session table agree with the new layout.

  \<^bold>\<open>The client transports\<close> (\<open>pkg/net\<close>).
  \<^item> \<open>UdpProto\<close>: the packet codec (\<open>udpproto/proto.go\<close>); decoders succeed exactly on encodings.
  \<^item> \<open>UdpCrypto\<close>: sessions with their replay window, handshake cookies and the key registry
    (\<open>udpcrypto.go\<close>, \<open>udp_cookie.go\<close>, \<open>udp_keys.go\<close>).
  \<^item> \<open>NetIngress\<close>: limits, send results and the WebSocket connection (\<open>limits.go\<close>, \<open>send_result.go\<close>,
    \<open>conn.go\<close>); the queues of every transport satisfy the locale \<open>bounded_fifo\<close>.
  \<^item> \<open>UdpTransport\<close>: the reliable and unreliable channel of a session (\<open>udp_transport.go\<close>). The
    16-bit window refines a receiver that remembers everything.
  \<^item> \<open>UdpServer\<close>: handshake, routing and removal of sessions (\<open>udp_server.go\<close>, \<open>server.go\<close>); the
    session maps agree in every reachable state, and no datagram from a stranger touches a session.

  \<^bold>\<open>Loops, bounds and fuel.\<close> Every loop of the sources is a structural recursion or a \<open>function\<close>
  with a measure, so the models are total and no fuel is used. Loops that run for the life of a
  process (read pumps, tickers, schedulers) are modelled by one iteration, and the theorems quantify
  over all sequences of iterations. Numeric bounds in the theorems are those of the source: the
  width of its counters and windows, the capacity of its queues and rings.

  \<^bold>\<open>Not modelled.\<close>
  \<^item> Concurrency below the granularity of a critical section, and the Go memory model.
  \<^item> The entity engine and what runs on it (\<open>pkg/engine\<close>, \<open>pkg/universe/stage.go\<close>,
    \<open>cell_transfer_executor.go\<close>, the component and system packages, the games under \<open>examples\<close>): they
    work on an external entity-component store through reflection and generics.
  \<^item> Network and process glue: the gRPC mesh (\<open>mesh_control_*.go\<close>, \<open>host_network.go\<close>, \<open>gateway.go\<close>),
    HTTP servers, the public facade in the root package, start-up and shutdown. Their effects on the
    modelled state appear as arguments or as steps.
  \<^item> Services over a database (chat, authentication, persistence) beyond the market's order table.
  \<^item> Generated code (\<open>gen\<close>), code generators (\<open>cmd\<close>), WebAssembly hosting, metrics, logging, command
    consoles and the browser and C# clients.
\<close>

end
